(* ===== verification/Prelude.thy ===== *)
theory Prelude
  imports Main "HOL-Library.Word" "HOL-Library.Multiset"
begin

unbundle bit_operations_syntax

text \<open>
  Shared vocabulary of the development: the outcome type for code that asserts or aborts,
  the hint collections, and the lemmas on lists, words and list segments in a heap of
  \<open>next\<close> pointers that several components use.
\<close>

section \<open>Hint collections\<close>

named_theorems flag_simps \<open>observers of a state word after an update\<close>
named_theorems step_simps \<open>equations of the step functions\<close>
named_theorems inv_intros \<open>an operation keeps its component's invariant\<close>

section \<open>Outcomes\<close>

text \<open>
  \<open>Assertion_failed\<close> is a failing \<open>assert\<close> (debug builds), \<open>Aborted\<close> is \<open>std::abort\<close>,
  which the code calls in every build, \<open>Terminated\<close> is \<open>std::terminate\<close>.
\<close>

datatype fault = Assertion_failed | Aborted | Terminated

type_synonym 'a outcome = "fault + 'a"

section \<open>Lists\<close>

text \<open>The number of list elements that satisfy a predicate, as a thread pool is counted.\<close>

definition count_if :: "('a \<Rightarrow> bool) \<Rightarrow> 'a list \<Rightarrow> nat" where
  "count_if P xs = length (filter P xs)"

lemma count_if_Nil [simp]: "count_if P [] = 0"
  by (simp add: count_if_def)

lemma count_if_Cons [simp]: "count_if P (x # xs) = (if P x then 1 else 0) + count_if P xs"
  by (simp add: count_if_def)

lemma count_if_append [simp]: "count_if P (xs @ ys) = count_if P xs + count_if P ys"
  by (simp add: count_if_def)

lemma count_if_replicate [simp]: "count_if P (replicate n x) = (if P x then n else 0)"
  by (induction n) simp_all

lemma count_if_update:
  assumes "i < length xs"
  shows "count_if P (xs[i := y]) + (if P (xs ! i) then 1 else 0)
       = count_if P xs + (if P y then 1 else 0)"
  using assms
proof (induction xs arbitrary: i)
  case Nil
  then show ?case by simp
next
  case (Cons x xs)
  then show ?case
  proof (cases i)
    case 0
    then show ?thesis by simp
  next
    case (Suc j)
    with Cons.prems have "j < length xs" by simp
    from Cons.IH [OF this] Suc show ?thesis by simp
  qed
qed

lemma count_if_update_same:
  assumes "i < length xs" and "P y = P (xs ! i)"
  shows "count_if P (xs[i := y]) = count_if P xs"
  using count_if_update [OF assms(1), of P y] assms(2) by (simp split: if_splits)

lemma count_if_update_in:
  assumes "i < length xs" and "P y" and "\<not> P (xs ! i)"
  shows "count_if P (xs[i := y]) = Suc (count_if P xs)"
  using count_if_update [OF assms(1), of P y] assms(2,3) by simp

lemma count_if_update_out:
  assumes "i < length xs" and "\<not> P y" and "P (xs ! i)"
  shows "Suc (count_if P (xs[i := y])) = count_if P xs"
  using count_if_update [OF assms(1), of P y] assms(2,3) by simp

lemma count_if_update_eq:
  assumes "i < length xs"
  shows "count_if P (xs[i := y]) = count_if P xs + of_bool (P y) - of_bool (P (xs ! i))"
  using count_if_update [OF assms, of P y] by (auto split: if_splits)

lemma count_if_pos:
  assumes "i < length xs" and "P (xs ! i)"
  shows "0 < count_if P xs"
  using assms by (induction xs arbitrary: i) (auto simp: nth_Cons split: nat.splits)

lemma count_if_0_iff: "count_if P xs = 0 \<longleftrightarrow> (\<forall>x \<in> set xs. \<not> P x)"
  by (induction xs) auto

lemma count_if_le_length: "count_if P xs \<le> length xs"
  by (simp add: count_if_def)

text \<open>The sum over a pool when one of its members moves.\<close>

lemma sum_list_update_add:
  fixes f :: "'a \<Rightarrow> 'b :: comm_monoid_add"
  assumes "i < length xs"
  shows "sum_list (map f (xs[i := y])) + f (xs ! i) = sum_list (map f xs) + f y"
  using assms
proof (induction xs arbitrary: i)
  case (Cons x xs)
  show ?case
  proof (cases i)
    case 0
    then show ?thesis by (simp add: ac_simps)
  next
    case (Suc j)
    with Cons.prems have "j < length xs" by simp
    from Cons.IH [OF this] Suc show ?thesis by (simp add: ac_simps)
  qed
qed simp

lemma balance_move:
  fixes a :: "'b :: cancel_comm_monoid_add"
  assumes "a' + f = a + f'" and "f + e = f' + e'"
  shows "a' + e' = a + e"
proof -
  have "(a' + e') + f = (a' + f) + e'" by (simp add: ac_simps)
  also have "\<dots> = (a + f') + e'" by (simp only: assms(1))
  also have "\<dots> = a + (f' + e')" by (simp add: ac_simps)
  also have "\<dots> = a + (f + e)" by (simp only: assms(2))
  also have "\<dots> = (a + e) + f" by (simp add: ac_simps)
  finally show ?thesis by simp
qed

section \<open>List segments over a map of next pointers\<close>

text \<open>
  \<open>seg nx p xs q\<close>: following \<open>nx\<close> from \<open>p\<close> visits exactly the addresses \<open>xs\<close> and
  arrives at \<open>q\<close>.
\<close>

primrec seg :: "(nat \<Rightarrow> nat) \<Rightarrow> nat \<Rightarrow> nat list \<Rightarrow> nat \<Rightarrow> bool" where
  "seg nx p [] q \<longleftrightarrow> p = q"
| "seg nx p (a # as) q \<longleftrightarrow> p = a \<and> seg nx (nx a) as q"

lemma seg_append: "seg nx p (xs @ ys) q \<longleftrightarrow> (\<exists>r. seg nx p xs r \<and> seg nx r ys q)"
  by (induction xs arbitrary: p) auto

lemma seg_upd_notin [simp]: "a \<notin> set xs \<Longrightarrow> seg (nx(a := b)) p xs q = seg nx p xs q"
  by (induction xs arbitrary: p) auto

lemma seg_cong: "(\<And>x. x \<in> set xs \<Longrightarrow> nx' x = nx x) \<Longrightarrow> seg nx' p xs q = seg nx p xs q"
  by (induction xs arbitrary: p) auto

lemma seg_unique:
  assumes "seg nx p xs q" and "seg nx p ys q" and "q \<notin> set xs" and "q \<notin> set ys"
  shows "xs = ys"
  using assms
proof (induction xs arbitrary: p ys)
  case Nil
  then show ?case by (cases ys) auto
next
  case (Cons a as)
  then show ?case by (cases ys) auto
qed

lemma seg_hd: "seg nx p xs q \<Longrightarrow> p = hd (xs @ [q])"
  by (cases xs) auto

lemma seg_snoc: "seg nx p (xs @ [a]) q \<longleftrightarrow> seg nx p xs a \<and> nx a = q"
  by (auto simp: seg_append)

section \<open>Words\<close>

lemma bit_numeral_1_0 [simp]: "bit (1 :: 'a :: len word) n \<longleftrightarrow> n = 0"
  by (simp add: bit_1_iff)

end
