(* ===== verification/State_Word.thy ===== *)
theory State_Word
  imports Prelude
begin

text \<open>
  The state word of \<open>actor/cooperative_actor.hpp\<close>: three flags in the low bits of a 32-bit
  word and the number of in-flight senders above them, with the transition helpers the
  compare-exchange loops use, and the back-off those loops share.
\<close>

section \<open>The word and its helpers\<close>

type_synonym actor_state = "32 word"

text \<open>The enumerators; the sender count is zero in each of them.\<close>

definition st_idle :: actor_state where "st_idle = 0"
definition st_scheduled :: actor_state where "st_scheduled = 1"
definition st_running :: actor_state where "st_running = 2"
definition st_running_scheduled :: actor_state where "st_running_scheduled = 3"
definition st_idle_destroying :: actor_state where "st_idle_destroying = 4"
definition st_scheduled_destroying :: actor_state where "st_scheduled_destroying = 5"
definition st_running_destroying :: actor_state where "st_running_destroying = 6"
definition st_running_scheduled_destroying :: actor_state where "st_running_scheduled_destroying = 7"

definition is_scheduled :: "actor_state \<Rightarrow> bool" where
  "is_scheduled s \<longleftrightarrow> s AND 1 \<noteq> 0"

definition is_running :: "actor_state \<Rightarrow> bool" where
  "is_running s \<longleftrightarrow> s AND 2 \<noteq> 0"

definition is_destroying :: "actor_state \<Rightarrow> bool" where
  "is_destroying s \<longleftrightarrow> s AND 4 \<noteq> 0"

definition set_scheduled :: "actor_state \<Rightarrow> bool \<Rightarrow> actor_state" where
  "set_scheduled s value = (if value then s OR 1 else s AND NOT 1)"

definition set_running :: "actor_state \<Rightarrow> bool \<Rightarrow> actor_state" where
  "set_running s value = (if value then s OR 2 else s AND NOT 2)"

definition set_destroying :: "actor_state \<Rightarrow> actor_state" where
  "set_destroying s = s OR 4"

definition kSenderStep :: "32 word" where
  "kSenderStep = 8"

definition sender_count :: "actor_state \<Rightarrow> 32 word" where
  "sender_count s = s div kSenderStep"

definition flags_of :: "actor_state \<Rightarrow> actor_state" where
  "flags_of s = s mod kSenderStep"

definition add_sender :: "actor_state \<Rightarrow> actor_state" where
  "add_sender s = s + kSenderStep"

definition sub_sender :: "actor_state \<Rightarrow> actor_state" where
  "sub_sender s = s - kSenderStep"

definition make_state :: "bool \<Rightarrow> bool \<Rightarrow> bool \<Rightarrow> actor_state" where
  "make_state scheduled running destroying =
     (let bits0 = 0;
          bits1 = (if scheduled then bits0 OR 1 else bits0);
          bits2 = (if running then bits1 OR 2 else bits1)
      in if destroying then bits2 OR 4 else bits2)"

section \<open>Decoding\<close>

text \<open>The word whose flags and sender count are given.\<close>

definition actor_word :: "bool \<Rightarrow> bool \<Rightarrow> bool \<Rightarrow> nat \<Rightarrow> actor_state" where
  "actor_word s r d n = word_of_nat (8 * n + (4 * of_bool d + (2 * of_bool r + of_bool s)))"

definition max_senders :: nat where
  "max_senders = 2 ^ 29 - 1"

lemma unat_actor_word:
  assumes "n \<le> max_senders"
  shows "unat (actor_word s r d n) = 8 * n + (4 * of_bool d + (2 * of_bool r + of_bool s))"
proof -
  have "8 * n + (4 * of_bool d + (2 * of_bool r + of_bool s)) < (2 :: nat) ^ 32"
    using assms by (simp add: max_senders_def of_bool_def)
  then show ?thesis
    unfolding actor_word_def unat_of_nat by (intro mod_less) simp
qed

lemma bit_actor_word:
  "bit (actor_word s r d n) k \<longleftrightarrow> k < 32 \<and>
     (if k = 0 then s else if k = 1 then r else if k = 2 then d else bit n (k - 3))"
proof -
  have "bit (8 * n + (4 * of_bool d + (2 * of_bool r + of_bool s))) k \<longleftrightarrow>
     (if k = 0 then s else if k = 1 then r else if k = 2 then d else bit n (k - 3))"
  proof -
    consider "k = 0" | "k = 1" | "k = 2" | m where "k = m + 3"
      by (metis One_nat_def Suc_1 add.commute add_Suc_right not0_implies_Suc numeral_3_eq_3 plus_1_eq_Suc)
    then show ?thesis
    proof cases
      case 1
      then show ?thesis by (simp add: bit_iff_odd)
    next
      case 2
      then show ?thesis
        by (cases s; cases r; cases d) (simp_all add: bit_iff_odd, presburger+)
    next
      case 3
      then show ?thesis
        by (cases s; cases r; cases d) (simp_all add: bit_iff_odd, presburger+)
    next
      case 4
      have "(8 * n + (4 * of_bool d + (2 * of_bool r + of_bool s))) div 2 ^ (m + 3)
          = ((8 * n + (4 * of_bool d + (2 * of_bool r + of_bool s))) div 8) div 2 ^ m"
        by (simp add: power_add div_mult2_eq mult.commute)
      also have "(8 * n + (4 * of_bool d + (2 * of_bool r + of_bool s))) div 8 = n"
        by (cases s; cases r; cases d) simp_all
      finally show ?thesis
        using 4 by (simp add: bit_iff_odd)
    qed
  qed
  then show ?thesis
    unfolding actor_word_def bit_of_nat_iff by auto
qed

lemma actor_word_surj:
  obtains s r d n where "w = actor_word s r d n" and "n \<le> max_senders"
proof -
  define n where "n = unat w div 8"
  have "unat w < 2 ^ 32" using unsigned_less [of w] by simp
  then have n: "n \<le> max_senders" by (simp add: n_def max_senders_def)
  have "unat w = 8 * n + unat w mod 8" by (simp add: n_def)
  also have "unat w mod 8 = 4 * of_bool (bit (unat w) 2) + (2 * of_bool (bit (unat w) 1) + of_bool (bit (unat w) 0))"
    by (simp add: bit_iff_odd) presburger
  finally have u: "unat w = 8 * n
      + (4 * of_bool (bit (unat w) 2) + (2 * of_bool (bit (unat w) 1) + of_bool (bit (unat w) 0)))" .
  have "w = word_of_nat (unat w)"
    by (simp only: of_nat_unat ucast_id)
  also have "\<dots> = actor_word (bit (unat w) 0) (bit (unat w) 1) (bit (unat w) 2) n"
    unfolding actor_word_def by (rule arg_cong [OF u])
  finally have "w = actor_word (bit (unat w) 0) (bit (unat w) 1) (bit (unat w) 2) n" .
  with n show thesis using that by blast
qed


section \<open>What each helper does to the decoded word\<close>

lemma word_of_bits_eqI:
  fixes a b :: actor_state
  assumes "\<And>k. k < 32 \<Longrightarrow> bit a k = bit b k"
  shows "a = b"
  by (rule bit_word_eqI) (use assms in simp)

lemma and_2_pow_eq_0: "(w :: 32 word) AND 2 ^ k \<noteq> 0 \<longleftrightarrow> bit w k"
  by (simp add: bit_iff_and_push_bit_not_eq_0 push_bit_of_1)

lemma bit_or_flag:
  "bit ((w :: 32 word) OR 1) k \<longleftrightarrow> bit w k \<or> k = 0"
  "k < 32 \<Longrightarrow> bit (w OR 2) k \<longleftrightarrow> bit w k \<or> k = 1"
  "k < 32 \<Longrightarrow> bit (w OR 4) k \<longleftrightarrow> bit w k \<or> k = 2"
  using bit_exp_iff [of 1 k, where ?'a = "32 word"] bit_exp_iff [of 2 k, where ?'a = "32 word"]
  by (auto simp: bit_or_iff)

lemma bit_and_not_flag:
  assumes "k < 32"
  shows "bit ((w :: 32 word) AND NOT 1) k \<longleftrightarrow> bit w k \<and> k \<noteq> 0"
    and "bit (w AND NOT 2) k \<longleftrightarrow> bit w k \<and> k \<noteq> 1"
proof -
  have "bit (NOT (1 :: 32 word)) k \<longleftrightarrow> k \<noteq> 0" "bit (NOT (2 ^ 1 :: 32 word)) k \<longleftrightarrow> k \<noteq> 1"
    using assms unfolding bit_not_iff bit_1_iff bit_exp_iff by auto
  then show "bit (w AND NOT 1) k \<longleftrightarrow> bit w k \<and> k \<noteq> 0"
    and "bit (w AND NOT 2) k \<longleftrightarrow> bit w k \<and> k \<noteq> 1"
    unfolding bit_and_iff power_one_right by simp_all
qed

lemma is_scheduled_word [simp, flag_simps]: "is_scheduled (actor_word s r d n) = s"
  using and_2_pow_eq_0 [of "actor_word s r d n" 0] by (simp add: is_scheduled_def bit_actor_word)

lemma is_running_word [simp, flag_simps]: "is_running (actor_word s r d n) = r"
  using and_2_pow_eq_0 [of "actor_word s r d n" 1] by (simp add: is_running_def bit_actor_word)

lemma is_destroying_word [simp, flag_simps]: "is_destroying (actor_word s r d n) = d"
  using and_2_pow_eq_0 [of "actor_word s r d n" 2] by (simp add: is_destroying_def bit_actor_word)

lemma set_scheduled_word [simp, flag_simps]:
  "set_scheduled (actor_word s r d n) v = actor_word v r d n"
  by (rule word_of_bits_eqI, cases v)
    (simp_all only: set_scheduled_def if_True if_False bit_or_flag bit_and_not_flag bit_actor_word, auto)

lemma set_running_word [simp, flag_simps]:
  "set_running (actor_word s r d n) v = actor_word s v d n"
  by (rule word_of_bits_eqI, cases v)
    (simp_all only: set_running_def if_True if_False bit_or_flag bit_and_not_flag bit_actor_word, auto)

lemma set_destroying_word [simp, flag_simps]:
  "set_destroying (actor_word s r d n) = actor_word s r True n"
  by (rule word_of_bits_eqI) (simp only: set_destroying_def bit_or_flag bit_actor_word, auto)

lemma sender_count_word [simp, flag_simps]:
  assumes "n \<le> max_senders"
  shows "unat (sender_count (actor_word s r d n)) = n"
  using assms by (simp add: sender_count_def kSenderStep_def unat_div unat_actor_word)

lemma flags_of_word [simp, flag_simps]:
  assumes "n \<le> max_senders"
  shows "flags_of (actor_word s r d n) = actor_word s r d 0"
proof -
  have "unat (flags_of (actor_word s r d n)) = unat (actor_word s r d 0)"
    using assms unat_actor_word [of 0 s r d]
    by (simp add: flags_of_def kSenderStep_def unat_mod unat_actor_word)
  then show ?thesis by (simp only: word_unat_eq_iff)
qed

lemma add_sender_word [simp, flag_simps]:
  "add_sender (actor_word s r d n) = actor_word s r d (Suc n)"
  by (simp only: add_sender_def kSenderStep_def actor_word_def) (simp add: algebra_simps)

lemma sub_sender_word [simp, flag_simps]:
  "sub_sender (actor_word s r d (Suc n)) = actor_word s r d n"
  by (simp only: sub_sender_def kSenderStep_def actor_word_def) (simp add: algebra_simps)

lemma make_state_word [simp, flag_simps]: "make_state s r d = actor_word s r d 0"
  by (cases s; cases r; cases d) (simp_all add: make_state_def actor_word_def)

end
