(* ===== verification/Lifo_Inbox.thy ===== *)
theory Lifo_Inbox
  imports Prelude
begin

text \<open>
  The multi-producer inbox of \<open>detail/queue/lifo_inbox.hpp\<close>: one atomic pointer to a
  stack of intrusive nodes, with two tag values for "closed" and "reader blocked". Pointers are
  addresses; a node's \<open>next\<close> field lives in a memory the queues share. The compare-exchange
  loops are modelled one atomic access at a time, and run here with any number of producers
  against the one reader.
\<close>

section \<open>Memory of intrusive nodes\<close>

text \<open>\<open>singly_linked\<close>: a node is its address, its only field is \<open>next\<close>; 0 is the null pointer.\<close>

record mem =
  nxt :: "nat \<Rightarrow> nat"
  freed :: "nat list"

definition delete_node :: "nat \<Rightarrow> mem \<Rightarrow> mem" where
  "delete_node p m = m\<lparr>freed := freed m @ [p]\<rparr>"

definition set_next :: "nat \<Rightarrow> nat \<Rightarrow> mem \<Rightarrow> mem" where
  "set_next p q m = m\<lparr>nxt := (nxt m)(p := q)\<rparr>"

lemma set_next_simps [simp]:
  "nxt (set_next p q m) = (nxt m)(p := q)"
  "freed (set_next p q m) = freed m"
  "nxt (delete_node p m) = nxt m"
  "freed (delete_node p m) = freed m @ [p]"
  by (simp_all add: set_next_def delete_node_def)

section \<open>The inbox\<close>

datatype enqueue_result = Success | Unblocked_reader | Queue_closed

record lifo_inbox =
  this_addr :: nat
  stack :: nat

definition stack_empty_tag :: nat where
  "stack_empty_tag = 0"

definition stack_closed_tag :: "lifo_inbox \<Rightarrow> nat" where
  "stack_closed_tag q = this_addr q + 1"

definition reader_blocked_tag :: "lifo_inbox \<Rightarrow> nat" where
  "reader_blocked_tag q = this_addr q"

definition is_empty_or_blocked_tag :: "lifo_inbox \<Rightarrow> nat \<Rightarrow> bool" where
  "is_empty_or_blocked_tag q x \<longleftrightarrow> x = stack_empty_tag \<or> x = reader_blocked_tag q"

definition new_inbox :: "nat \<Rightarrow> lifo_inbox" where
  "new_inbox this = \<lparr>this_addr = this, stack = stack_empty_tag\<rparr>"

definition inbox_closed :: "lifo_inbox \<Rightarrow> bool" where
  "inbox_closed q \<longleftrightarrow> stack q = stack_closed_tag q"

definition inbox_blocked :: "lifo_inbox \<Rightarrow> bool" where
  "inbox_blocked q \<longleftrightarrow> stack q = reader_blocked_tag q"

text \<open>\<open>empty()\<close> asserts that the inbox is neither closed nor blocked.\<close>

definition inbox_empty :: "lifo_inbox \<Rightarrow> bool outcome" where
  "inbox_empty q =
     (if inbox_closed q \<or> inbox_blocked q then Inl Assertion_failed
      else Inr (stack q = stack_empty_tag))"

definition inbox_try_block :: "lifo_inbox \<Rightarrow> bool \<times> lifo_inbox" where
  "inbox_try_block q =
     (if stack q = stack_empty_tag then (True, q\<lparr>stack := reader_blocked_tag q\<rparr>)
      else (False, q))"

definition inbox_try_unblock :: "lifo_inbox \<Rightarrow> bool \<times> lifo_inbox" where
  "inbox_try_unblock q =
     (if stack q = reader_blocked_tag q then (True, q\<lparr>stack := stack_empty_tag\<rparr>)
      else (False, q))"

text \<open>
  \<open>push_front\<close>: load the head; then, unless it is the closed tag, point the new element at it
  and try to swing the head. A lost race reloads the head and goes round again.
\<close>

datatype push_pc = Push_load | Push_try nat | Push_done enqueue_result

fun push_front_step :: "nat \<Rightarrow> push_pc \<Rightarrow> lifo_inbox \<times> mem \<Rightarrow> push_pc \<times> lifo_inbox \<times> mem" where
  "push_front_step new_element Push_load (q, m) = (Push_try (stack q), q, m)"
| "push_front_step new_element (Push_try last_element) (q, m) =
     (if last_element = stack_closed_tag q
      then (Push_done Queue_closed, q, delete_node new_element m)
      else
        (let m' = set_next new_element
                    (if last_element \<noteq> reader_blocked_tag q then last_element else 0) m
         in if stack q = last_element
            then (Push_done (if last_element = reader_blocked_tag q then Unblocked_reader
                             else Success), q\<lparr>stack := new_element\<rparr>, m')
            else (Push_try (stack q), q, m')))"
| "push_front_step new_element (Push_done r) (q, m) = (Push_done r, q, m)"

text \<open>The call as one thread runs it when nobody interferes.\<close>

definition push_front :: "nat \<Rightarrow> lifo_inbox \<times> mem \<Rightarrow> enqueue_result \<times> lifo_inbox \<times> mem" where
  "push_front new_element qm =
     (case push_front_step new_element Push_load qm of
        (pc, qm') \<Rightarrow>
          (case push_front_step new_element pc qm' of
             (Push_done r, qm'') \<Rightarrow> (r, qm'')
           | (_, qm'') \<Rightarrow> (Queue_closed, qm'')))"

text \<open>
  \<open>take_head(new_head)\<close>: detach the whole stack, leaving \<open>new_head\<close> (the empty tag, or the
  closed tag when closing). The compare-exchange is the weak one, so the environment may make
  it fail although the head matches.
\<close>

datatype take_pc = Take_load | Take_try nat | Take_done nat

fun take_head_step :: "bool \<Rightarrow> nat \<Rightarrow> take_pc \<Rightarrow> lifo_inbox \<Rightarrow> take_pc \<times> lifo_inbox" where
  "take_head_step spurious new_head Take_load q = (Take_try (stack q), q)"
| "take_head_step spurious new_head (Take_try last_element) q =
     (if last_element = new_head then (Take_done 0, q)
      else if stack q = last_element \<and> \<not> spurious
      then (Take_done (if is_empty_or_blocked_tag q last_element then 0 else last_element),
            q\<lparr>stack := new_head\<rparr>)
      else (Take_try (stack q), q))"
| "take_head_step spurious new_head (Take_done h) q = (Take_done h, q)"

text \<open>The assertions \<open>take_head\<close> makes of the head it loads.\<close>

definition take_head_asserts :: "nat \<Rightarrow> lifo_inbox \<Rightarrow> bool" where
  "take_head_asserts new_head q \<longleftrightarrow>
     (new_head = stack_closed_tag q \<or> new_head = stack_empty_tag) \<and>
     stack q \<noteq> stack_closed_tag q \<and>
     (stack q \<noteq> reader_blocked_tag q \<or> new_head = stack_closed_tag q)"

definition take_head :: "nat \<Rightarrow> lifo_inbox \<Rightarrow> nat \<times> lifo_inbox" where
  "take_head new_head q =
     (let last_element = stack q
      in if last_element = new_head then (0, q)
         else (if is_empty_or_blocked_tag q last_element then 0 else last_element,
               q\<lparr>stack := new_head\<rparr>))"

text \<open>
  \<open>close(func)\<close>: detach and pass every element to \<open>func\<close>, reading \<open>next\<close> before the call.
  The walk follows whatever the memory holds, so it may not return.
\<close>

partial_function (option) close_loop ::
  "(nat \<Rightarrow> nat) \<Rightarrow> (nat \<Rightarrow> 's \<Rightarrow> 's) \<Rightarrow> nat \<Rightarrow> 's \<Rightarrow> 's option" where
  "close_loop nx func ptr s =
     (if ptr = 0 then Some s else close_loop nx func (nx ptr) (func ptr s))"

definition inbox_close ::
  "(nat \<Rightarrow> 's \<Rightarrow> 's) \<Rightarrow> lifo_inbox \<Rightarrow> (nat \<Rightarrow> nat) \<Rightarrow> 's \<Rightarrow> ('s \<times> lifo_inbox) option" where
  "inbox_close func q nx s =
     (case take_head (stack_closed_tag q) q of
        (ptr, q') \<Rightarrow> map_option (\<lambda>s'. (s', q')) (close_loop nx func ptr s))"

section \<open>The abstract inbox\<close>

text \<open>What the tagged pointer stands for: newest element first when open.\<close>

datatype 'a inbox = Blocked | Closed | Open "'a list"

fun ib_push :: "'a \<Rightarrow> 'a inbox \<Rightarrow> enqueue_result \<times> 'a inbox" where
  "ib_push x Blocked = (Unblocked_reader, Open [x])"
| "ib_push x Closed = (Queue_closed, Closed)"
| "ib_push x (Open xs) = (Success, Open (x # xs))"

fun ib_try_block :: "'a inbox \<Rightarrow> bool \<times> 'a inbox" where
  "ib_try_block (Open []) = (True, Blocked)"
| "ib_try_block ib = (False, ib)"

fun ib_try_unblock :: "'a inbox \<Rightarrow> bool \<times> 'a inbox" where
  "ib_try_unblock Blocked = (True, Open [])"
| "ib_try_unblock ib = (False, ib)"

text \<open>Detaching; on a closed inbox it is the fault the assertion guards.\<close>

fun ib_take :: "'a inbox \<Rightarrow> ('a list \<times> 'a inbox) outcome" where
  "ib_take (Open xs) = Inr (xs, Open [])"
| "ib_take _ = Inl Assertion_failed"

fun ib_elems :: "'a inbox \<Rightarrow> 'a list" where
  "ib_elems (Open xs) = xs"
| "ib_elems _ = []"

section \<open>Representation\<close>

definition node_ok :: "lifo_inbox \<Rightarrow> nat \<Rightarrow> bool" where
  "node_ok q x \<longleftrightarrow> x \<noteq> 0 \<and> x \<noteq> reader_blocked_tag q \<and> x \<noteq> stack_closed_tag q"

definition wf_inbox :: "lifo_inbox \<Rightarrow> bool" where
  "wf_inbox q \<longleftrightarrow> this_addr q \<noteq> 0"

fun inbox_rep :: "lifo_inbox \<Rightarrow> (nat \<Rightarrow> nat) \<Rightarrow> nat inbox \<Rightarrow> bool" where
  "inbox_rep q nx Blocked \<longleftrightarrow> stack q = reader_blocked_tag q"
| "inbox_rep q nx Closed \<longleftrightarrow> stack q = stack_closed_tag q"
| "inbox_rep q nx (Open xs) \<longleftrightarrow>
     stack q \<noteq> reader_blocked_tag q \<and> stack q \<noteq> stack_closed_tag q \<and>
     seg nx (stack q) xs 0 \<and> (\<forall>x \<in> set xs. node_ok q x)"

lemmas tag_defs = stack_empty_tag_def stack_closed_tag_def reader_blocked_tag_def

lemma inbox_rep_stack_upd_tags [simp]:
  "reader_blocked_tag (q\<lparr>stack := p\<rparr>) = reader_blocked_tag q"
  "stack_closed_tag (q\<lparr>stack := p\<rparr>) = stack_closed_tag q"
  "node_ok (q\<lparr>stack := p\<rparr>) x = node_ok q x"
  "wf_inbox (q\<lparr>stack := p\<rparr>) = wf_inbox q"
  by (simp_all add: tag_defs node_ok_def wf_inbox_def)

lemma tags_distinct [simp]:
  "reader_blocked_tag q \<noteq> stack_closed_tag q"
  "stack_closed_tag q \<noteq> reader_blocked_tag q"
  "stack_closed_tag q \<noteq> 0"
  "wf_inbox q \<Longrightarrow> reader_blocked_tag q \<noteq> 0"
  by (simp_all add: tag_defs wf_inbox_def)

lemma inbox_rep_frame [simp]:
  assumes "e \<notin> set (ib_elems a)"
  shows "inbox_rep q (nx(e := p)) a = inbox_rep q nx a"
  using assms by (cases a) auto

lemma inbox_rep_cong:
  assumes "\<And>x. x \<in> set (ib_elems a) \<Longrightarrow> nx' x = nx x"
  shows "inbox_rep q nx' a = inbox_rep q nx a"
  using assms seg_cong [of "ib_elems a" nx' nx] by (cases a) auto

lemma inbox_rep_closedD: "inbox_rep q nx a \<Longrightarrow> (stack q = stack_closed_tag q) = (a = Closed)"
  by (cases a) auto

lemma inbox_rep_blockedD: "inbox_rep q nx a \<Longrightarrow> (stack q = reader_blocked_tag q) = (a = Blocked)"
  by (cases a) auto

lemma inbox_rep_emptyD:
  "wf_inbox q \<Longrightarrow> inbox_rep q nx a \<Longrightarrow> (stack q = 0) = (a = Open [])"
proof (cases a)
  case (Open xs)
  assume "inbox_rep q nx a" "wf_inbox q"
  with Open show ?thesis by (cases xs) (auto simp: node_ok_def)
qed auto

text \<open>
  The linearisation of \<open>push_front\<close>: every iteration that does not finish leaves the abstract
  inbox alone, and the finishing one performs exactly the abstract push with its result. A
  producer that has seen the closed tag relies on closing being final.
\<close>

lemma push_step_refines:
  assumes wf: "wf_inbox q" and rep: "inbox_rep q (nxt m) a"
    and e: "node_ok q e" "e \<notin> set (ib_elems a)"
    and final: "pc = Push_try (stack_closed_tag q) \<longrightarrow> stack q = stack_closed_tag q"
    and pc: "\<forall>r. pc \<noteq> Push_done r"
    and st: "push_front_step e pc (q, m) = (pc', q', m')"
  shows "case pc' of
           Push_done r \<Rightarrow> \<exists>a'. ib_push e a = (r, a') \<and> inbox_rep q' (nxt m') a'
         | _ \<Rightarrow> inbox_rep q' (nxt m') a"
proof (cases pc)
  case Push_load
  with st rep show ?thesis by auto
next
  case (Push_try l)
  consider (closed) "l = stack_closed_tag q" | (hit) "l \<noteq> stack_closed_tag q" "stack q = l"
    | (miss) "l \<noteq> stack_closed_tag q" "stack q \<noteq> l" by blast
  then show ?thesis
  proof cases
    case closed
    with final Push_try rep have "a = Closed" by (simp add: inbox_rep_closedD)
    with closed st rep Push_try show ?thesis by auto
  next
    case miss
    with st Push_try rep e show ?thesis by (auto simp: Let_def)
  next
    case hit
    show ?thesis
    proof (cases a)
      case Blocked
      with hit st Push_try rep e show ?thesis
        by (auto simp: Let_def node_ok_def)
    next
      case Closed
      with hit rep show ?thesis by simp
    next
      case (Open xs)
      with hit st Push_try rep e show ?thesis
        by (auto simp: Let_def node_ok_def)
    qed
  qed
qed (use pc in auto)

lemma push_front_eq:
  "push_front e (q, m) =
     (if stack q = stack_closed_tag q then (Queue_closed, q, delete_node e m)
      else if stack q = reader_blocked_tag q
      then (Unblocked_reader, q\<lparr>stack := e\<rparr>, set_next e 0 m)
      else (Success, q\<lparr>stack := e\<rparr>, set_next e (stack q) m))"
  by (simp add: push_front_def Let_def)

lemma push_front_refines:
  assumes "wf_inbox q" and rep: "inbox_rep q (nxt m) a" and e: "node_ok q e" "e \<notin> set (ib_elems a)"
    and p: "push_front e (q, m) = (r, q', m')"
  shows "\<exists>a'. ib_push e a = (r, a') \<and> inbox_rep q' (nxt m') a' \<and> this_addr q' = this_addr q
    \<and> (\<forall>x. x \<noteq> e \<longrightarrow> nxt m' x = nxt m x)
    \<and> freed m' = freed m @ (if r = Queue_closed then [e] else [])"
proof (cases a)
  case Blocked
  with rep p e show ?thesis by (auto simp: push_front_eq node_ok_def)
next
  case Closed
  with rep p e show ?thesis by (auto simp: push_front_eq)
next
  case (Open xs)
  with rep have "stack q \<noteq> stack_closed_tag q" "stack q \<noteq> reader_blocked_tag q" by simp_all
  with p have "r = Success" "q' = q\<lparr>stack := e\<rparr>" "m' = set_next e (stack q) m"
    by (simp_all add: push_front_eq)
  with Open rep e show ?thesis by (simp add: node_ok_def)
qed

lemma take_head_refines:
  assumes "wf_inbox q" and "inbox_rep q nx (Open xs)" and "take_head stack_empty_tag q = (h, q')"
  shows "seg nx h xs 0 \<and> inbox_rep q' nx (Open []) \<and> this_addr q' = this_addr q"
  using assms
  by (cases xs) (auto simp: take_head_def Let_def stack_empty_tag_def is_empty_or_blocked_tag_def
      node_ok_def split: if_splits)

lemma try_block_refines:
  assumes "wf_inbox q" and "inbox_rep q nx a" and "inbox_try_block q = (b, q')"
  shows "\<exists>a'. ib_try_block a = (b, a') \<and> inbox_rep q' nx a' \<and> this_addr q' = this_addr q"
proof (cases "a = Open []")
  case True
  with assms show ?thesis by (auto simp: inbox_try_block_def stack_empty_tag_def)
next
  case False
  then have "ib_try_block a = (False, a)" by (cases a; cases "ib_elems a") auto
  moreover have "stack q \<noteq> 0" using False assms(1,2) by (simp add: inbox_rep_emptyD)
  ultimately show ?thesis using assms by (auto simp: inbox_try_block_def stack_empty_tag_def)
qed

lemma try_unblock_refines:
  assumes "wf_inbox q" and "inbox_rep q nx a" and "inbox_try_unblock q = (b, q')"
  shows "\<exists>a'. ib_try_unblock a = (b, a') \<and> inbox_rep q' nx a' \<and> this_addr q' = this_addr q"
  using assms by (cases a) (auto simp: inbox_try_unblock_def stack_empty_tag_def split: if_splits)

lemma close_loop_seg:
  assumes "seg nx p xs 0" and "0 \<notin> set xs"
  shows "close_loop nx f p s = Some (fold f xs s)"
  using assms
proof (induction xs arbitrary: p s)
  case Nil
  then show ?case by (simp add: close_loop.simps)
next
  case (Cons x xs)
  then show ?case by (subst close_loop.simps) auto
qed

lemma inbox_close_spec:
  assumes "wf_inbox q" and "inbox_rep q nx a" and "a \<noteq> Closed"
  shows "\<exists>q'. inbox_close f q nx s = Some (fold f (ib_elems a) s, q') \<and> inbox_rep q' nx Closed
    \<and> this_addr q' = this_addr q"
proof (cases a)
  case Blocked
  with assms show ?thesis
    by (auto simp: inbox_close_def take_head_def Let_def is_empty_or_blocked_tag_def close_loop.simps)
next
  case Closed
  with assms show ?thesis by simp
next
  case (Open xs)
  with assms have p: "seg nx (stack q) xs 0" "0 \<notin> set xs" by (auto simp: node_ok_def)
  show ?thesis
  proof (cases "stack q = 0")
    case True
    with p have "xs = []" by (cases xs) auto
    with Open True assms show ?thesis
      by (auto simp: inbox_close_def take_head_def Let_def is_empty_or_blocked_tag_def
          stack_empty_tag_def close_loop.simps)
  next
    case False
    with Open assms p show ?thesis
      by (auto simp: inbox_close_def take_head_def Let_def is_empty_or_blocked_tag_def
          stack_empty_tag_def close_loop_seg)
  qed
qed

end
