(* ===== verification/Linked_List.thy ===== *)
theory Linked_List
  imports Lifo_Inbox
begin

text \<open>
  The intrusive singly linked queue of \<open>detail/queue/linked_list.hpp\<close>: a sentinel \<open>head_\<close>
  whose \<open>next\<close> is the first element, a sentinel \<open>tail_\<close> whose \<open>next\<close> is the last element
  (\<open>head_\<close> itself when empty), and a size. Sentinels and elements share the memory of
  \<open>next\<close> pointers, so every operation is a sequence of writes to it.
\<close>

section \<open>Model\<close>

record linked_list =
  head :: nat
  tail :: nat
  size_of :: nat

definition ll_init :: "linked_list \<times> mem \<Rightarrow> linked_list \<times> mem" where
  "ll_init lm =
     (case lm of (l, m) \<Rightarrow>
        (l\<lparr>size_of := 0\<rparr>, set_next (tail l) (head l) (set_next (head l) (tail l) m)))"

definition ll_new :: "nat \<Rightarrow> nat \<Rightarrow> mem \<Rightarrow> linked_list \<times> mem" where
  "ll_new h t m = (\<lparr>head = h, tail = t, size_of = 0\<rparr>, set_next t h (set_next h t m))"

definition ll_size :: "linked_list \<Rightarrow> nat" where
  "ll_size l = size_of l"

definition ll_empty :: "linked_list \<Rightarrow> bool" where
  "ll_empty l \<longleftrightarrow> ll_size l = 0"

definition ll_before_end :: "linked_list \<times> mem \<Rightarrow> nat" where
  "ll_before_end lm = (case lm of (l, m) \<Rightarrow> nxt m (tail l))"

definition ll_front :: "linked_list \<times> mem \<Rightarrow> nat" where
  "ll_front lm = (case lm of (l, m) \<Rightarrow> nxt m (head l))"

definition ll_peek :: "linked_list \<times> mem \<Rightarrow> nat" where
  "ll_peek lm = (if size_of (fst lm) > 0 then ll_front lm else 0)"

definition ll_push_back :: "nat \<Rightarrow> linked_list \<times> mem \<Rightarrow> linked_list \<times> mem" where
  "ll_push_back ptr lm =
     (case lm of (l, m) \<Rightarrow>
        let m1 = set_next (nxt m (tail l)) ptr m;
            m2 = set_next (tail l) ptr m1;
            m3 = set_next ptr (tail l) m2
        in (l\<lparr>size_of := size_of l + 1\<rparr>, m3))"

definition ll_push_front :: "nat \<Rightarrow> linked_list \<times> mem \<Rightarrow> linked_list \<times> mem" where
  "ll_push_front ptr lm =
     (case lm of (l, m) \<Rightarrow>
        if ll_empty l then ll_push_back ptr (l, m)
        else
          (let m1 = set_next ptr (nxt m (head l)) m;
               m2 = set_next (head l) ptr m1
           in (l\<lparr>size_of := size_of l + 1\<rparr>, m2)))"

text \<open>The popped pointer, or null (0) when the queue is empty.\<close>

definition ll_pop_front :: "linked_list \<times> mem \<Rightarrow> nat \<times> linked_list \<times> mem" where
  "ll_pop_front lm =
     (case lm of (l, m) \<Rightarrow>
        if \<not> ll_empty l then
          (let ptr = nxt m (head l);
               m1 = set_next (head l) (nxt m ptr) m;
               l1 = l\<lparr>size_of := size_of l - 1\<rparr>;
               m2 = (if size_of l1 = 0 then set_next (tail l) (head l) m1 else m1)
           in (ptr, l1, m2))
        else (0, l, m))"

definition ll_insert_after :: "nat \<Rightarrow> nat \<Rightarrow> linked_list \<times> mem \<Rightarrow> linked_list \<times> mem" where
  "ll_insert_after pos ptr lm =
     (case lm of (l, m) \<Rightarrow>
        let next = nxt m pos;
            m1 = set_next ptr next m;
            m2 = set_next pos ptr m1;
            m3 = (if next = tail l then set_next (tail l) ptr m2 else m2)
        in (l\<lparr>size_of := size_of l + 1\<rparr>, m3))"

text \<open>
  \<open>drain\<close> calls \<open>fn\<close> on every element, \<open>next\<close> read before the call, and re-initialises. The
  walk may leave a corrupted list, so it may not return.
\<close>

partial_function (option) ll_drain_loop ::
  "(nat \<Rightarrow> nat) \<Rightarrow> nat \<Rightarrow> (nat \<Rightarrow> 's \<Rightarrow> 's) \<Rightarrow> nat \<Rightarrow> 's \<Rightarrow> 's option" where
  "ll_drain_loop nx t fn i s =
     (if i = t then Some s else ll_drain_loop nx t fn (nx i) (fn i s))"

definition ll_drain ::
  "(nat \<Rightarrow> 's \<Rightarrow> 's) \<Rightarrow> 's \<Rightarrow> linked_list \<times> mem \<Rightarrow> ('s \<times> linked_list \<times> mem) option" where
  "ll_drain fn s lm =
     (case lm of (l, m) \<Rightarrow>
        map_option (\<lambda>s'. (s', ll_init (l, m)))
          (ll_drain_loop (nxt m) (tail l) fn (nxt m (head l)) s))"

text \<open>\<open>clear\<close> drains with the element deleter.\<close>

definition ll_clear :: "linked_list \<times> mem \<Rightarrow> (linked_list \<times> mem) option" where
  "ll_clear lm =
     map_option (\<lambda>(ptrs, l, m). (l, fold delete_node ptrs m))
       (ll_drain (\<lambda>p ps. ps @ [p]) [] lm)"

text \<open>
  Move construction of a list whose sentinels are at \<open>l\<close> (freshly initialised) from
  \<open>other\<close>; the source is left initialised.
\<close>

definition ll_move_init ::
  "linked_list \<Rightarrow> linked_list \<Rightarrow> mem \<Rightarrow> linked_list \<times> linked_list \<times> mem" where
  "ll_move_init l other m =
     (if \<not> ll_empty other then
        (let m1 = set_next (head l) (nxt m (head other)) m;
             m2 = set_next (tail l) (nxt m1 (tail other)) m1;
             m3 = set_next (nxt m2 (tail l)) (tail l) m2;
             (other', m4) = ll_init (other, m3)
         in (l\<lparr>size_of := size_of other\<rparr>, other', m4))
      else (l, other, m))"

definition ll_move_assign ::
  "linked_list \<Rightarrow> linked_list \<Rightarrow> mem \<Rightarrow> (linked_list \<times> linked_list \<times> mem) option" where
  "ll_move_assign l other m =
     map_option (\<lambda>(l', m'). ll_move_init l' other m') (ll_clear (l, m))"

section \<open>Representation\<close>

definition ll_rep :: "linked_list \<Rightarrow> (nat \<Rightarrow> nat) \<Rightarrow> nat list \<Rightarrow> bool" where
  "ll_rep l nx xs \<longleftrightarrow>
     seg nx (nx (head l)) xs (tail l) \<and> nx (tail l) = last (head l # xs) \<and>
     distinct (head l # tail l # xs) \<and> 0 \<notin> set xs \<and> size_of l = length xs"

definition ll_nodes :: "linked_list \<Rightarrow> nat list \<Rightarrow> nat set" where
  "ll_nodes l xs = insert (head l) (insert (tail l) (set xs))"

lemma ll_rep_frame [simp]:
  assumes "a \<notin> ll_nodes l xs"
  shows "ll_rep l (nx(a := b)) xs = ll_rep l nx xs"
  using assms by (simp add: ll_rep_def ll_nodes_def)

lemma ll_rep_cong:
  assumes "\<And>x. x \<in> ll_nodes l xs \<Longrightarrow> nx' x = nx x"
  shows "ll_rep l nx' xs = ll_rep l nx xs"
  using assms seg_cong [of xs nx' nx] by (simp add: ll_rep_def ll_nodes_def)

lemma ll_rep_size: "ll_rep l nx xs \<Longrightarrow> ll_size l = length xs"
  by (simp add: ll_rep_def ll_size_def)

lemma ll_rep_empty: "ll_rep l nx xs \<Longrightarrow> ll_empty l = (xs = [])"
  by (simp add: ll_rep_def ll_size_def ll_empty_def)

lemma ll_rep_before_end: "ll_rep l (nxt m) xs \<Longrightarrow> ll_before_end (l, m) = last (head l # xs)"
  by (simp add: ll_rep_def ll_before_end_def)

lemma ll_new_rep:
  assumes "h \<noteq> t" and "ll_new h t m = (l, m')"
  shows "ll_rep l (nxt m') []" and "head l = h" and "tail l = t"
  using assms by (auto simp: ll_new_def ll_rep_def)

lemma ll_init_rep:
  assumes "head l \<noteq> tail l" and "ll_init (l, m) = (l', m')"
  shows "ll_rep l' (nxt m') []" and "head l' = head l" and "tail l' = tail l"
  using assms by (auto simp: ll_init_def ll_rep_def)

text \<open>The chain from the head sentinel, itself a node of the segment.\<close>

lemma ll_rep_chain:
  "ll_rep l nx xs \<longleftrightarrow> seg nx (head l) (head l # xs) (tail l) \<and> nx (tail l) = last (head l # xs) \<and>
     distinct (head l # tail l # xs) \<and> 0 \<notin> set xs \<and> size_of l = length xs"
  by (simp add: ll_rep_def)

text \<open>
  Inserting after a position: behind \<open>xs\<close>, whose last node (the head sentinel when \<open>xs\<close> is
  empty) is \<open>pos\<close>.
\<close>

lemma seg_insert:
  assumes "seg nx h (us @ pos # ys) t" and "p \<notin> set (us @ pos # ys)" and "distinct (us @ pos # ys)"
  shows "seg (nx(p := nx pos, pos := p)) h (us @ pos # p # ys) t"
  using assms by (auto simp: seg_append)

lemma ll_insert_after_rep:
  assumes rep: "ll_rep l (nxt m) (xs @ ys)" and p: "p \<notin> ll_nodes l (xs @ ys)" "p \<noteq> 0"
    and pos: "pos = last (head l # xs)" and st: "ll_insert_after pos p (l, m) = (l', m')"
  shows "ll_rep l' (nxt m') (xs @ p # ys) \<and> head l' = head l \<and> tail l' = tail l \<and>
    (\<forall>x. x \<notin> insert p (ll_nodes l (xs @ ys)) \<longrightarrow> nxt m' x = nxt m x) \<and> freed m' = freed m"
proof -
  let ?h = "head l" and ?t = "tail l" and ?nx = "nxt m"
  define us where "us = butlast (?h # xs)"
  have chain: "?h # xs @ ys = us @ pos # ys"
    using pos append_butlast_last_id [of "?h # xs"] by (simp add: us_def)
  have d: "distinct (?t # us @ pos # ys)" "0 \<notin> set (xs @ ys)" "size_of l = length (xs @ ys)"
    and sg: "seg ?nx ?h (us @ pos # ys) ?t" and tl: "?nx ?t = last (us @ pos # ys)"
    using rep unfolding ll_rep_chain chain [symmetric] by auto
  have pn: "p \<notin> set (us @ pos # ys)" "p \<noteq> ?t"
    using p(1) unfolding ll_nodes_def chain [symmetric] by auto
  have nxpos: "?nx pos = hd (ys @ [?t])"
    using sg by (cases ys) (auto simp: seg_append)
  have iff: "?nx pos = ?t \<longleftrightarrow> ys = []" using nxpos d(1) by (cases ys) auto
  let ?nx' = "?nx(p := ?nx pos, pos := p)"
  have sg': "seg ?nx' ?h (us @ pos # p # ys) ?t"
    using seg_insert [OF sg pn(1)] d(1) by simp
  have nx': "nxt m' = (if ys = [] then ?nx'(?t := p) else ?nx')" and l': "l' = l\<lparr>size_of := size_of l + 1\<rparr>"
    and fr: "freed m' = freed m"
    using st iff by (auto simp: ll_insert_after_def Let_def)
  have chain': "?h # xs @ p # ys = us @ pos # p # ys"
    using chain pos append_butlast_last_id [of "?h # xs"] by (simp add: us_def)
  have "seg (nxt m') ?h (us @ pos # p # ys) ?t"
    using sg' d(1) pn nx' by (cases ys) (simp_all del: seg.simps fun_upd_apply)
  moreover have "nxt m' ?t = last (us @ pos # p # ys)"
    using tl nx' d(1) pn by auto
  moreover have "distinct (?h # ?t # xs @ p # ys)"
    using d(1) pn chain' rep p by (auto simp: ll_rep_def ll_nodes_def)
  ultimately have "ll_rep l' (nxt m') (xs @ p # ys)"
    unfolding ll_rep_chain chain' [symmetric] using l' d(2,3) p(2) by (simp del: seg.simps)
  moreover have "pos \<in> ll_nodes l (xs @ ys)"
    using pos by (auto simp: ll_nodes_def)
  ultimately show ?thesis using nx' l' fr by (auto simp: ll_nodes_def)
qed

text \<open>\<open>push_back\<close> is the insertion behind the last element.\<close>

lemma ll_push_back_insert:
  assumes rep: "ll_rep l (nxt m) xs" and p: "p \<notin> ll_nodes l xs"
  shows "ll_push_back p (l, m) = ll_insert_after (ll_before_end (l, m)) p (l, m)"
proof -
  have lst: "nxt m (tail l) = last (head l # xs)" and d: "distinct (head l # tail l # xs)"
    and sg: "seg (nxt m) (head l) (butlast (head l # xs) @ [last (head l # xs)]) (tail l)"
    using rep by (simp_all only: ll_rep_chain append_butlast_last_id list.distinct not_False_eq_True)
  have "last (head l # xs) \<in> insert (head l) (set xs)" by auto
  then have "nxt m (nxt m (tail l)) = tail l" "nxt m (tail l) \<noteq> tail l" "nxt m (tail l) \<noteq> p" "p \<noteq> tail l"
    using sg lst d p unfolding seg_snoc by (auto simp: ll_nodes_def simp del: last.simps)
  then show ?thesis
    by (simp add: ll_push_back_def ll_insert_after_def ll_before_end_def Let_def set_next_def
        fun_upd_twist)
qed

lemma ll_push_back_rep:
  assumes rep: "ll_rep l (nxt m) xs" and p: "p \<notin> ll_nodes l xs" "p \<noteq> 0"
    and st: "ll_push_back p (l, m) = (l', m')"
  shows "ll_rep l' (nxt m') (xs @ [p]) \<and> head l' = head l \<and> tail l' = tail l \<and>
    (\<forall>x. x \<notin> insert p (ll_nodes l xs) \<longrightarrow> nxt m' x = nxt m x) \<and> freed m' = freed m"
  using ll_insert_after_rep [of l m xs "[]" p _ l' m'] rep p st
  by (simp add: ll_push_back_insert ll_rep_before_end)

lemma ll_push_front_rep:
  assumes rep: "ll_rep l (nxt m) xs" and p: "p \<notin> ll_nodes l xs" "p \<noteq> 0"
    and st: "ll_push_front p (l, m) = (l', m')"
  shows "ll_rep l' (nxt m') (p # xs) \<and> head l' = head l \<and> tail l' = tail l \<and>
    (\<forall>x. x \<notin> insert p (ll_nodes l xs) \<longrightarrow> nxt m' x = nxt m x) \<and> freed m' = freed m"
proof (cases xs)
  case Nil
  then show ?thesis
    using ll_push_back_rep [OF rep p, of l' m'] st rep
    by (simp add: ll_push_front_def ll_rep_empty)
next
  case (Cons y ys)
  then have "nxt m (head l) = y" "y \<noteq> tail l" using rep by (auto simp: ll_rep_def)
  then have "ll_insert_after (head l) p (l, m) = (l', m')"
    using st rep Cons by (simp add: ll_push_front_def ll_rep_empty ll_insert_after_def Let_def)
  then show ?thesis
    using ll_insert_after_rep [of l m "[]" xs p "head l" l' m'] rep p by simp
qed

lemma ll_pop_front_rep:
  assumes rep: "ll_rep l (nxt m) xs" and st: "ll_pop_front (l, m) = (p, l', m')"
  shows "(case xs of [] \<Rightarrow> p = 0 \<and> l' = l \<and> m' = m | y # ys \<Rightarrow> p = y \<and> ll_rep l' (nxt m') ys) \<and>
    head l' = head l \<and> tail l' = tail l \<and>
    (\<forall>x. x \<notin> {head l, tail l} \<longrightarrow> nxt m' x = nxt m x) \<and> freed m' = freed m"
proof (cases xs)
  case Nil
  then show ?thesis using rep st by (simp add: ll_pop_front_def ll_rep_empty)
next
  case (Cons y ys)
  have hd: "nxt m (head l) = y" using rep Cons by (simp add: ll_rep_def)
  have ne: "\<not> ll_empty l" and sz: "size_of l = Suc (length ys)"
    using rep Cons by (simp_all add: ll_rep_empty) (simp add: ll_rep_def)
  have l': "p = y" "l' = l\<lparr>size_of := length ys\<rparr>"
    "m' = (let m1 = set_next (head l) (nxt m y) m
           in if ys = [] then set_next (tail l) (head l) m1 else m1)"
    using st hd ne sz by (auto simp: ll_pop_front_def Let_def)
  show ?thesis
    using rep Cons unfolding l' by (auto simp: ll_rep_def Let_def)
qed

lemma ll_pop_front_empty: "ll_rep l (nxt m) [] \<Longrightarrow> ll_pop_front (l, m) = (0, l, m)"
  by (simp add: ll_pop_front_def ll_rep_empty [of l "nxt m" "[]"])

lemma ll_drain_loop_seg:
  assumes "seg nx p xs t" and "t \<notin> set xs"
  shows "ll_drain_loop nx t f p s = Some (fold f xs s)"
  using assms
proof (induction xs arbitrary: p s)
  case Nil
  then show ?case by (simp add: ll_drain_loop.simps)
next
  case (Cons x xs)
  then show ?case by (subst ll_drain_loop.simps) auto
qed

text \<open>A drain visits every element once, in order, and leaves an empty list: it terminates.\<close>

lemma ll_drain_rep:
  assumes "ll_rep l (nxt m) xs"
  shows "ll_drain f s (l, m) = Some (fold f xs s, ll_init (l, m))"
  using assms by (simp add: ll_drain_def ll_rep_def ll_drain_loop_seg)

lemma ll_clear_rep:
  assumes "ll_rep l (nxt m) xs"
  shows "\<exists>l' m'. ll_clear (l, m) = Some (l', m') \<and> ll_rep l' (nxt m') [] \<and> head l' = head l \<and>
    tail l' = tail l \<and> freed m' = freed m @ xs \<and>
    (\<forall>x. x \<notin> {head l, tail l} \<longrightarrow> nxt m' x = nxt m x)"
proof -
  have "fold (\<lambda>p ps. ps @ [p]) xs ys = ys @ xs" for ys :: "nat list"
    by (induction xs arbitrary: ys) simp_all
  moreover have "freed (fold delete_node xs n) = freed n @ xs" "nxt (fold delete_node xs n) = nxt n" for n
    by (induction xs arbitrary: n) simp_all
  ultimately show ?thesis
    using assms by (auto simp: ll_clear_def ll_drain_rep ll_init_def ll_rep_def)
qed

text \<open>Moving the elements to another pair of sentinels leaves the source empty and usable.\<close>

lemma ll_move_init_rep:
  assumes l: "ll_rep l (nxt m) []" and other: "ll_rep other (nxt m) xs"
    and disj: "ll_nodes l [] \<inter> ll_nodes other xs = {}"
    and st: "ll_move_init l other m = (l', other', m')"
  shows "ll_rep l' (nxt m') xs \<and> ll_rep other' (nxt m') [] \<and> freed m' = freed m"
proof (cases xs rule: rev_cases)
  case Nil
  with l other st show ?thesis by (simp add: ll_move_init_def ll_rep_empty)
next
  case (snoc zs z)
  let ?h = "head l" and ?t = "tail l" and ?oh = "head other" and ?ot = "tail other"
  have last: "nxt m ?ot = z" and sg: "seg (nxt m) (nxt m ?oh) zs z" and 0: "0 \<notin> set xs"
    and sz: "size_of other = length xs"
    using other snoc by (simp_all add: ll_rep_def seg_snoc)
  have "distinct [?h, ?t]" "distinct (?oh # ?ot # zs @ [z])" using l other snoc by (simp_all add: ll_rep_def)
  with disj have d: "distinct (?h # ?t # ?oh # ?ot # zs @ [z])"
    unfolding snoc ll_nodes_def by auto
  have ne: "\<not> ll_empty other" using other snoc by (simp add: ll_rep_empty)
  have ot: "?ot \<noteq> ?h" using d by auto
  have nx': "nxt m' = (nxt m)(?h := nxt m ?oh, ?t := z, z := ?t, ?oh := ?ot, ?ot := ?oh)"
    and l': "l' = l\<lparr>size_of := length xs\<rparr>" "other' = other\<lparr>size_of := 0\<rparr>" and fr: "freed m' = freed m"
    using st ne ot last sz by (auto simp: ll_move_init_def Let_def ll_init_def)
  have "seg (nxt m') (nxt m ?oh) (zs @ [z]) ?t"
    unfolding nx' seg_snoc using sg d by auto
  then show ?thesis
    using d 0 l' fr snoc by (auto simp: ll_rep_def nx')
qed

section \<open>The queue interface\<close>

text \<open>What the clients of the list rely on: a first-in first-out queue of nodes.\<close>

locale fifo_queue =
  fixes push :: "'p \<Rightarrow> 'q \<Rightarrow> 'q"
    and pop :: "'q \<Rightarrow> 'p \<times> 'q"
    and is_empty :: "'q \<Rightarrow> bool"
    and rep :: "'q \<Rightarrow> 'p list \<Rightarrow> bool"
    and usable :: "'q \<Rightarrow> 'p \<Rightarrow> bool"
  assumes push_rep: "rep q xs \<Longrightarrow> usable q x \<Longrightarrow> x \<notin> set xs \<Longrightarrow>
      rep (push x q) (xs @ [x]) \<and> usable (push x q) = usable q"
    and pop_rep: "rep q (x # xs) \<Longrightarrow>
      fst (pop q) = x \<and> rep (snd (pop q)) xs \<and> usable (snd (pop q)) = usable q"
    and empty_iff: "rep q xs \<Longrightarrow> is_empty q \<longleftrightarrow> xs = []"
    and rep_usable: "rep q xs \<Longrightarrow> x \<in> set xs \<Longrightarrow> usable q x"
begin

lemma pushes_rep:
  assumes "rep q xs" and "distinct (xs @ ys)" and "\<forall>y \<in> set ys. usable q y"
  shows "rep (fold push ys q) (xs @ ys) \<and> usable (fold push ys q) = usable q"
  using assms
proof (induction ys arbitrary: q xs)
  case (Cons y ys)
  from push_rep [of q xs y] Cons.prems have "rep (push y q) (xs @ [y])" "usable (push y q) = usable q"
    by auto
  with Cons.IH [of "push y q" "xs @ [y]"] Cons.prems show ?case by auto
qed simp

text \<open>What is pushed into an empty queue comes out first in the order of the pushes.\<close>

lemma first_in_first_out:
  assumes "rep q []" and "distinct (x # ys)" and "\<forall>y \<in> set (x # ys). usable q y"
  shows "fst (pop (fold push (x # ys) q)) = x \<and> rep (snd (pop (fold push (x # ys) q))) ys"
  using pushes_rep [OF assms(1), of "x # ys"] assms(2,3) pop_rep [of "fold push (x # ys) q" x ys]
  by simp

lemma pop_usable: "rep q xs \<Longrightarrow> \<not> is_empty q \<Longrightarrow> usable q (fst (pop q))"
  using pop_rep empty_iff rep_usable by (cases xs) auto

end

definition lq_rep :: "linked_list \<times> mem \<Rightarrow> nat list \<Rightarrow> bool" where
  "lq_rep lm xs \<longleftrightarrow> ll_rep (fst lm) (nxt (snd lm)) xs"

definition lq_usable :: "linked_list \<times> mem \<Rightarrow> nat \<Rightarrow> bool" where
  "lq_usable lm x \<longleftrightarrow> x \<noteq> 0 \<and> x \<noteq> head (fst lm) \<and> x \<noteq> tail (fst lm)"

interpretation lq: fifo_queue ll_push_back ll_pop_front "\<lambda>lm. ll_empty (fst lm)" lq_rep lq_usable
proof (unfold_locales, goal_cases)
  case (1 q xs x)
  obtain l m l' m' where [simp]: "q = (l, m)" "ll_push_back x (l, m) = (l', m')"
    by (metis surj_pair)
  have "x \<notin> ll_nodes l xs" "x \<noteq> 0"
    using 1 by (auto simp: ll_nodes_def lq_usable_def)
  then show ?case
    using ll_push_back_rep [of l m xs x l' m'] 1(1) by (simp add: lq_rep_def lq_usable_def fun_eq_iff)
next
  case (2 q x xs)
  obtain l m p l' m' where [simp]: "q = (l, m)" "ll_pop_front (l, m) = (p, l', m')"
    by (metis surj_pair)
  show ?case
    using ll_pop_front_rep [of l m "x # xs" p l' m'] 2 by (simp add: lq_rep_def lq_usable_def fun_eq_iff)
next
  case (3 q xs)
  then show ?case using ll_rep_empty by (simp add: lq_rep_def)
next
  case (4 q xs x)
  then have "0 \<notin> set xs" "head (fst q) \<notin> set xs" "tail (fst q) \<notin> set xs"
    by (simp_all add: lq_rep_def ll_rep_def)
  with 4(2) show ?case unfolding lq_usable_def by metis
qed

section \<open>Properties\<close>

text \<open>
  The list \<open>after\<close> represents \<open>ys\<close> between the same sentinels, only nodes of \<open>at\<close> have had their links
  written, and nothing has been freed.
\<close>

definition ll_changed :: "nat set \<Rightarrow> linked_list \<times> mem \<Rightarrow> linked_list \<times> mem \<Rightarrow> nat list \<Rightarrow> bool" where
  "ll_changed at before after ys \<longleftrightarrow> ll_rep (fst after) (nxt (snd after)) ys \<and>
     head (fst after) = head (fst before) \<and> tail (fst after) = tail (fst before) \<and>
     (\<forall>x. x \<notin> at \<longrightarrow> nxt (snd after) x = nxt (snd before) x) \<and> freed (snd after) = freed (snd before)"

text \<open>C21: The list is a queue: appending, inserting in front or after any position, and popping do to the
  chain of pointers what they do to a list, popping an empty list answers null and changes nothing; nodes
  outside the list keep their links, popping writes none but the sentinels', and nothing is freed.\<close>

theorem linked_list_queue:
  assumes "ll_rep l (nxt m) xs"
  shows "fst (ll_pop_front (l, m)) = (if xs = [] then 0 else hd xs) \<and>
    ll_changed {head l, tail l} (l, m) (snd (ll_pop_front (l, m))) (tl xs) \<and>
    (xs = [] \<longrightarrow> snd (ll_pop_front (l, m)) = (l, m)) \<and>
    (\<forall>p. p \<notin> ll_nodes l xs \<and> p \<noteq> 0 \<longrightarrow>
      ll_changed (insert p (ll_nodes l xs)) (l, m) (ll_push_back p (l, m)) (xs @ [p]) \<and>
      ll_changed (insert p (ll_nodes l xs)) (l, m) (ll_push_front p (l, m)) (p # xs) \<and>
      (\<forall>k \<le> length xs. ll_changed (insert p (ll_nodes l xs)) (l, m)
         (ll_insert_after (last (head l # take k xs)) p (l, m)) (take k xs @ p # drop k xs)))"
proof (intro conjI allI impI)
  obtain p l' m' where o: "ll_pop_front (l, m) = (p, l', m')" by (metis prod_cases3)
  note P = ll_pop_front_rep [OF assms o]
  show "fst (ll_pop_front (l, m)) = (if xs = [] then 0 else hd xs)" using P by (cases xs) (simp_all add: o)
  show "ll_changed {head l, tail l} (l, m) (snd (ll_pop_front (l, m))) (tl xs)"
    using P assms by (cases xs) (simp_all add: o ll_changed_def)
  show "snd (ll_pop_front (l, m)) = (l, m)" if "xs = []" using P that by (simp add: o)
next
  fix p assume p: "p \<notin> ll_nodes l xs \<and> p \<noteq> 0"
  obtain l' m' where o: "ll_push_back p (l, m) = (l', m')" by fastforce
  show "ll_changed (insert p (ll_nodes l xs)) (l, m) (ll_push_back p (l, m)) (xs @ [p])"
    using ll_push_back_rep [OF assms _ _ o] p by (simp add: o ll_changed_def)
  obtain l2 m2 where f: "ll_push_front p (l, m) = (l2, m2)" by fastforce
  show "ll_changed (insert p (ll_nodes l xs)) (l, m) (ll_push_front p (l, m)) (p # xs)"
    using ll_push_front_rep [OF assms _ _ f] p by (simp add: f ll_changed_def)
  fix k
  obtain l3 m3 where i: "ll_insert_after (last (head l # take k xs)) p (l, m) = (l3, m3)" by fastforce
  show "ll_changed (insert p (ll_nodes l xs)) (l, m)
      (ll_insert_after (last (head l # take k xs)) p (l, m)) (take k xs @ p # drop k xs)"
    using ll_insert_after_rep [of l m "take k xs" "drop k xs" p _ l3 m3, OF _ _ _ refl i] assms p
    unfolding i ll_changed_def by simp
qed

theorem linked_list_queue_witness:
  "ll_changed {9, 1, 2, 7, 8} (\<lparr>head = 1, tail = 2, size_of = 2\<rparr>, \<lparr>nxt = (\<lambda>_. 0)(1 := 7, 7 := 8, 8 := 2, 2 := 8), freed = []\<rparr>)
     (ll_insert_after 7 9 (\<lparr>head = 1, tail = 2, size_of = 2\<rparr>, \<lparr>nxt = (\<lambda>_. 0)(1 := 7, 7 := 8, 8 := 2, 2 := 8), freed = []\<rparr>))
     [7, 9, 8] \<and>
   fst (ll_pop_front (\<lparr>head = 1, tail = 2, size_of = 2\<rparr>, \<lparr>nxt = (\<lambda>_. 0)(1 := 7, 7 := 8, 8 := 2, 2 := 8), freed = []\<rparr>)) = 7"
proof -
  let ?l = "\<lparr>head = 1, tail = 2, size_of = 2\<rparr>"
  let ?m = "\<lparr>nxt = (\<lambda>_. 0)(1 := 7, 7 := 8, 8 := 2, 2 := 8), freed = []\<rparr> :: mem"
  have "ll_rep ?l (nxt ?m) [7, 8]" by (simp add: ll_rep_def)
  note Q = linked_list_queue [OF this]
  have n: "ll_nodes ?l [7, 8] = {1, 2, 7, 8}" by (simp add: ll_nodes_def)
  have "9 \<notin> ll_nodes ?l [7, 8] \<and> (9 :: nat) \<noteq> 0" "(1 :: nat) \<le> length [7, 8 :: nat]" unfolding n by simp_all
  note I = conjunct2 [OF conjunct2 [OF mp [OF spec [OF conjunct2 [OF conjunct2 [OF conjunct2 [OF Q]]]] this(1)]]]
  have "ll_changed (insert 9 (ll_nodes ?l [7, 8])) (?l, ?m)
      (ll_insert_after (last (head ?l # take 1 [7, 8])) 9 (?l, ?m)) (take 1 [7, 8] @ 9 # drop 1 [7, 8])"
    by (rule mp [OF spec [OF I]]) simp
  then have "ll_changed {9, 1, 2, 7, 8} (?l, ?m) (ll_insert_after 7 9 (?l, ?m)) [7, 9, 8]"
    unfolding n by simp
  with conjunct1 [OF Q] show ?thesis by simp
qed

text \<open>\<open>clear\<close> terminates, frees every element once, front to back, and leaves an empty usable
  list; moving from a list hands its elements over and leaves the source empty and usable.\<close>

theorem linked_list_move_assign:
  assumes "ll_rep l (nxt m) xs" and "ll_rep other (nxt m) ys" and "ll_nodes l xs \<inter> ll_nodes other ys = {}"
  shows "\<exists>l' other' m'. ll_move_assign l other m = Some (l', other', m') \<and> ll_rep l' (nxt m') ys \<and>
    ll_rep other' (nxt m') [] \<and> freed m' = freed m @ xs"
proof -
  obtain c n where c: "ll_clear (l, m) = Some (c, n)" "ll_rep c (nxt n) []" "head c = head l"
    "tail c = tail l" "freed n = freed m @ xs" "\<forall>x. x \<notin> {head l, tail l} \<longrightarrow> nxt n x = nxt m x"
    using ll_clear_rep [OF assms(1)] by blast
  have "ll_rep other (nxt n) ys = ll_rep other (nxt m) ys"
    using assms(3) by (intro ll_rep_cong c(6) [rule_format]) (auto simp: ll_nodes_def)
  then have o: "ll_rep other (nxt n) ys" using assms(2) by simp
  obtain l' other' m' where mv: "ll_move_init c other n = (l', other', m')" by (metis prod_cases3)
  have "ll_nodes c [] \<inter> ll_nodes other ys = {}" using assms(3) c(3,4) by (auto simp: ll_nodes_def)
  from ll_move_init_rep [OF c(2) o this mv] c(1,5) mv show ?thesis by (simp add: ll_move_assign_def)
qed

theorem linked_list_move_assign_witness:
  "\<exists>l' other' m'. ll_move_assign \<lparr>head = 1, tail = 2, size_of = 1\<rparr> \<lparr>head = 3, tail = 4, size_of = 2\<rparr>
     \<lparr>nxt = (\<lambda>_. 0)(1 := 7, 7 := 2, 2 := 7, 3 := 8, 8 := 9, 9 := 4, 4 := 9), freed = []\<rparr> = Some (l', other', m') \<and>
     ll_rep l' (nxt m') [8, 9] \<and> freed m' = [7]"
  using linked_list_move_assign [of "\<lparr>head = 1, tail = 2, size_of = 1\<rparr>"
      "\<lparr>nxt = (\<lambda>_. 0)(1 := 7, 7 := 2, 2 := 7, 3 := 8, 8 := 9, 9 := 4, 4 := 9), freed = []\<rparr>" "[7]"
      "\<lparr>head = 3, tail = 4, size_of = 2\<rparr>" "[8, 9]"]
  by (auto simp: ll_rep_def ll_nodes_def)

end
