(* ===== verification/Message_Id.thy ===== *)
theory Message_Id
  imports Prelude
begin

text \<open>
  Message identifiers and priorities (\<open>mailbox/id.hpp\<close>, \<open>mailbox/priority.hpp\<close>, and the
  name conversions of \<open>mailbox/make_message.hpp\<close>): a 64-bit word whose bits 60 and 61 carry
  the priority class the mailbox sorts by.
\<close>

section \<open>Model\<close>

type_synonym message_id = "64 word"

datatype priority = High | Normal

definition high_message_priority :: "64 word" where
  "high_message_priority = 0"

definition normal_message_priority :: "64 word" where
  "normal_message_priority = 1"

fun make_message_id :: "priority \<Rightarrow> 64 word \<Rightarrow> message_id" where
  "make_message_id Normal v = v OR push_bit 60 normal_message_priority"
| "make_message_id High v = v"

definition message_priority :: "message_id \<Rightarrow> 64 word" where
  "message_priority i = drop_bit 60 i AND 3"

text \<open>\<open>message::is_high_priority\<close>, on the message's command.\<close>

definition is_high_priority :: "message_id \<Rightarrow> bool" where
  "is_high_priority i \<longleftrightarrow> message_priority i = high_message_priority"

text \<open>
  What a caller may name a message by: a \<open>message_id\<close> (which is \<open>uint64_t\<close> itself) is taken as
  it is, an enumerator or another integral value is cast to \<open>uint64_t\<close> and stamped normal.
\<close>

datatype message_name = Id_name message_id | Integral_name int

fun to_message_id :: "message_name \<Rightarrow> message_id" where
  "to_message_id (Id_name i) = i"
| "to_message_id (Integral_name k) = make_message_id Normal (word_of_int k)"

section \<open>Lemmas\<close>

lemma bit_make_normal:
  "bit (make_message_id Normal v) n \<longleftrightarrow> bit v n \<or> n = 60"
proof -
  have "bit (push_bit 60 (1 :: 64 word)) n \<longleftrightarrow> n = 60"
    unfolding bit_push_bit_iff bit_1_iff by (auto dest: possible_bit_less_imp)
  then show ?thesis
    unfolding make_message_id.simps normal_message_priority_def bit_or_iff by simp
qed

lemma is_high_priority_iff: "is_high_priority i \<longleftrightarrow> \<not> bit i 60 \<and> \<not> bit i 61"
proof -
  have "drop_bit 60 i AND 3 = 0 \<longleftrightarrow> \<not> bit (drop_bit 60 i) 0 \<and> \<not> bit (drop_bit 60 i) 1"
  proof
    assume a: "drop_bit 60 i AND 3 = 0"
    have "\<not> bit (drop_bit 60 i AND 3) 0" "\<not> bit (drop_bit 60 i AND 3) 1"
      unfolding a by simp_all
    then show "\<not> bit (drop_bit 60 i) 0 \<and> \<not> bit (drop_bit 60 i) 1"
      by (simp add: bit_and_iff bit_numeral_rec)
  next
    assume b: "\<not> bit (drop_bit 60 i) 0 \<and> \<not> bit (drop_bit 60 i) 1"
    show "drop_bit 60 i AND 3 = 0"
    proof (rule bit_eqI)
      fix n
      assume "possible_bit TYPE(64 word) n"
      show "bit (drop_bit 60 i AND 3) n = bit 0 n"
      proof (cases "n = 0 \<or> n = 1")
        case True
        with b show ?thesis by (auto simp: bit_and_iff)
      next
        case False
        then obtain m where "n = Suc (Suc m)" by (metis One_nat_def nat.exhaust)
        then show ?thesis by (simp add: bit_and_iff bit_numeral_rec bit_Suc_0_iff)
      qed
    qed
  qed
  then show ?thesis
    by (simp add: is_high_priority_def message_priority_def high_message_priority_def
        bit_drop_bit_eq)
qed

lemma bit_above_bound:
  assumes "unat (v :: 64 word) < 2 ^ 60" and "60 \<le> n"
  shows "\<not> bit v n"
proof -
  have "unat v < 2 ^ n"
    using assms by (meson less_le_trans one_le_numeral power_increasing)
  then have "\<not> bit (unat v) n"
    by (simp add: bit_iff_odd)
  then show ?thesis by (simp add: bit_unsigned_iff)
qed

lemma take_bit_make:
  assumes "unat v < 2 ^ 60"
  shows "take_bit 60 (make_message_id p v) = v"
proof (rule bit_eqI)
  fix n
  show "bit (take_bit 60 (make_message_id p v)) n = bit v n"
    using bit_above_bound [OF assms] 
    by (cases p; cases "n < 60") (auto simp: bit_take_bit_iff bit_make_normal simp del: make_message_id.simps(1))
qed

section \<open>Properties\<close>

text \<open>A message name survives the encoding: the low 60 bits of the id are the name, and the id is
  high priority exactly when it was made so.\<close>

theorem message_id_roundtrip:
  assumes "unat v < 2 ^ 60"
  shows "take_bit 60 (make_message_id p v) = v \<and> (is_high_priority (make_message_id p v) \<longleftrightarrow> p = High)"
proof -
  have "is_high_priority (make_message_id p v) \<longleftrightarrow> p = High"
    using bit_above_bound [OF assms, of 60] bit_above_bound [OF assms, of 61]
    by (cases p) (simp_all add: is_high_priority_iff bit_make_normal del: make_message_id.simps(1))
  with take_bit_make [OF assms] show ?thesis by blast
qed

theorem message_id_roundtrip_witness:
  "take_bit 60 (make_message_id Normal 12345) = 12345"
  using message_id_roundtrip [of 12345 Normal] by simp

text \<open>An integer or enumerator used as a message name is always a normal-priority message, a raw
  64-bit id is taken as it is, so a small one is high priority.\<close>

theorem name_priority:
  "\<not> is_high_priority (to_message_id (Integral_name k)) \<and>
   (is_high_priority (to_message_id (Id_name i)) \<longleftrightarrow> \<not> bit i 60 \<and> \<not> bit i 61)"
  by (simp add: is_high_priority_iff bit_make_normal del: make_message_id.simps(1))

end
