(* ===== verification/Default_Mailbox.thy ===== *)
theory Default_Mailbox
  imports Linked_List Message_Id
begin

text \<open>
  The mailbox of an actor, \<open>impl/mailbox/default_mailbox.ipp\<close>: an urgent and a normal
  \<open>linked_list\<close> that only the reader touches, and the inbox every sender pushes to, all three
  over one memory. \<open>cmd\<close> gives the command id each message node carries.
\<close>

section \<open>Model\<close>

record default_mailbox_impl =
  urgent_queue :: linked_list
  normal_queue :: linked_list
  inbox :: lifo_inbox

type_synonym mb_state = "default_mailbox_impl \<times> mem"

text \<open>The default constructor, the members' addresses given.\<close>

definition mb_new :: "nat \<Rightarrow> nat \<Rightarrow> nat \<Rightarrow> nat \<Rightarrow> nat \<Rightarrow> mem \<Rightarrow> mb_state" where
  "mb_new uh ut nh nt ib m =
     (case ll_new uh ut m of (u, m1) \<Rightarrow>
        (case ll_new nh nt m1 of (n, m2) \<Rightarrow>
           (\<lparr>urgent_queue = u, normal_queue = n, inbox = new_inbox ib\<rparr>, m2)))"

definition mb_push_back_impl :: "nat \<Rightarrow> mb_state \<Rightarrow> enqueue_result \<times> mb_state" where
  "mb_push_back_impl ptr bm =
     (case bm of (b, m) \<Rightarrow>
        (case push_front ptr (inbox b, m) of (r, q, m') \<Rightarrow> (r, b\<lparr>inbox := q\<rparr>, m')))"

definition mb_push_front_impl :: "(nat \<Rightarrow> message_id) \<Rightarrow> nat \<Rightarrow> mb_state \<Rightarrow> mb_state" where
  "mb_push_front_impl cmd ptr bm =
     (case bm of (b, m) \<Rightarrow>
        if is_high_priority (cmd ptr)
        then (case ll_push_front ptr (urgent_queue b, m) of (l, m') \<Rightarrow> (b\<lparr>urgent_queue := l\<rparr>, m'))
        else (case ll_push_front ptr (normal_queue b, m) of (l, m') \<Rightarrow> (b\<lparr>normal_queue := l\<rparr>, m')))"

definition mb_closed_impl :: "default_mailbox_impl \<Rightarrow> bool" where
  "mb_closed_impl b = inbox_closed (inbox b)"

definition mb_blocked_impl :: "default_mailbox_impl \<Rightarrow> bool" where
  "mb_blocked_impl b = inbox_blocked (inbox b)"

definition mb_cached :: "default_mailbox_impl \<Rightarrow> nat" where
  "mb_cached b = ll_size (urgent_queue b) + ll_size (normal_queue b)"

definition mb_try_block_impl :: "default_mailbox_impl \<Rightarrow> bool \<times> default_mailbox_impl" where
  "mb_try_block_impl b =
     (if mb_cached b = 0
      then (case inbox_try_block (inbox b) of (r, q) \<Rightarrow> (r, b\<lparr>inbox := q\<rparr>))
      else (False, b))"

definition mb_try_unblock_impl :: "default_mailbox_impl \<Rightarrow> bool \<times> default_mailbox_impl" where
  "mb_try_unblock_impl b = (case inbox_try_unblock (inbox b) of (r, q) \<Rightarrow> (r, b\<lparr>inbox := q\<rparr>))"

text \<open>
  \<open>fetch_more\<close>: the insertion points are captured once, before the loop, so each message goes
  in front of the ones taken before it from the (newest first) stack.
\<close>

definition mb_insert ::
  "(nat \<Rightarrow> message_id) \<Rightarrow> nat \<Rightarrow> nat \<Rightarrow> nat \<Rightarrow> mb_state \<Rightarrow> mb_state" where
  "mb_insert cmd upos npos phead bm =
     (case bm of (b, m) \<Rightarrow>
        if is_high_priority (cmd phead)
        then (case ll_insert_after upos phead (urgent_queue b, m) of
                (l, m') \<Rightarrow> (b\<lparr>urgent_queue := l\<rparr>, m'))
        else (case ll_insert_after npos phead (normal_queue b, m) of
                (l, m') \<Rightarrow> (b\<lparr>normal_queue := l\<rparr>, m')))"

partial_function (option) mb_fetch_loop ::
  "(nat \<Rightarrow> message_id) \<Rightarrow> nat \<Rightarrow> nat \<Rightarrow> nat \<Rightarrow> mb_state \<Rightarrow> mb_state option" where
  "mb_fetch_loop cmd upos npos node bm =
     (let next = nxt (snd bm) node; bm' = mb_insert cmd upos npos node bm
      in if next \<noteq> 0 then mb_fetch_loop cmd upos npos next bm' else Some bm')"

definition mb_fetch_more :: "(nat \<Rightarrow> message_id) \<Rightarrow> mb_state \<Rightarrow> (bool \<times> mb_state) option" where
  "mb_fetch_more cmd bm =
     (case bm of (b, m) \<Rightarrow>
        (case take_head stack_empty_tag (inbox b) of (h, q) \<Rightarrow>
           if h = 0 then Some (False, b\<lparr>inbox := q\<rparr>, m)
           else map_option (Pair True)
                  (mb_fetch_loop cmd (ll_before_end (urgent_queue b, m))
                     (ll_before_end (normal_queue b, m)) h (b\<lparr>inbox := q\<rparr>, m))))"

text \<open>The null pointer 0 is the empty \<open>message_ptr\<close>.\<close>

partial_function (option) mb_pop_front_impl ::
  "(nat \<Rightarrow> message_id) \<Rightarrow> default_mailbox_impl \<Rightarrow> mem \<Rightarrow> (nat \<times> mb_state) option" where
  "mb_pop_front_impl cmd b m =
     (case ll_pop_front (urgent_queue b, m) of (p, u, m1) \<Rightarrow>
        if p \<noteq> 0 then Some (p, b\<lparr>urgent_queue := u\<rparr>, m1)
        else
          (case ll_pop_front (normal_queue b, m1) of (p', n, m2) \<Rightarrow>
             if p' \<noteq> 0 then Some (p', b\<lparr>urgent_queue := u, normal_queue := n\<rparr>, m2)
             else
               Option.bind (mb_fetch_more cmd (b\<lparr>urgent_queue := u, normal_queue := n\<rparr>, m2))
                 (\<lambda>(got, bm). if got then mb_pop_front_impl cmd (fst bm) (snd bm)
                               else Some (0, bm))))"

definition mb_size_impl :: "(nat \<Rightarrow> message_id) \<Rightarrow> mb_state \<Rightarrow> (nat \<times> mb_state) option" where
  "mb_size_impl cmd bm =
     map_option (\<lambda>(_, bm'). (mb_cached (fst bm'), bm')) (mb_fetch_more cmd bm)"

definition mb_empty :: "(nat \<Rightarrow> message_id) \<Rightarrow> mb_state \<Rightarrow> (bool \<times> mb_state) option" where
  "mb_empty cmd bm = map_option (\<lambda>(n, bm'). (n = 0, bm')) (mb_size_impl cmd bm)"

text \<open>\<open>close_impl\<close>: the deleter runs on every message; the deletions are collected and applied.\<close>

definition bounce_and_count :: "nat \<Rightarrow> nat list \<times> nat \<Rightarrow> nat list \<times> nat" where
  "bounce_and_count ptr s = (case s of (deleted, result) \<Rightarrow> (deleted @ [ptr], result + 1))"

definition mb_close_impl :: "mb_state \<Rightarrow> (nat \<times> mb_state) option" where
  "mb_close_impl bm =
     (case bm of (b, m) \<Rightarrow>
        Option.bind (ll_drain bounce_and_count ([], 0) (urgent_queue b, m)) (\<lambda>(s1, u, m1).
        Option.bind (ll_drain bounce_and_count s1 (normal_queue b, m1)) (\<lambda>(s2, n, m2).
        Option.bind (inbox_close bounce_and_count (inbox b) (nxt m2) s2) (\<lambda>((deleted, result), q).
        Some (result, \<lparr>urgent_queue = u, normal_queue = n, inbox = q\<rparr>,
              fold delete_node deleted m2)))))"

definition mb_destroy :: "mb_state \<Rightarrow> mb_state option" where
  "mb_destroy bm =
     (if \<not> mb_closed_impl (fst bm) then map_option snd (mb_close_impl bm) else Some bm)"

section \<open>The abstract mailbox\<close>

record 'a mailbox =
  urgent :: "'a list"
  normal :: "'a list"
  arrivals :: "'a inbox"

definition mb_elems :: "'a mailbox \<Rightarrow> 'a list" where
  "mb_elems a = urgent a @ normal a @ ib_elems (arrivals a)"

definition am_new :: "'a mailbox" where
  "am_new = \<lparr>urgent = [], normal = [], arrivals = Open []\<rparr>"

definition am_push :: "'a \<Rightarrow> 'a mailbox \<Rightarrow> enqueue_result \<times> 'a mailbox" where
  "am_push x a = (case ib_push x (arrivals a) of (r, ib) \<Rightarrow> (r, a\<lparr>arrivals := ib\<rparr>))"

definition am_push_front :: "('a \<Rightarrow> bool) \<Rightarrow> 'a \<Rightarrow> 'a mailbox \<Rightarrow> 'a mailbox" where
  "am_push_front hp x a =
     (if hp x then a\<lparr>urgent := x # urgent a\<rparr> else a\<lparr>normal := x # normal a\<rparr>)"

definition am_closed :: "'a mailbox \<Rightarrow> bool" where
  "am_closed a \<longleftrightarrow> arrivals a = Closed"

definition am_blocked :: "'a mailbox \<Rightarrow> bool" where
  "am_blocked a \<longleftrightarrow> arrivals a = Blocked"

definition am_try_block :: "'a mailbox \<Rightarrow> bool \<times> 'a mailbox" where
  "am_try_block a =
     (if urgent a = [] \<and> normal a = []
      then (case ib_try_block (arrivals a) of (r, ib) \<Rightarrow> (r, a\<lparr>arrivals := ib\<rparr>))
      else (False, a))"

definition am_try_unblock :: "'a mailbox \<Rightarrow> bool \<times> 'a mailbox" where
  "am_try_unblock a = (case ib_try_unblock (arrivals a) of (r, ib) \<Rightarrow> (r, a\<lparr>arrivals := ib\<rparr>))"

text \<open>Arrival order is restored within each priority.\<close>

definition am_fetch :: "('a \<Rightarrow> bool) \<Rightarrow> 'a mailbox \<Rightarrow> (bool \<times> 'a mailbox) outcome" where
  "am_fetch hp a =
     (case ib_take (arrivals a) of
        Inl e \<Rightarrow> Inl e
      | Inr (xs, ib) \<Rightarrow>
          Inr (xs \<noteq> [], \<lparr>urgent = urgent a @ rev (filter hp xs),
                          normal = normal a @ rev (filter (\<lambda>x. \<not> hp x) xs), arrivals = ib\<rparr>))"

definition am_take :: "'a mailbox \<Rightarrow> 'a option \<times> 'a mailbox" where
  "am_take a =
     (case urgent a of
        x # xs \<Rightarrow> (Some x, a\<lparr>urgent := xs\<rparr>)
      | [] \<Rightarrow> (case normal a of x # xs \<Rightarrow> (Some x, a\<lparr>normal := xs\<rparr>) | [] \<Rightarrow> (None, a)))"

definition am_pop :: "('a \<Rightarrow> bool) \<Rightarrow> 'a mailbox \<Rightarrow> ('a option \<times> 'a mailbox) outcome" where
  "am_pop hp a =
     (if urgent a = [] \<and> normal a = [] then map_sum id (am_take o snd) (am_fetch hp a)
      else Inr (am_take a))"

definition am_close :: "'a mailbox \<Rightarrow> nat \<times> 'a mailbox" where
  "am_close a = (length (mb_elems a), \<lparr>urgent = [], normal = [], arrivals = Closed\<rparr>)"

section \<open>Representation\<close>

abbreviation hp_of :: "(nat \<Rightarrow> message_id) \<Rightarrow> nat \<Rightarrow> bool" where
  "hp_of cmd x \<equiv> is_high_priority (cmd x)"

definition mb_sentinels :: "default_mailbox_impl \<Rightarrow> nat list" where
  "mb_sentinels b = [head (urgent_queue b), tail (urgent_queue b),
                     head (normal_queue b), tail (normal_queue b)]"

definition mb_rep :: "(nat \<Rightarrow> message_id) \<Rightarrow> mb_state \<Rightarrow> nat mailbox \<Rightarrow> bool" where
  "mb_rep cmd bm a \<longleftrightarrow>
     wf_inbox (inbox (fst bm)) \<and> distinct (mb_sentinels (fst bm) @ mb_elems a) \<and>
     (\<forall>x \<in> set (mb_elems a). node_ok (inbox (fst bm)) x) \<and>
     ll_rep (urgent_queue (fst bm)) (nxt (snd bm)) (urgent a) \<and>
     ll_rep (normal_queue (fst bm)) (nxt (snd bm)) (normal a) \<and>
     inbox_rep (inbox (fst bm)) (nxt (snd bm)) (arrivals a) \<and>
     (\<forall>x \<in> set (urgent a). hp_of cmd x) \<and> (\<forall>x \<in> set (normal a). \<not> hp_of cmd x)"

text \<open>A node that may be handed to the mailbox: not already in it, and a proper address.\<close>

definition mb_fresh :: "default_mailbox_impl \<Rightarrow> nat mailbox \<Rightarrow> nat \<Rightarrow> bool" where
  "mb_fresh b a p \<longleftrightarrow> node_ok (inbox b) p \<and> p \<notin> set (mb_sentinels b) \<and> p \<notin> set (mb_elems a)"

lemma mb_new_rep:
  assumes "distinct [uh, ut, nh, nt]" and "ib \<noteq> 0"
  shows "mb_rep cmd (mb_new uh ut nh nt ib m) am_new"
  using assms
  by (auto simp: mb_new_def ll_new_def mb_rep_def mb_sentinels_def mb_elems_def am_new_def
      new_inbox_def wf_inbox_def ll_rep_def tag_defs)

lemma mb_push_back_rep:
  assumes rep: "mb_rep cmd (b, m) a" and p: "mb_fresh b a p"
    and st: "mb_push_back_impl p (b, m) = (r, b', m')"
  shows "\<exists>a'. am_push p a = (r, a') \<and> mb_rep cmd (b', m') a' \<and>
    freed m' = freed m @ (if r = Queue_closed then [p] else [])"
proof -
  obtain q where q: "push_front p (inbox b, m) = (r, q, m')" "b' = b\<lparr>inbox := q\<rparr>"
    using st by (auto simp: mb_push_back_impl_def split: prod.splits)
  have wf: "wf_inbox (inbox b)" and ib: "inbox_rep (inbox b) (nxt m) (arrivals a)"
    and pk: "node_ok (inbox b) p" "p \<notin> set (ib_elems (arrivals a))"
    using rep p by (auto simp: mb_rep_def mb_fresh_def mb_elems_def)
  from push_front_refines [OF wf ib pk q(1)] obtain ib' where
    ib': "ib_push p (arrivals a) = (r, ib')" "inbox_rep q (nxt m') ib'" "this_addr q = this_addr (inbox b)"
    "\<forall>x. x \<noteq> p \<longrightarrow> nxt m' x = nxt m x" "freed m' = freed m @ (if r = Queue_closed then [p] else [])"
    by blast
  have el: "set (ib_elems ib') \<subseteq> insert p (set (ib_elems (arrivals a)))"
    "distinct (ib_elems (arrivals a)) \<longrightarrow> distinct (ib_elems ib')"
    using ib'(1) pk(2) by (cases "arrivals a"; auto)+
  have "ll_rep (urgent_queue b) (nxt m') (urgent a) = ll_rep (urgent_queue b) (nxt m) (urgent a)"
    and "ll_rep (normal_queue b) (nxt m') (normal a) = ll_rep (normal_queue b) (nxt m) (normal a)"
    using p ib'(4)
    by (intro ll_rep_cong; auto simp: mb_fresh_def ll_nodes_def mb_elems_def mb_sentinels_def)+
  then have "mb_rep cmd (b', m') (a\<lparr>arrivals := ib'\<rparr>)"
    using rep p q(2) ib' el wf distinct_append [of "urgent a @ normal a"]
    by (auto simp: mb_rep_def mb_fresh_def mb_elems_def mb_sentinels_def wf_inbox_def node_ok_def tag_defs)
  with ib' show ?thesis by (auto simp: am_push_def)
qed

lemma mb_observers_rep:
  assumes "mb_rep cmd (b, m) a"
  shows "mb_closed_impl b = am_closed a" and "mb_blocked_impl b = am_blocked a"
    and "mb_cached b = length (urgent a) + length (normal a)"
  using assms inbox_rep_closedD inbox_rep_blockedD
  by (auto simp: mb_rep_def mb_closed_impl_def am_closed_def mb_blocked_impl_def am_blocked_def
      inbox_closed_def inbox_blocked_def mb_cached_def ll_rep_size)

lemma mb_rep_arrivals:
  assumes "mb_rep cmd (b, m) a" and "inbox_rep q (nxt m) ib" and "this_addr q = this_addr (inbox b)"
    and "ib_elems ib = ib_elems (arrivals a)"
  shows "mb_rep cmd (b\<lparr>inbox := q\<rparr>, m) (a\<lparr>arrivals := ib\<rparr>)"
  using assms
  by (auto simp: mb_rep_def mb_elems_def mb_sentinels_def wf_inbox_def node_ok_def tag_defs)

lemma mb_try_block_rep:
  assumes rep: "mb_rep cmd (b, m) a" and st: "mb_try_block_impl b = (r, b')"
  shows "\<exists>a'. am_try_block a = (r, a') \<and> mb_rep cmd (b', m) a'"
proof (cases "urgent a = [] \<and> normal a = []")
  case False
  with rep st show ?thesis by (auto simp: mb_try_block_impl_def mb_observers_rep am_try_block_def)
next
  case True
  then obtain q where q: "inbox_try_block (inbox b) = (r, q)" "b' = b\<lparr>inbox := q\<rparr>"
    using rep st by (auto simp: mb_try_block_impl_def mb_observers_rep split: prod.splits)
  from rep have "wf_inbox (inbox b)" "inbox_rep (inbox b) (nxt m) (arrivals a)"
    by (simp_all add: mb_rep_def)
  from try_block_refines [OF this q(1)] obtain ib where
    ib: "ib_try_block (arrivals a) = (r, ib)" "inbox_rep q (nxt m) ib" "this_addr q = this_addr (inbox b)"
    by blast
  then have "ib_elems ib = ib_elems (arrivals a)"
    by (cases "arrivals a"; cases "ib_elems (arrivals a)"; auto)
  with ib q True show ?thesis using mb_rep_arrivals [OF rep] by (simp add: am_try_block_def)
qed

lemma mb_try_unblock_rep:
  assumes rep: "mb_rep cmd (b, m) a" and st: "mb_try_unblock_impl b = (r, b')"
  shows "\<exists>a'. am_try_unblock a = (r, a') \<and> mb_rep cmd (b', m) a'"
proof -
  obtain q where q: "inbox_try_unblock (inbox b) = (r, q)" "b' = b\<lparr>inbox := q\<rparr>"
    using rep st by (auto simp: mb_try_unblock_impl_def split: prod.splits)
  from rep have "wf_inbox (inbox b)" "inbox_rep (inbox b) (nxt m) (arrivals a)"
    by (simp_all add: mb_rep_def)
  from try_unblock_refines [OF this q(1)] obtain ib where
    ib: "ib_try_unblock (arrivals a) = (r, ib)" "inbox_rep q (nxt m) ib" "this_addr q = this_addr (inbox b)"
    by blast
  then have "ib_elems ib = ib_elems (arrivals a)" by (cases "arrivals a") auto
  with ib q show ?thesis using mb_rep_arrivals [OF rep] by (simp add: am_try_unblock_def)
qed

text \<open>
  The loop invariant of \<open>fetch_more\<close>: \<open>U\<close> and \<open>N\<close> were queued before the loop (their last
  nodes are the insertion points), \<open>A\<close> and \<open>B\<close> have been inserted behind them, \<open>xs\<close> is the
  rest of the detached stack.
\<close>

definition fetch_inv :: "mb_state \<Rightarrow> nat list \<Rightarrow> nat list \<Rightarrow> nat list \<Rightarrow> nat list \<Rightarrow> nat list \<Rightarrow> bool" where
  "fetch_inv bm U A N B xs \<longleftrightarrow>
     ll_rep (urgent_queue (fst bm)) (nxt (snd bm)) (U @ A) \<and>
     ll_rep (normal_queue (fst bm)) (nxt (snd bm)) (N @ B) \<and>
     distinct (mb_sentinels (fst bm) @ U @ A @ N @ B @ xs) \<and> 0 \<notin> set xs"

lemma mb_insert_inv:
  assumes inv: "fetch_inv (b, m) U A N B (x # xs)" and seg: "seg (nxt m) y xs 0"
    and u: "upos = last (head (urgent_queue b) # U)" and n: "npos = last (head (normal_queue b) # N)"
    and st: "mb_insert cmd upos npos x (b, m) = (b', m')"
  shows "fetch_inv (b', m') U (if hp_of cmd x then x # A else A) N (if hp_of cmd x then B else x # B) xs \<and>
    seg (nxt m') y xs 0 \<and> mb_sentinels b' = mb_sentinels b \<and> inbox b' = inbox b \<and> freed m' = freed m"
proof (cases "hp_of cmd x")
  case True
  then obtain l where l: "ll_insert_after upos x (urgent_queue b, m) = (l, m')" "b' = b\<lparr>urgent_queue := l\<rparr>"
    using st by (auto simp: mb_insert_def split: prod.splits)
  have ins: "ll_rep l (nxt m') (U @ x # A) \<and> head l = head (urgent_queue b) \<and> tail l = tail (urgent_queue b) \<and>
    (\<forall>z. z \<notin> insert x (ll_nodes (urgent_queue b) (U @ A)) \<longrightarrow> nxt m' z = nxt m z) \<and> freed m' = freed m"
    using inv u by (intro ll_insert_after_rep [OF _ _ _ _ l(1)])
      (auto simp: fetch_inv_def ll_nodes_def mb_sentinels_def)
  have "ll_rep (normal_queue b) (nxt m') (N @ B) = ll_rep (normal_queue b) (nxt m) (N @ B)"
    using inv ins by (intro ll_rep_cong) (auto simp: fetch_inv_def ll_nodes_def mb_sentinels_def)
  moreover have "seg (nxt m') y xs 0 = seg (nxt m) y xs 0"
    using inv ins by (intro seg_cong) (auto simp: fetch_inv_def ll_nodes_def mb_sentinels_def)
  ultimately show ?thesis
    using inv ins True l seg by (auto simp: fetch_inv_def mb_sentinels_def)
next
  case False
  then obtain l where l: "ll_insert_after npos x (normal_queue b, m) = (l, m')" "b' = b\<lparr>normal_queue := l\<rparr>"
    using st by (auto simp: mb_insert_def split: prod.splits)
  have ins: "ll_rep l (nxt m') (N @ x # B) \<and> head l = head (normal_queue b) \<and> tail l = tail (normal_queue b) \<and>
    (\<forall>z. z \<notin> insert x (ll_nodes (normal_queue b) (N @ B)) \<longrightarrow> nxt m' z = nxt m z) \<and> freed m' = freed m"
    using inv n by (intro ll_insert_after_rep [OF _ _ _ _ l(1)])
      (auto simp: fetch_inv_def ll_nodes_def mb_sentinels_def)
  have "ll_rep (urgent_queue b) (nxt m') (U @ A) = ll_rep (urgent_queue b) (nxt m) (U @ A)"
    using inv ins by (intro ll_rep_cong) (auto simp: fetch_inv_def ll_nodes_def mb_sentinels_def)
  moreover have "seg (nxt m') y xs 0 = seg (nxt m) y xs 0"
    using inv ins by (intro seg_cong) (auto simp: fetch_inv_def ll_nodes_def mb_sentinels_def)
  ultimately show ?thesis
    using inv ins False l seg by (auto simp: fetch_inv_def mb_sentinels_def)
qed

lemma mb_fetch_loop_rep:
  assumes "fetch_inv (b, m) U A N B xs" and "seg (nxt m) h xs 0" and "xs \<noteq> []"
    and "upos = last (head (urgent_queue b) # U)" and "npos = last (head (normal_queue b) # N)"
  shows "\<exists>b' m'. mb_fetch_loop cmd upos npos h (b, m) = Some (b', m') \<and>
    fetch_inv (b', m') U (rev (filter (hp_of cmd) xs) @ A) N (rev (filter (\<lambda>x. \<not> hp_of cmd x) xs) @ B) [] \<and>
    mb_sentinels b' = mb_sentinels b \<and> inbox b' = inbox b \<and> freed m' = freed m"
  using assms
proof (induction xs arbitrary: b m A B h)
  case (Cons x xs)
  obtain b' m' where ins: "mb_insert cmd upos npos x (b, m) = (b', m')" by fastforce
  have hd: "h = x" "seg (nxt m) (nxt m x) xs 0" using Cons.prems(2) by simp_all
  note step = mb_insert_inv [OF Cons.prems(1) hd(2) Cons.prems(4,5) ins]
  let ?A = "if hp_of cmd x then x # A else A" and ?B = "if hp_of cmd x then B else x # B"
  show ?case
  proof (cases "xs = []")
    case True
    then have "nxt m x = 0" using hd by simp
    then show ?thesis
      using True hd(1) ins step by (subst mb_fetch_loop.simps) auto
  next
    case False
    then have ne: "nxt m x \<noteq> 0"
      using hd(2) Cons.prems(1) by (cases xs) (auto simp: fetch_inv_def)
    have pos: "upos = last (head (urgent_queue b') # U)" "npos = last (head (normal_queue b') # N)"
      using step Cons.prems(4,5) by (auto simp: mb_sentinels_def)
    from Cons.IH [OF conjunct1 [OF step] conjunct1 [OF conjunct2 [OF step]] False pos]
    obtain b'' m'' where r: "mb_fetch_loop cmd upos npos (nxt m x) (b', m') = Some (b'', m'')"
      "fetch_inv (b'', m'') U (rev (filter (hp_of cmd) xs) @ ?A) N (rev (filter (\<lambda>x. \<not> hp_of cmd x) xs) @ ?B) []"
      "mb_sentinels b'' = mb_sentinels b'" "inbox b'' = inbox b'" "freed m'' = freed m'"
      by blast
    have "mb_fetch_loop cmd upos npos h (b, m) = Some (b'', m'')"
      using ne hd(1) ins r(1) by (subst mb_fetch_loop.simps) (simp add: Let_def)
    with r step show ?thesis by (auto split: if_splits)
  qed
qed simp

lemma mb_fetch_more_rep:
  assumes rep: "mb_rep cmd (b, m) a" and f: "am_fetch (hp_of cmd) a = Inr (got, a')"
  shows "\<exists>b' m'. mb_fetch_more cmd (b, m) = Some (got, b', m') \<and> mb_rep cmd (b', m') a' \<and>
    mb_sentinels b' = mb_sentinels b \<and> freed m' = freed m"
proof -
  let ?U = "urgent a" and ?N = "normal a"
  obtain xs where xs: "arrivals a = Open xs" and got: "got = (xs \<noteq> [])"
    and a': "a' = \<lparr>urgent = ?U @ rev (filter (hp_of cmd) xs),
               normal = ?N @ rev (filter (\<lambda>x. \<not> hp_of cmd x) xs), arrivals = Open []\<rparr>"
    using f by (cases "arrivals a") (auto simp: am_fetch_def)
  obtain h q where t: "take_head stack_empty_tag (inbox b) = (h, q)" by fastforce
  have wf: "wf_inbox (inbox b)" and ib: "inbox_rep (inbox b) (nxt m) (Open xs)"
    using rep xs by (simp_all add: mb_rep_def)
  note tk = take_head_refines [OF wf ib t]
  have ok: "\<forall>x \<in> set xs. x \<noteq> 0" using ib by (auto simp: node_ok_def)
  have "fetch_inv (b\<lparr>inbox := q\<rparr>, m) ?U [] ?N [] xs"
    using rep xs ok by (auto simp: fetch_inv_def mb_rep_def mb_elems_def mb_sentinels_def)
  note inv = this
  have up: "ll_before_end (urgent_queue b, m) = last (head (urgent_queue b) # ?U)"
    and np: "ll_before_end (normal_queue b, m) = last (head (normal_queue b) # ?N)"
    using rep by (auto simp: mb_rep_def ll_rep_before_end)
  show ?thesis
  proof (cases "xs = []")
    case True
    then have "h = 0" using tk by simp
    moreover have "mb_rep cmd (b\<lparr>inbox := q\<rparr>, m) (a\<lparr>arrivals := Open []\<rparr>)"
      by (rule mb_rep_arrivals [OF rep]) (use tk True xs in auto)
    ultimately show ?thesis
      using True t got a' xs by (cases a) (auto simp: mb_fetch_more_def mb_sentinels_def)
  next
    case False
    then have "h \<noteq> 0" using tk ok by (cases xs) auto
    obtain b' m' where r: "mb_fetch_loop cmd (ll_before_end (urgent_queue b, m))
        (ll_before_end (normal_queue b, m)) h (b\<lparr>inbox := q\<rparr>, m) = Some (b', m')"
      "fetch_inv (b', m') ?U (rev (filter (hp_of cmd) xs)) ?N (rev (filter (\<lambda>x. \<not> hp_of cmd x) xs)) []"
      "mb_sentinels b' = mb_sentinels b" "inbox b' = q" "freed m' = freed m"
      using mb_fetch_loop_rep [OF inv conjunct1 [OF tk] False, of "ll_before_end (urgent_queue b, m)"
          "ll_before_end (normal_queue b, m)" cmd] up np
      by (simp add: mb_sentinels_def del: last.simps) blast
    have q: "wf_inbox q" "node_ok q = node_ok (inbox b)"
      using tk wf by (auto simp: wf_inbox_def node_ok_def tag_defs)
    have q0: "stack q \<noteq> reader_blocked_tag q" "stack q \<noteq> stack_closed_tag q" "stack q = 0"
      using tk by simp_all
    have "distinct (mb_sentinels b' @ mb_elems a')" "\<forall>x \<in> set (mb_elems a'). node_ok q x"
      using r(2) rep xs q(2) by (auto simp: fetch_inv_def a' mb_elems_def mb_rep_def)
    then have "mb_rep cmd (b', m') a'"
      using r rep q q0 by (auto simp: mb_rep_def fetch_inv_def a')
    then show ?thesis
      using \<open>h \<noteq> 0\<close> t r False got by (auto simp: mb_fetch_more_def)
  qed
qed

text \<open>Popping the front of one of the two queues.\<close>

lemma mb_pop_urgent_rep:
  assumes rep: "mb_rep cmd (b, m) a" and u: "urgent a = x # xs"
    and p: "ll_pop_front (urgent_queue b, m) = (p, l, m')"
  shows "p = x \<and> p \<noteq> 0 \<and> mb_rep cmd (b\<lparr>urgent_queue := l\<rparr>, m') (a\<lparr>urgent := xs\<rparr>) \<and>
    freed m' = freed m"
proof -
  have "ll_rep (urgent_queue b) (nxt m) (x # xs)" using rep u by (simp add: mb_rep_def)
  note r = ll_pop_front_rep [OF this p]
  have fr: "nxt m' y = nxt m y" if "y \<noteq> head (urgent_queue b)" "y \<noteq> tail (urgent_queue b)" for y
    using r that by simp
  have "ll_rep (normal_queue b) (nxt m') (normal a) = ll_rep (normal_queue b) (nxt m) (normal a)"
    using rep u by (intro ll_rep_cong fr)
      (auto simp: ll_nodes_def mb_rep_def mb_sentinels_def mb_elems_def)
  moreover have "inbox_rep (inbox b) (nxt m') (arrivals a) = inbox_rep (inbox b) (nxt m) (arrivals a)"
    using rep u by (intro inbox_rep_cong fr)
      (auto simp: mb_rep_def mb_sentinels_def mb_elems_def)
  moreover have "x \<noteq> 0" using rep u by (simp add: mb_rep_def mb_elems_def node_ok_def)
  ultimately show ?thesis
    using r rep u by (auto simp: mb_rep_def mb_sentinels_def mb_elems_def)
qed

lemma mb_pop_normal_rep:
  assumes rep: "mb_rep cmd (b, m) a" and u: "normal a = x # xs"
    and p: "ll_pop_front (normal_queue b, m) = (p, l, m')"
  shows "p = x \<and> p \<noteq> 0 \<and> mb_rep cmd (b\<lparr>normal_queue := l\<rparr>, m') (a\<lparr>normal := xs\<rparr>) \<and>
    freed m' = freed m"
proof -
  have "ll_rep (normal_queue b) (nxt m) (x # xs)" using rep u by (simp add: mb_rep_def)
  note r = ll_pop_front_rep [OF this p]
  have fr: "nxt m' y = nxt m y" if "y \<noteq> head (normal_queue b)" "y \<noteq> tail (normal_queue b)" for y
    using r that by simp
  have "ll_rep (urgent_queue b) (nxt m') (urgent a) = ll_rep (urgent_queue b) (nxt m) (urgent a)"
    using rep u by (intro ll_rep_cong fr)
      (auto simp: ll_nodes_def mb_rep_def mb_sentinels_def mb_elems_def)
  moreover have "inbox_rep (inbox b) (nxt m') (arrivals a) = inbox_rep (inbox b) (nxt m) (arrivals a)"
    using rep u by (intro inbox_rep_cong fr)
      (auto simp: mb_rep_def mb_sentinels_def mb_elems_def)
  moreover have "x \<noteq> 0" using rep u by (simp add: mb_rep_def mb_elems_def node_ok_def)
  ultimately show ?thesis
    using r rep u by (auto simp: mb_rep_def mb_sentinels_def mb_elems_def)
qed

text \<open>With something cached, one pass of the loop returns it.\<close>

lemma mb_pop_cached:
  assumes rep: "mb_rep cmd (b, m) a" and ne: "\<not> (urgent a = [] \<and> normal a = [])"
  shows "\<exists>x a' b' m'. am_take a = (Some x, a') \<and> mb_pop_front_impl cmd b m = Some (x, b', m') \<and>
    x \<noteq> 0 \<and> mb_rep cmd (b', m') a' \<and> freed m' = freed m"
proof (cases "urgent a")
  case (Cons x xs)
  obtain p l m' where p: "ll_pop_front (urgent_queue b, m) = (p, l, m')" by (metis prod_cases3)
  from mb_pop_urgent_rep [OF rep Cons p] Cons p show ?thesis
    by (subst mb_pop_front_impl.simps) (auto simp: am_take_def)
next
  case Nil
  with ne obtain x xs where n: "normal a = x # xs" by (cases "normal a") auto
  obtain p l m' where p: "ll_pop_front (normal_queue b, m) = (p, l, m')" by (metis prod_cases3)
  have "ll_pop_front (urgent_queue b, m) = (0, urgent_queue b, m)"
    using rep Nil by (simp add: ll_pop_front_empty mb_rep_def)
  with mb_pop_normal_rep [OF rep n p] Nil n p show ?thesis
    by (subst mb_pop_front_impl.simps) (auto simp: am_take_def)
qed

text \<open>
  The whole loop: it returns after at most one refill, with what the abstract mailbox takes.
\<close>

lemma mb_pop_front_rep:
  assumes rep: "mb_rep cmd (b, m) a" and st: "am_pop (hp_of cmd) a = Inr (r, a')"
  shows "\<exists>b' m'. mb_pop_front_impl cmd b m = Some (case r of None \<Rightarrow> 0 | Some x \<Rightarrow> x, b', m') \<and>
    (\<forall>x. r = Some x \<longrightarrow> x \<noteq> 0) \<and> mb_rep cmd (b', m') a' \<and> freed m' = freed m"
proof (cases "urgent a = [] \<and> normal a = []")
  case False
  with mb_pop_cached [OF rep False] st show ?thesis by (auto simp: am_pop_def)
next
  case True
  then obtain got c where f: "am_fetch (hp_of cmd) a = Inr (got, c)" and c: "am_take c = (r, a')"
    using st by (cases "am_fetch (hp_of cmd) a") (auto simp: am_pop_def)
  obtain b1 m1 where r1: "mb_fetch_more cmd (b, m) = Some (got, b1, m1)" "mb_rep cmd (b1, m1) c"
    "freed m1 = freed m" using mb_fetch_more_rep [OF rep f] by blast
  have "ll_pop_front (urgent_queue b, m) = (0, urgent_queue b, m)"
    "ll_pop_front (normal_queue b, m) = (0, normal_queue b, m)"
    using rep True by (simp_all add: ll_pop_front_empty mb_rep_def)
  then have step: "mb_pop_front_impl cmd b m =
      (if got then mb_pop_front_impl cmd b1 m1 else Some (0, b1, m1))"
    using r1(1) by (subst mb_pop_front_impl.simps) simp
  have got: "got \<longleftrightarrow> \<not> (urgent c = [] \<and> normal c = [])"
    using f True by (cases "arrivals a") (auto simp: am_fetch_def filter_empty_conv)
  show ?thesis
  proof (cases got)
    case True
    with mb_pop_cached [OF r1(2)] got step c r1(3) show ?thesis by auto
  next
    case False
    then have "r = None" "a' = c" using got c by (simp_all add: am_take_def)
    with False step r1 show ?thesis by simp
  qed
qed

text \<open>Putting a message back at the front, for the reader that could not finish it.\<close>

lemma mb_push_front_rep:
  assumes rep: "mb_rep cmd (b, m) a" and p: "mb_fresh b a p"
    and st: "mb_push_front_impl cmd p (b, m) = (b', m')"
  shows "mb_rep cmd (b', m') (am_push_front (hp_of cmd) p a) \<and> freed m' = freed m"
proof -
  have p': "p \<notin> ll_nodes (urgent_queue b) (urgent a)" "p \<notin> ll_nodes (normal_queue b) (normal a)" "p \<noteq> 0"
    using p by (auto simp: mb_fresh_def ll_nodes_def mb_elems_def mb_sentinels_def node_ok_def)
  have u: "ll_rep (urgent_queue b) (nxt m) (urgent a)" and n: "ll_rep (normal_queue b) (nxt m) (normal a)"
    using rep by (simp_all add: mb_rep_def)
  show ?thesis
  proof (cases "hp_of cmd p")
    case True
    then obtain l where l: "ll_push_front p (urgent_queue b, m) = (l, m')" "b' = b\<lparr>urgent_queue := l\<rparr>"
      using st by (auto simp: mb_push_front_impl_def split: prod.splits)
    note r = ll_push_front_rep [OF u p'(1,3) l(1)]
    have fr: "nxt m' y = nxt m y" if "y \<notin> insert p (ll_nodes (urgent_queue b) (urgent a))" for y
      using r that by blast
    have "ll_rep (normal_queue b) (nxt m') (normal a)" "inbox_rep (inbox b) (nxt m') (arrivals a)"
      using rep p n by (subst ll_rep_cong [of _ _ "nxt m'" "nxt m"] inbox_rep_cong [of _ "nxt m'" "nxt m"];
        auto intro!: fr simp: ll_nodes_def mb_rep_def mb_sentinels_def mb_elems_def mb_fresh_def)+
    with r l rep p True show ?thesis
      by (auto simp: mb_rep_def mb_sentinels_def mb_elems_def mb_fresh_def am_push_front_def)
  next
    case False
    then obtain l where l: "ll_push_front p (normal_queue b, m) = (l, m')" "b' = b\<lparr>normal_queue := l\<rparr>"
      using st by (auto simp: mb_push_front_impl_def split: prod.splits)
    note r = ll_push_front_rep [OF n p'(2,3) l(1)]
    have fr: "nxt m' y = nxt m y" if "y \<notin> insert p (ll_nodes (normal_queue b) (normal a))" for y
      using r that by blast
    have "ll_rep (urgent_queue b) (nxt m') (urgent a)" "inbox_rep (inbox b) (nxt m') (arrivals a)"
      using rep p u by (subst ll_rep_cong [of _ _ "nxt m'" "nxt m"] inbox_rep_cong [of _ "nxt m'" "nxt m"];
        auto intro!: fr simp: ll_nodes_def mb_rep_def mb_sentinels_def mb_elems_def mb_fresh_def)+
    with r l rep p False show ?thesis
      by (auto simp: mb_rep_def mb_sentinels_def mb_elems_def mb_fresh_def am_push_front_def)
  qed
qed

lemma fold_bounce: "fold bounce_and_count xs (d, n) = (d @ xs, n + length xs)"
  by (induction xs arbitrary: d n) (simp_all add: bounce_and_count_def)

lemma freed_fold_delete: "freed (fold delete_node xs m) = freed m @ xs"
  by (induction xs arbitrary: m) simp_all

lemma nxt_fold_delete: "nxt (fold delete_node xs m) = nxt m"
  by (induction xs arbitrary: m) simp_all

text \<open>
  Closing frees each message exactly once, the count is how many there were, and the mailbox is
  left closed and empty.
\<close>

lemma mb_close_rep:
  assumes rep: "mb_rep cmd (b, m) a" and opn: "\<not> am_closed a"
  shows "\<exists>b' m'. mb_close_impl (b, m) = Some (length (mb_elems a), b', m') \<and>
    mb_rep cmd (b', m') (snd (am_close a)) \<and> freed m' = freed m @ mb_elems a"
proof -
  have u: "ll_rep (urgent_queue b) (nxt m) (urgent a)" using rep by (simp add: mb_rep_def)
  obtain ul m1 where i1: "ll_init (urgent_queue b, m) = (ul, m1)" by fastforce
  have nx1: "nxt m1 = (nxt m)(head (urgent_queue b) := tail (urgent_queue b),
      tail (urgent_queue b) := head (urgent_queue b))" "freed m1 = freed m"
    "ul = (urgent_queue b)\<lparr>size_of := 0\<rparr>"
    using i1 by (auto simp: ll_init_def)
  have n: "ll_rep (normal_queue b) (nxt m1) (normal a)"
    using rep nx1 by (simp add: mb_rep_def ll_nodes_def mb_sentinels_def mb_elems_def)
  obtain nl m2 where i2: "ll_init (normal_queue b, m1) = (nl, m2)" by fastforce
  have nx2: "nxt m2 = (nxt m1)(head (normal_queue b) := tail (normal_queue b),
      tail (normal_queue b) := head (normal_queue b))" "freed m2 = freed m"
    "nl = (normal_queue b)\<lparr>size_of := 0\<rparr>"
    using i2 nx1 by (auto simp: ll_init_def)
  have ib: "inbox_rep (inbox b) (nxt m2) (arrivals a)"
    using rep nx1 nx2 by (simp add: mb_rep_def mb_sentinels_def mb_elems_def)
  have wf: "wf_inbox (inbox b)" using rep by (simp add: mb_rep_def)
  obtain q where q: "inbox_close bounce_and_count (inbox b) (nxt m2) (urgent a @ normal a, length (urgent a) + length (normal a))
      = Some (fold bounce_and_count (ib_elems (arrivals a)) (urgent a @ normal a, length (urgent a) + length (normal a)), q)"
    "inbox_rep q (nxt m2) Closed" "this_addr q = this_addr (inbox b)"
    using inbox_close_spec [OF wf ib, of bounce_and_count] opn unfolding am_closed_def by blast
  have "mb_close_impl (b, m) = Some (length (mb_elems a), \<lparr>urgent_queue = ul, normal_queue = nl, inbox = q\<rparr>,
      fold delete_node (mb_elems a) m2)"
    using q(1) i1 i2
    by (simp add: mb_close_impl_def ll_drain_rep [OF u] ll_drain_rep [OF n] fold_bounce mb_elems_def add.assoc)
  moreover have "mb_rep cmd (\<lparr>urgent_queue = ul, normal_queue = nl, inbox = q\<rparr>,
      fold delete_node (mb_elems a) m2) (snd (am_close a))"
    using rep q(2,3) nx1 nx2
    by (auto simp: mb_rep_def am_close_def mb_elems_def mb_sentinels_def wf_inbox_def ll_rep_def tag_defs
        nxt_fold_delete)
  ultimately show ?thesis using nx2(2) by (auto simp: freed_fold_delete)
qed

lemma mb_size_rep:
  assumes rep: "mb_rep cmd (b, m) a" and f: "am_fetch (hp_of cmd) a = Inr (got, a')"
  shows "\<exists>b' m'. mb_size_impl cmd (b, m) = Some (length (mb_elems a), b', m') \<and>
    mb_rep cmd (b', m') a' \<and> freed m' = freed m"
proof -
  obtain b' m' where r: "mb_fetch_more cmd (b, m) = Some (got, b', m')" "mb_rep cmd (b', m') a'"
    "freed m' = freed m" using mb_fetch_more_rep [OF rep f] by blast
  have "length (filter P xs) + length (filter (\<lambda>x. \<not> P x) xs) = length xs" for P and xs :: "nat list"
    by (induction xs) auto
  then have "length (urgent a') + length (normal a') = length (mb_elems a)"
    using f by (cases "arrivals a") (auto simp: am_fetch_def mb_elems_def)
  with r mb_observers_rep(3) [OF r(2)] show ?thesis by (simp add: mb_size_impl_def)
qed

section \<open>What the actor relies on\<close>

text \<open>Popping until the mailbox yields nothing, at most \<open>n\<close> times.\<close>

fun pops :: "('b \<Rightarrow> ('m option \<times> 'b) outcome) \<Rightarrow> nat \<Rightarrow> 'b \<Rightarrow> ('m list \<times> 'b) outcome" where
  "pops pop 0 b = Inr ([], b)"
| "pops pop (Suc n) b =
     (case pop b of
        Inl f \<Rightarrow> Inl f
      | Inr (None, b') \<Rightarrow> Inr ([], b')
      | Inr (Some m, b') \<Rightarrow> map_sum id (\<lambda>(ms, b''). (m # ms, b'')) (pops pop n b'))"

text \<open>
  The contract of the \<open>MailBox\<close> parameter of \<open>cooperative_actor\<close>: results of a push, parking and
  un-parking, and a pop that loses nothing. \<open>content\<close> abstracts from the order.
\<close>

locale mailbox_contract =
  fixes push :: "'m \<Rightarrow> 'b \<Rightarrow> enqueue_result \<times> 'b"
    and block unblock :: "'b \<Rightarrow> bool \<times> 'b"
    and pop :: "'b \<Rightarrow> ('m option \<times> 'b) outcome"
    and closed blocked :: "'b \<Rightarrow> bool"
    and content :: "'b \<Rightarrow> 'm multiset"
  assumes push_open: "push m b = (r, b') \<Longrightarrow> \<not> closed b \<Longrightarrow>
      \<not> closed b' \<and> \<not> blocked b' \<and> r = (if blocked b then Unblocked_reader else Success) \<and>
      content b' = content b + {#m#}"
    and block_open: "block b = (ok, b') \<Longrightarrow> \<not> closed b \<Longrightarrow> \<not> blocked b \<Longrightarrow>
      \<not> closed b' \<and> content b' = content b \<and> blocked b' = ok \<and> (ok \<longleftrightarrow> content b = {#})"
    and unblock_open: "unblock b = (ok, b') \<Longrightarrow> \<not> closed b \<Longrightarrow>
      \<not> closed b' \<and> \<not> blocked b' \<and> content b' = content b \<and> ok = blocked b"
    and pop_open: "\<not> closed b \<Longrightarrow> \<not> blocked b \<Longrightarrow>
      \<exists>r b'. pop b = Inr (r, b') \<and> \<not> closed b' \<and> \<not> blocked b' \<and>
        content b = content b' + (case r of None \<Rightarrow> {#} | Some m \<Rightarrow> {#m#}) \<and>
        (r = None \<longrightarrow> content b = {#})"
begin

text \<open>A parked mailbox signals its first push, and only that one.\<close>

lemma first_push_signals:
  assumes "block b = (True, b1)" and "\<not> closed b" and "\<not> blocked b"
    and "push m b1 = (r1, b2)" and "push m' b2 = (r2, b3)"
  shows "r1 = Unblocked_reader \<and> r2 = Success \<and> content b3 = {#m, m'#}"
  using block_open [OF assms(1-3)] push_open [OF assms(4)] push_open [OF assms(5)] by auto

text \<open>Un-parking makes the next push silent: the caller took the obligation over.\<close>

lemma unblock_silences:
  assumes "unblock b = (u, b1)" and "\<not> closed b" and "push m b1 = (r, b2)"
  shows "r = Success"
  using unblock_open [OF assms(1,2)] push_open [OF assms(3)] by simp

text \<open>Enough pops return every message and leave nothing.\<close>

lemma pops_drain:
  assumes "\<not> closed b" and "\<not> blocked b" and "size (content b) < n"
  shows "\<exists>ms b'. pops pop n b = Inr (ms, b') \<and> mset ms = content b \<and> content b' = {#} \<and>
    \<not> closed b' \<and> \<not> blocked b'"
  using assms
proof (induction n arbitrary: b)
  case (Suc n)
  from pop_open [OF Suc.prems(1,2)] obtain r c where c: "pop b = Inr (r, c)" "\<not> closed c" "\<not> blocked c"
    "content b = content c + (case r of None \<Rightarrow> {#} | Some m \<Rightarrow> {#m#})" "r = None \<longrightarrow> content b = {#}"
    by blast
  show ?case
  proof (cases r)
    case None
    with c show ?thesis by auto
  next
    case (Some m)
    with c Suc.prems(3) have "size (content c) < n" by simp
    from Suc.IH [OF c(2,3) this] Some c show ?thesis by (auto simp: add_mset_commute)
  qed
qed simp

end


lemma mset_partition_filter: "mset (filter P xs) + mset (filter (\<lambda>x. \<not> P x) xs) = mset xs"
  by (induction xs) auto

lemma am_fetch_content:
  "am_fetch hp a = Inr (g, a') \<Longrightarrow> arrivals a' = Open [] \<and> mset (mb_elems a') = mset (mb_elems a)"
  using mset_partition_filter [of hp]
  by (cases "arrivals a") (auto simp: am_fetch_def mb_elems_def)

lemma am_take_content:
  "am_take a = (r, a') \<Longrightarrow> arrivals a' = arrivals a \<and>
     mset (mb_elems a) = mset (mb_elems a') + (case r of None \<Rightarrow> {#} | Some m \<Rightarrow> {#m#}) \<and>
     (r = None \<longrightarrow> urgent a = [] \<and> normal a = [])"
  by (auto simp: am_take_def mb_elems_def split: list.splits)

lemma am_pop_open:
  assumes "\<not> am_closed a" and "\<not> am_blocked a"
  shows "\<exists>r a'. am_pop hp a = Inr (r, a') \<and> \<not> am_closed a' \<and> \<not> am_blocked a' \<and>
    mset (mb_elems a) = mset (mb_elems a') + (case r of None \<Rightarrow> {#} | Some m \<Rightarrow> {#m#}) \<and>
    (r = None \<longrightarrow> mset (mb_elems a) = {#})"
proof (cases "urgent a = [] \<and> normal a = []")
  case True
  obtain g c where f: "am_fetch hp a = Inr (g, c)"
    using assms by (cases "arrivals a") (auto simp: am_fetch_def am_blocked_def am_closed_def)
  obtain r a' where t: "am_take c = (r, a')" by fastforce
  from am_fetch_content [OF f] am_take_content [OF t] True f t show ?thesis
    by (auto simp: am_pop_def am_blocked_def am_closed_def mb_elems_def)
next
  case False
  obtain r a' where t: "am_take a = (r, a')" by fastforce
  from assms am_take_content [OF t] False t show ?thesis
    by (auto simp: am_pop_def am_blocked_def am_closed_def)
qed

text \<open>A parked mailbox is empty, as the representation guarantees, so its content is lost nowhere.\<close>

interpretation mbx: mailbox_contract am_push am_try_block am_try_unblock "am_pop hp" am_closed am_blocked
  "\<lambda>a. mset (mb_elems a)" for hp :: "'m \<Rightarrow> bool"
proof (unfold_locales, goal_cases)
  case (1 m b r b')
  then show ?case
    by (cases "arrivals b") (auto simp: am_push_def am_closed_def am_blocked_def mb_elems_def)
next
  case (2 b ok b')
  then show ?case
    by (cases "arrivals b"; cases "ib_elems (arrivals b)")
      (auto simp: am_try_block_def am_closed_def am_blocked_def mb_elems_def split: if_splits)
next
  case (3 b ok b')
  then show ?case
    by (cases "arrivals b") (auto simp: am_try_unblock_def am_closed_def am_blocked_def mb_elems_def)
next
  case (4 b)
  then show ?case by (rule am_pop_open)
qed

section \<open>Properties\<close>

text \<open>C14: The pointer program pops what the abstract mailbox pops. Through both sentinel lists and
  the detached stack, \<open>pop_front_impl\<close> returns after at most one refill: an urgent message first,
  otherwise a normal one, each priority in arrival order, and no node is freed.\<close>

theorem mailbox_pop_refines:
  assumes "mb_rep cmd (b, m) a" and "\<not> am_closed a" and "\<not> am_blocked a"
  shows "\<exists>r a' b' m'. am_pop (hp_of cmd) a = Inr (r, a') \<and>
    mb_pop_front_impl cmd b m = Some (case r of None \<Rightarrow> 0 | Some x \<Rightarrow> x, b', m') \<and>
    mb_rep cmd (b', m') a' \<and> freed m' = freed m"
proof -
  obtain r a' where "am_pop (hp_of cmd) a = Inr (r, a')" using am_pop_open [OF assms(2,3)] by blast
  with mb_pop_front_rep [OF assms(1) this] show ?thesis by blast
qed

text \<open>Three pushes on the pointer program: nodes 10 and 30 normal, node 20 urgent.\<close>

definition cmd_example :: "nat \<Rightarrow> message_id" where
  "cmd_example x = make_message_id (if x = 20 then High else Normal) 5"

definition pushed_example :: "mb_state" where
  "pushed_example =
     snd (mb_push_back_impl 30 (snd (mb_push_back_impl 20 (snd (mb_push_back_impl 10
       (mb_new 1 2 3 4 5 \<lparr>nxt = (\<lambda>_. 0), freed = []\<rparr>))))))"


lemma cmd_example_hp [simp]: "hp_of cmd_example x = (x = 20)"
  by (cases "x = 20")
    (simp_all add: cmd_example_def is_high_priority_iff bit_make_normal del: make_message_id.simps(1))

lemmas mb_eval = mb_push_back_impl_def push_front_eq mb_new_def ll_new_def new_inbox_def tag_defs
  set_next_def

lemma pushed_example_eq:
  "pushed_example = (\<lparr>urgent_queue = \<lparr>head = 1, tail = 2, size_of = 0\<rparr>,
     normal_queue = \<lparr>head = 3, tail = 4, size_of = 0\<rparr>, inbox = \<lparr>this_addr = 5, stack = 30\<rparr>\<rparr>,
     \<lparr>nxt = (\<lambda>_. 0)(1 := 2, 2 := 1, 3 := 4, 4 := 3, 10 := 0, 20 := 10, 30 := 20), freed = []\<rparr>)"
  by (simp add: pushed_example_def mb_eval)

lemma pushed_example_rep:
  "mb_rep cmd_example pushed_example \<lparr>urgent = [], normal = [], arrivals = Open [30, 20, 10]\<rparr>"
  unfolding pushed_example_eq
  by (simp add: mb_rep_def mb_sentinels_def mb_elems_def wf_inbox_def node_ok_def tag_defs ll_rep_def)

theorem mailbox_pop_refines_witness:
  "\<exists>b' m'. mb_pop_front_impl cmd_example (fst pushed_example) (snd pushed_example) = Some (20, b', m') \<and>
     mb_rep cmd_example (b', m') \<lparr>urgent = [], normal = [10, 30], arrivals = Open []\<rparr>"
  using mailbox_pop_refines [of cmd_example "fst pushed_example" "snd pushed_example"
      "\<lparr>urgent = [], normal = [], arrivals = Open [30, 20, 10]\<rparr>"] pushed_example_rep
  by (auto simp: am_closed_def am_blocked_def am_pop_def am_fetch_def am_take_def)

text \<open>The pointer program pushes what the abstract mailbox pushes, with the same result; a
  rejected message, and only that, is freed.\<close>

theorem mailbox_push_refines:
  assumes "mb_rep cmd (b, m) a" and "mb_fresh b a p" and "mb_push_back_impl p (b, m) = (r, b', m')"
  shows "\<exists>a'. am_push p a = (r, a') \<and> mb_rep cmd (b', m') a' \<and>
    freed m' = freed m @ (if r = Queue_closed then [p] else [])"
  by (rule mb_push_back_rep [OF assms])

theorem mailbox_push_refines_witness:
  "\<exists>a'. am_push 40 \<lparr>urgent = [], normal = [], arrivals = Open [30, 20, 10]\<rparr> = (Success, a') \<and>
     mb_elems a' = [40, 30, 20, 10]"
proof -
  let ?a = "\<lparr>urgent = [], normal = [], arrivals = Open [30, 20, 10]\<rparr>"
  obtain r b' m' where p: "mb_push_back_impl 40 (fst pushed_example, snd pushed_example) = (r, b', m')"
    by (metis prod_cases3)
  have "mb_fresh (fst pushed_example) ?a 40"
    by (simp add: pushed_example_eq mb_fresh_def node_ok_def tag_defs mb_sentinels_def mb_elems_def)
  from mailbox_push_refines [OF _ this p] pushed_example_rep show ?thesis
    by (auto simp: am_push_def mb_elems_def)
qed

lemma pushes_arrive:
  "fold (\<lambda>x a. snd (am_push x a)) ms \<lparr>urgent = us, normal = ns, arrivals = Open xs\<rparr> =
     \<lparr>urgent = us, normal = ns, arrivals = Open (rev ms @ xs)\<rparr>"
  by (induction ms arbitrary: xs) (simp_all add: am_push_def)

lemma pops_cached:
  "length us + length ns < n \<Longrightarrow>
     pops (am_pop hp) n \<lparr>urgent = us, normal = ns, arrivals = Open []\<rparr> = Inr (us @ ns, am_new)"
proof (induction n arbitrary: us ns)
  case (Suc n)
  show ?case
  proof (cases us)
    case (Cons x xs)
    with Suc.prems Suc.IH [of xs ns] show ?thesis by (simp add: am_pop_def am_take_def)
  next
    case Nil
    then show ?thesis
      using Suc.prems Suc.IH [of "[]" "tl ns"]
      by (cases ns) (simp_all add: am_pop_def am_take_def am_fetch_def am_new_def)
  qed
qed simp

text \<open>First in, first out per priority. Whatever was pushed into an open mailbox comes out urgent
  messages first, each priority in the order of its pushes, and nothing else.\<close>

theorem mailbox_priority_fifo:
  assumes "length ms < n"
  shows "pops (am_pop hp) n (fold (\<lambda>x a. snd (am_push x a)) ms am_new) =
    Inr (filter hp ms @ filter (\<lambda>x. \<not> hp x) ms, am_new)"
proof -
  let ?c = "\<lparr>urgent = filter hp ms, normal = filter (\<lambda>x. \<not> hp x) ms, arrivals = Open []\<rparr>"
  have len: "length (filter hp ms) + length (filter (\<lambda>x. \<not> hp x) ms) = length ms"
    by (induction ms) auto
  obtain k where k: "n = Suc k" using assms by (cases n) auto
  have "pops (am_pop hp) n (fold (\<lambda>x a. snd (am_push x a)) ms am_new) = pops (am_pop hp) n ?c"
  proof -
    have "am_pop hp (fold (\<lambda>x a. snd (am_push x a)) ms am_new) = am_pop hp ?c"
      by (auto simp: am_new_def pushes_arrive am_pop_def am_fetch_def rev_filter [symmetric])
    then show ?thesis by (simp add: k)
  qed
  then show ?thesis using pops_cached [of "filter hp ms" "filter (\<lambda>x. \<not> hp x) ms" n hp] len assms by simp
qed

theorem mailbox_priority_fifo_witness:
  "pops (am_pop (\<lambda>x. x > 4)) 9 (fold (\<lambda>x a. snd (am_push x a)) [1, 7, 2, 5 :: nat] am_new) =
     Inr ([7, 5, 1, 2], am_new)"
  by (subst mailbox_priority_fifo) simp_all

text \<open>A parked mailbox reports its first push as the unblocking one, and no later push, so exactly
  one sender is told to schedule the actor.\<close>

theorem parked_mailbox_signals_once:
  assumes "am_try_block a = (True, a1)" and "\<not> am_closed a" and "\<not> am_blocked a"
    and "am_push x a1 = (r1, a2)" and "am_push x' a2 = (r2, a3)"
  shows "r1 = Unblocked_reader \<and> r2 = Success \<and> mset (mb_elems a3) = {#x, x'#}"
  by (rule mbx.first_push_signals [OF assms])

theorem parked_mailbox_signals_once_witness:
  "fst (am_push 1 (snd (am_try_block am_new))) = Unblocked_reader \<and>
   fst (am_push 2 (snd (am_push (1 :: nat) (snd (am_try_block am_new))))) = Success"
  using parked_mailbox_signals_once [of am_new "\<lparr>urgent = [], normal = [], arrivals = Blocked\<rparr>" 1
      Unblocked_reader "\<lparr>urgent = [], normal = [], arrivals = Open [1 :: nat]\<rparr>" 2 Success]
  by (simp add: am_try_block_def am_new_def am_closed_def am_blocked_def am_push_def)

text \<open>Closing frees every message exactly once, wherever it is queued, reports how many there
  were, and leaves a mailbox that is closed and empty.\<close>

theorem mailbox_close_frees_once:
  assumes "mb_rep cmd (b, m) a" and "\<not> am_closed a"
  shows "\<exists>b' m'. mb_close_impl (b, m) = Some (length (mb_elems a), b', m') \<and>
    mb_rep cmd (b', m') \<lparr>urgent = [], normal = [], arrivals = Closed\<rparr> \<and>
    freed m' = freed m @ mb_elems a \<and> distinct (mb_elems a)"
  using mb_close_rep [OF assms] assms(1) by (auto simp: am_close_def mb_rep_def)

theorem mailbox_close_frees_once_witness:
  "\<exists>b' m'. mb_close_impl pushed_example = Some (3, b', m') \<and> freed m' = [30, 20, 10]"
  using mailbox_close_frees_once [of cmd_example "fst pushed_example" "snd pushed_example"
      "\<lparr>urgent = [], normal = [], arrivals = Open [30, 20, 10]\<rparr>"] pushed_example_rep
  by (auto simp: mb_elems_def am_closed_def pushed_example_eq)

end
