(* ===== verification/Resumable.thy ===== *)
theory Resumable
  imports Prelude
begin

text \<open>
  The verdict of a \<open>resume\<close> call, \<open>scheduler/resumable.hpp\<close>, shared by the actor, which
  gives it, and the scheduler's workers, which obey it.
\<close>

datatype resume_result = Resume | Awaiting | Done | Shutdown

record resume_info =
  ri_result :: resume_result
  ri_messages :: nat

end
