(* ===== verification/Actor_Protocol.thy ===== *)
theory Actor_Protocol
  imports State_Word Default_Mailbox Resumable
begin

text \<open>
  \<open>cooperative_actor\<close> of \<open>actor/cooperative_actor.hpp\<close> under every interleaving: any number of
  threads inside \<open>enqueue_impl\<close>, any number of callers of \<open>resume\<close>, and the destructor, over the
  32-bit state word and the actor's mailbox. One step is one atomic access to the word (a
  compare-exchange may fail spuriously) or one mailbox call. \<open>cas_attempt\<close>'s attempt counters are
  left out: exhausting one ends the process.
\<close>

section \<open>Senders: enqueue\_impl\<close>

datatype 'm sender_pc =
  S_start 'm | S_enter 'm actor_state | S_push 'm | S_leave_load 'm enqueue_result
| S_leave 'm enqueue_result actor_state | S_out 'm bool enqueue_result

text \<open>The word \<open>leave_and_maybe_schedule\<close> wants to install, and the obligation to enqueue.\<close>

definition leave_desired :: "bool \<Rightarrow> actor_state \<Rightarrow> actor_state \<times> bool" where
  "leave_desired unblocked_us current =
     (let desired = sub_sender current
      in if unblocked_us \<and> \<not> is_destroying current \<and> \<not> is_scheduled current
         then (set_scheduled desired True, \<not> is_running current)
         else (desired, False))"

fun sender_step ::
  "bool \<Rightarrow> 'm sender_pc \<Rightarrow> actor_state \<Rightarrow> 'm mailbox \<Rightarrow> 'm sender_pc \<times> actor_state \<times> 'm mailbox" where
  "sender_step sp (S_start m) w mb = (S_enter m w, w, mb)"
| "sender_step sp (S_enter m current) w mb =
     (if is_destroying current then (S_out m False Queue_closed, w, mb)
      else if w = current \<and> \<not> sp then (S_push m, add_sender current, mb)
      else (S_enter m w, w, mb))"
| "sender_step sp (S_push m) w mb = (case am_push m mb of (r, mb') \<Rightarrow> (S_leave_load m r, w, mb'))"
| "sender_step sp (S_leave_load m r) w mb = (S_leave m r w, w, mb)"
| "sender_step sp (S_leave m r current) w mb =
     (case leave_desired (r = Unblocked_reader) current of (desired, owes) \<Rightarrow>
        if w = current \<and> \<not> sp then (S_out m owes r, desired, mb) else (S_leave m r w, w, mb))"
| "sender_step sp (S_out m owes r) w mb = (S_out m owes r, w, mb)"

section \<open>Drivers: resume\<close>

text \<open>
  \<open>D_start\<close> and \<open>D_acquire\<close> carry whether the caller redeems an obligation; the numbers are
  \<open>handled\<close>. From \<open>D_entry_destroying\<close> to \<open>D_guard\<close> the driver holds \<open>running\<close>.
\<close>

datatype 'm driver_pc =
  D_start bool | D_acquire bool actor_state
| D_entry_destroying | D_entry_closed | D_unblock
| D_entry_busy | D_entry_recheck | D_entry_blocked | D_entry_empty
| D_loop nat | D_loop_closed nat | D_loop_blocked nat | D_loop_busy nat | D_loop_recheck nat
| D_pop nat | D_behave nat 'm | D_none nat
| D_end_closed nat | D_end_busy nat
| D_park nat | D_park_race nat | D_park_empty nat
| D_guard_load resume_result nat bool | D_guard resume_result nat bool actor_state bool
| D_out resume_result nat | D_fault fault

text \<open>What the environment decides: user coroutines and spurious failures.\<close>

record choice =
  spurious :: bool
  awaited_ready :: bool
  busy_after_resume :: bool
  busy_after_behavior :: bool

text \<open>\<open>empty()\<close> is \<open>size() == 0\<close>, and \<open>size\<close> fetches first.\<close>

definition am_empty :: "('m \<Rightarrow> bool) \<Rightarrow> 'm mailbox \<Rightarrow> (bool \<times> 'm mailbox) outcome" where
  "am_empty hp mb =
     map_sum id (\<lambda>(_, mb'). (urgent mb' = [] \<and> normal mb' = [], mb')) (am_fetch hp mb)"

record 'm actor_sys =
  state_word :: actor_state
  mbox :: "'m mailbox"
  busy :: bool
  handled_log :: "'m list"
  skipped_log :: "'m list"

text \<open>
  \<open>handled_log\<close> and \<open>skipped_log\<close> are ghosts: the messages a behavior was started on, and those that
  \<open>resume\<close> counted and destroyed unhandled because the actor was already being destroyed.
\<close>

definition released_result :: "resume_result \<Rightarrow> bool \<Rightarrow> resume_result" where
  "released_result result scheduled_while_running =
     (if result = Awaiting \<and> scheduled_while_running then Resume else result)"

text \<open>The lambda \<open>try_acquire_running\<close>: a held \<open>running\<close> is marked for a re-run instead.\<close>

definition try_acquire_step ::
  "choice \<Rightarrow> bool \<Rightarrow> actor_state \<Rightarrow> 'm actor_sys \<Rightarrow> 'm driver_pc \<times> 'm actor_sys" where
  "try_acquire_step ch tok current a =
     (if state_word a = current \<and> \<not> spurious ch
      then (if is_running current
            then (D_out Awaiting 0, a\<lparr>state_word := set_scheduled current True\<rparr>)
            else (D_entry_destroying,
                  a\<lparr>state_word := set_scheduled (set_running current True) False\<rparr>))
      else (D_acquire tok (state_word a), a))"

text \<open>One round of the compare-exchange loop of \<open>~resume_guard\<close>.\<close>

definition release_step ::
  "choice \<Rightarrow> resume_result \<Rightarrow> nat \<Rightarrow> bool \<Rightarrow> actor_state \<Rightarrow> bool \<Rightarrow> 'm actor_sys \<Rightarrow>
     'm driver_pc \<times> 'm actor_sys" where
  "release_step ch res h keep current swr a =
     (if \<not> is_running current then (D_fault Assertion_failed, a)
      else if state_word a = current \<and> \<not> spurious ch
      then (D_out (released_result res swr) h,
            a\<lparr>state_word := set_scheduled (set_running current False) (keep \<or> is_scheduled current)\<rparr>)
      else (D_guard res h keep (state_word a) (swr \<or> is_scheduled (state_word a)), a))"

text \<open>\<open>park\<close> up to its \<open>try_block\<close>.\<close>

definition park_step :: "nat \<Rightarrow> 'm actor_sys \<Rightarrow> 'm driver_pc \<times> 'm actor_sys" where
  "park_step h a =
     (if busy a then (D_fault Assertion_failed, a)
      else case am_try_block (mbox a) of
        (True, mb) \<Rightarrow> (D_park_race h, a\<lparr>mbox := mb\<rparr>)
      | (False, mb) \<Rightarrow> (D_guard_load Resume h True, a\<lparr>mbox := mb\<rparr>))"

declare try_acquire_step_def [simp] release_step_def [simp] park_step_def [simp]

fun driver_step ::
  "('m \<Rightarrow> bool) \<Rightarrow> nat \<Rightarrow> choice \<Rightarrow> 'm driver_pc \<Rightarrow> 'm actor_sys \<Rightarrow> 'm driver_pc \<times> 'm actor_sys" where
  "driver_step hp mx ch (D_start tok) a =
     (if mx = 0 then D_fault Assertion_failed else D_acquire tok (state_word a), a)"
| "driver_step hp mx ch (D_acquire tok current) a = try_acquire_step ch tok current a"
| "driver_step hp mx ch D_entry_destroying a =
     (if is_destroying (state_word a) then D_guard_load Done 0 False else D_entry_closed, a)"
| "driver_step hp mx ch D_entry_closed a =
     (if am_closed (mbox a) then D_guard_load Done 0 False else D_unblock, a)"
| "driver_step hp mx ch D_unblock a =
     (if is_running (state_word a)
      then (D_entry_busy, a\<lparr>mbox := snd (am_try_unblock (mbox a))\<rparr>)
      else (D_fault Assertion_failed, a))"
| "driver_step hp mx ch D_entry_busy a =
     (if busy a
      then (D_entry_recheck, a\<lparr>busy := (if awaited_ready ch then busy_after_resume ch else True)\<rparr>)
      else (D_entry_blocked, a))"
| "driver_step hp mx ch D_entry_recheck a =
     (if busy a then D_guard_load Resume 0 True else D_entry_blocked, a)"
| "driver_step hp mx ch D_entry_blocked a =
     (if am_blocked (mbox a) then D_guard_load Awaiting 0 False else D_entry_empty, a)"
| "driver_step hp mx ch D_entry_empty a =
     (case am_empty hp (mbox a) of
        Inl f \<Rightarrow> (D_fault f, a)
      | Inr (e, mb) \<Rightarrow> (if e then D_park 0 else D_loop 0, a\<lparr>mbox := mb\<rparr>))"
| "driver_step hp mx ch (D_loop h) a =
     (if h < mx
      then (if is_destroying (state_word a) then D_guard_load Done h False else D_loop_closed h)
      else D_end_closed h, a)"
| "driver_step hp mx ch (D_loop_closed h) a =
     (if am_closed (mbox a) then D_guard_load Done h False else D_loop_blocked h, a)"
| "driver_step hp mx ch (D_loop_blocked h) a =
     (if am_blocked (mbox a) then D_guard_load Awaiting h False else D_loop_busy h, a)"
| "driver_step hp mx ch (D_loop_busy h) a =
     (if busy a
      then (if awaited_ready ch
            then (D_loop_recheck h, a\<lparr>busy := busy_after_resume ch\<rparr>)
            else (D_guard_load Resume h True, a))
      else (D_loop_recheck h, a))"
| "driver_step hp mx ch (D_loop_recheck h) a =
     (if busy a then D_guard_load Resume h True else D_pop h, a)"
| "driver_step hp mx ch (D_pop h) a =
     (case am_pop hp (mbox a) of
        Inl f \<Rightarrow> (D_fault f, a)
      | Inr (None, mb) \<Rightarrow> (D_none h, a\<lparr>mbox := mb\<rparr>)
      | Inr (Some m, mb) \<Rightarrow> (D_behave h m, a\<lparr>mbox := mb\<rparr>))"
| "driver_step hp mx ch (D_behave h m) a =
     (D_loop (h + 1),
      if is_destroying (state_word a) then a\<lparr>skipped_log := skipped_log a @ [m]\<rparr>
      else a\<lparr>busy := busy_after_behavior ch, handled_log := handled_log a @ [m]\<rparr>)"
| "driver_step hp mx ch (D_none h) a =
     (if am_closed (mbox a) then D_guard_load Done h False else D_park h, a)"
| "driver_step hp mx ch (D_end_closed h) a =
     (if am_closed (mbox a) then D_guard_load Done h False else D_end_busy h, a)"
| "driver_step hp mx ch (D_end_busy h) a =
     (if busy a then D_guard_load Resume h True else D_park h, a)"
| "driver_step hp mx ch (D_park h) a = park_step h a"
| "driver_step hp mx ch (D_park_race h) a =
     (if am_blocked (mbox a) then D_guard_load Awaiting h False else D_park_empty h, a)"
| "driver_step hp mx ch (D_park_empty h) a =
     (case am_empty hp (mbox a) of
        Inl f \<Rightarrow> (D_fault f, a)
      | Inr (e, mb) \<Rightarrow>
          (if e then D_guard_load Awaiting h False else D_guard_load Resume h True, a\<lparr>mbox := mb\<rparr>))"
| "driver_step hp mx ch (D_guard_load res h keep) a =
     (D_guard res h keep (state_word a) (is_scheduled (state_word a)), a)"
| "driver_step hp mx ch (D_guard res h keep current swr) a = release_step ch res h keep current swr a"
| "driver_step hp mx ch (D_out res h) a = (D_out res h, a)"
| "driver_step hp mx ch (D_fault f) a = (D_fault f, a)"

section \<open>The destructor\<close>

datatype destroyer_pc =
  X_alive | X_publish actor_state | X_wait | X_terminal_load | X_terminal actor_state | X_dead
| X_fault

text \<open>\<open>X_wait\<close> is one evaluation of the \<open>busy\<close> test; the timeout ends the process.\<close>

fun destroyer_step :: "bool \<Rightarrow> destroyer_pc \<Rightarrow> actor_state \<Rightarrow> destroyer_pc \<times> actor_state" where
  "destroyer_step sp X_alive w = (X_publish w, w)"
| "destroyer_step sp (X_publish current) w =
     (if is_destroying current then (X_wait, w)
      else if w = current \<and> \<not> sp then (X_wait, set_destroying current)
      else (X_publish w, w))"
| "destroyer_step sp X_wait w =
     (if is_running w \<or> sender_count w \<noteq> 0 then X_wait else X_terminal_load, w)"
| "destroyer_step sp X_terminal_load w = (X_terminal w, w)"
| "destroyer_step sp (X_terminal current) w =
     (if is_running current \<or> sender_count current \<noteq> 0 then (X_fault, w)
      else if w = current \<and> \<not> sp then (X_dead, make_state False False True)
      else (X_terminal w, w))"
| "destroyer_step sp X_dead w = (X_dead, w)"
| "destroyer_step sp X_fault w = (X_fault, w)"

section \<open>The actor and its threads\<close>

record 'm actor_world =
  actor :: "'m actor_sys"
  senders :: "'m sender_pc list"
  drivers :: "'m driver_pc list"
  destroyer :: destroyer_pc

text \<open>The constructor blocks the fresh mailbox.\<close>

definition actor_init :: "'m actor_world" where
  "actor_init = \<lparr>actor = \<lparr>state_word = st_idle, mbox = snd (am_try_block am_new), busy = False,
                           handled_log = [], skipped_log = []\<rparr>,
                 senders = [], drivers = [], destroyer = X_alive\<rparr>"

fun s_active :: "'m sender_pc \<Rightarrow> bool" where
  "s_active (S_out m owes r) \<longleftrightarrow> False"
| "s_active _ \<longleftrightarrow> True"

fun drained :: "destroyer_pc \<Rightarrow> bool" where
  "drained X_terminal_load \<longleftrightarrow> True"
| "drained (X_terminal c) \<longleftrightarrow> True"
| "drained X_dead \<longleftrightarrow> True"
| "drained _ \<longleftrightarrow> False"

text \<open>The destructor has published \<open>destroying\<close>.\<close>

fun destruction_begun :: "destroyer_pc \<Rightarrow> bool" where
  "destruction_begun X_alive \<longleftrightarrow> False"
| "destruction_begun (X_publish c) \<longleftrightarrow> False"
| "destruction_begun _ \<longleftrightarrow> True"

fun acquiring :: "'m driver_pc \<Rightarrow> bool" where
  "acquiring (D_acquire tok c) \<longleftrightarrow> True"
| "acquiring _ \<longleftrightarrow> False"

text \<open>
  \<open>ext\<close>: whether \<open>resume\<close> is also called by someone who was not told to. The caller's side of the
  contract is in the guards: fewer than \<open>2 ^ 29\<close> sends at a time, a positive limit for \<open>resume\<close>, which
  asserts it, and no call of \<open>resume\<close> that starts after the destructor has seen the actor quiet. Redeeming is the caller enqueueing the
  actor as it was told to.
\<close>

inductive actor_step ::
  "bool \<Rightarrow> ('m \<Rightarrow> bool) \<Rightarrow> nat \<Rightarrow> 'm actor_world \<Rightarrow> 'm actor_world \<Rightarrow> bool"
  for ext hp mx where
  send: "count_if s_active (senders y) < max_senders \<Longrightarrow> destroyer y \<noteq> X_dead \<Longrightarrow>
     actor_step ext hp mx y (y\<lparr>senders := senders y @ [S_start m]\<rparr>)"
| sender: "i < length (senders y) \<Longrightarrow>
     sender_step sp (senders y ! i) (state_word (actor y)) (mbox (actor y)) = (pc', w', mb') \<Longrightarrow>
     actor_step ext hp mx y (y\<lparr>senders := (senders y)[i := pc'],
                               actor := (actor y)\<lparr>state_word := w', mbox := mb'\<rparr>\<rparr>)"
| call_resume: "ext \<Longrightarrow> actor_step ext hp mx y (y\<lparr>drivers := drivers y @ [D_start False]\<rparr>)"
| drive: "i < length (drivers y) \<Longrightarrow> \<not> (drained (destroyer y) \<and> acquiring (drivers y ! i)) \<Longrightarrow> 0 < mx \<Longrightarrow>
     driver_step hp mx ch (drivers y ! i) (actor y) = (pc', a') \<Longrightarrow>
     actor_step ext hp mx y (y\<lparr>drivers := (drivers y)[i := pc'], actor := a'\<rparr>)"
| redeem_send: "i < length (senders y) \<Longrightarrow> senders y ! i = S_out m True r \<Longrightarrow>
     actor_step ext hp mx y (y\<lparr>senders := (senders y)[i := S_out m False r],
                               drivers := drivers y @ [D_start True]\<rparr>)"
| redeem_resume: "i < length (drivers y) \<Longrightarrow> drivers y ! i = D_out Resume h \<Longrightarrow>
     actor_step ext hp mx y (y\<lparr>drivers := (drivers y)[i := D_start True]\<rparr>)"
| destroy: "destroyer_step sp (destroyer y) (state_word (actor y)) = (x', w') \<Longrightarrow>
     actor_step ext hp mx y (y\<lparr>destroyer := x', actor := (actor y)\<lparr>state_word := w'\<rparr>\<rparr>)"

inductive actor_reachable :: "bool \<Rightarrow> ('m \<Rightarrow> bool) \<Rightarrow> nat \<Rightarrow> 'm actor_world \<Rightarrow> bool"
  for ext hp mx where
  init: "actor_reachable ext hp mx actor_init"
| step: "actor_reachable ext hp mx y \<Longrightarrow> actor_step ext hp mx y z \<Longrightarrow> actor_reachable ext hp mx z"

section \<open>The invariant\<close>

fun s_registered :: "'m sender_pc \<Rightarrow> bool" where
  "s_registered (S_push m) \<longleftrightarrow> True"
| "s_registered (S_leave_load m r) \<longleftrightarrow> True"
| "s_registered (S_leave m r c) \<longleftrightarrow> True"
| "s_registered _ \<longleftrightarrow> False"

fun s_unblocks :: "'m sender_pc \<Rightarrow> bool" where
  "s_unblocks (S_leave_load m r) \<longleftrightarrow> r = Unblocked_reader"
| "s_unblocks (S_leave m r c) \<longleftrightarrow> r = Unblocked_reader"
| "s_unblocks _ \<longleftrightarrow> False"

fun s_owes :: "'m sender_pc \<Rightarrow> bool" where
  "s_owes (S_out m owes r) \<longleftrightarrow> owes"
| "s_owes _ \<longleftrightarrow> False"

fun d_token :: "'m driver_pc \<Rightarrow> bool" where
  "d_token (D_start tok) \<longleftrightarrow> tok"
| "d_token (D_acquire tok c) \<longleftrightarrow> tok"
| "d_token (D_out res h) \<longleftrightarrow> res = Resume"
| "d_token _ \<longleftrightarrow> False"

fun d_external :: "'m driver_pc \<Rightarrow> bool" where
  "d_external (D_start tok) \<longleftrightarrow> \<not> tok"
| "d_external (D_acquire tok c) \<longleftrightarrow> \<not> tok"
| "d_external _ \<longleftrightarrow> False"

fun d_critical :: "'m driver_pc \<Rightarrow> bool" where
  "d_critical (D_start tok) \<longleftrightarrow> False"
| "d_critical (D_acquire tok c) \<longleftrightarrow> False"
| "d_critical (D_out res h) \<longleftrightarrow> False"
| "d_critical (D_fault f) \<longleftrightarrow> False"
| "d_critical _ \<longleftrightarrow> True"

text \<open>Outstanding obligations to put the actor into a job queue.\<close>

definition tokens :: "'m actor_world \<Rightarrow> nat" where
  "tokens y = count_if s_owes (senders y) + count_if d_token (drivers y)"

text \<open>Why an actor at rest is not forgotten.\<close>

definition wake :: "'m actor_world \<Rightarrow> bool \<Rightarrow> bool \<Rightarrow> bool" where
  "wake y s d \<longleftrightarrow> am_blocked (mbox (actor y)) \<or> s \<or> d \<or> 0 < count_if s_unblocks (senders y)"

definition guard_ok :: "bool \<Rightarrow> bool \<Rightarrow> resume_result \<Rightarrow> bool \<Rightarrow> bool" where
  "guard_ok d wk res keep \<longleftrightarrow>
     (res = Resume) = keep \<and> (res = Done \<longrightarrow> d) \<and> (res = Awaiting \<longrightarrow> wk) \<and> res \<noteq> Shutdown"

fun drv_ok :: "bool \<Rightarrow> bool \<Rightarrow> bool \<Rightarrow> bool \<Rightarrow> bool \<Rightarrow> 'm driver_pc \<Rightarrow> bool" where
  "drv_ok s d bl wk bz (D_guard_load res h keep) \<longleftrightarrow> guard_ok d wk res keep"
| "drv_ok s d bl wk bz (D_guard res h keep c swr) \<longleftrightarrow>
     guard_ok d wk res keep \<and> is_running c \<and> (is_scheduled c \<longrightarrow> swr) \<and> (swr \<longrightarrow> s)"
| "drv_ok s d bl wk bz (D_fault f) \<longleftrightarrow> False"
| "drv_ok s d bl wk bz (D_park_race h) \<longleftrightarrow> wk"
| "drv_ok s d bl wk bz (D_park_empty h) \<longleftrightarrow> \<not> bl \<and> wk"
| "drv_ok s d bl wk bz D_entry_blocked \<longleftrightarrow> \<not> bl \<and> \<not> bz"
| "drv_ok s d bl wk bz D_entry_empty \<longleftrightarrow> \<not> bl \<and> \<not> bz"
| "drv_ok s d bl wk bz (D_pop h) \<longleftrightarrow> \<not> bl \<and> \<not> bz"
| "drv_ok s d bl wk bz (D_none h) \<longleftrightarrow> \<not> bl \<and> \<not> bz"
| "drv_ok s d bl wk bz (D_park h) \<longleftrightarrow> \<not> bl \<and> \<not> bz"
| "drv_ok s d bl wk bz (D_start t) \<longleftrightarrow> True"
| "drv_ok s d bl wk bz (D_acquire t c) \<longleftrightarrow> True"
| "drv_ok s d bl wk bz D_entry_destroying \<longleftrightarrow> True"
| "drv_ok s d bl wk bz D_entry_closed \<longleftrightarrow> True"
| "drv_ok s d bl wk bz D_unblock \<longleftrightarrow> True"
| "drv_ok s d bl wk bz (D_out res h) \<longleftrightarrow> res \<noteq> Shutdown"
| "drv_ok s d bl wk bz _ \<longleftrightarrow> \<not> bl"

definition single_token :: "'m actor_world \<Rightarrow> bool \<Rightarrow> bool \<Rightarrow> bool" where
  "single_token y s r \<longleftrightarrow> tokens y + of_bool r \<le> 1 \<and>
     (0 < tokens y \<longrightarrow> \<not> drained (destroyer y) \<longrightarrow> s) \<and> count_if d_external (drivers y) = 0"

fun destroyer_ok :: "destroyer_pc \<Rightarrow> nat \<Rightarrow> bool \<Rightarrow> bool \<Rightarrow> bool" where
  "destroyer_ok X_alive n r d \<longleftrightarrow> \<not> d"
| "destroyer_ok (X_publish c) n r d \<longleftrightarrow> \<not> d \<and> \<not> is_destroying c"
| "destroyer_ok X_wait n r d \<longleftrightarrow> d"
| "destroyer_ok X_terminal_load n r d \<longleftrightarrow> d \<and> \<not> r \<and> n = 0"
| "destroyer_ok (X_terminal c) n r d \<longleftrightarrow> d \<and> \<not> r \<and> n = 0 \<and> \<not> is_running c \<and> sender_count c = 0"
| "destroyer_ok X_dead n r d \<longleftrightarrow> d \<and> \<not> r \<and> n = 0"
| "destroyer_ok X_fault n r d \<longleftrightarrow> False"

lemma not_begun: "destroyer_ok x n r d \<Longrightarrow> \<not> destruction_begun x \<Longrightarrow> \<not> d"
  by (cases x) simp_all

definition protocol_inv :: "bool \<Rightarrow> 'm actor_world \<Rightarrow> bool \<Rightarrow> bool \<Rightarrow> bool \<Rightarrow> bool" where
  "protocol_inv ext y s r d \<longleftrightarrow>
     state_word (actor y) = actor_word s r d (count_if s_registered (senders y)) \<and>
     count_if s_active (senders y) \<le> max_senders \<and>
     count_if d_critical (drivers y) = of_bool r \<and>
     arrivals (mbox (actor y)) \<noteq> Closed \<and>
     (\<forall>p \<in> set (drivers y).
        drv_ok s d (am_blocked (mbox (actor y))) (wake y s d) (busy (actor y)) p) \<and>
     (\<not> r \<longrightarrow> wake y s d) \<and> (s \<longrightarrow> \<not> r \<longrightarrow> \<not> d \<longrightarrow> 0 < tokens y) \<and>
     (\<not> ext \<longrightarrow> single_token y s r) \<and>
     destroyer_ok (destroyer y) (count_if s_registered (senders y)) r d"

section \<open>Facts about the mailbox the protocol uses\<close>

lemma am_push_open:
  assumes "am_push m mb = (r, mb')" and "arrivals mb \<noteq> Closed"
  shows "arrivals mb' \<noteq> Closed \<and> \<not> am_blocked mb' \<and> (r = Unblocked_reader) = am_blocked mb \<and>
    r \<noteq> Queue_closed"
  using mbx.push_open [OF assms(1)] assms(2) by (auto simp: am_closed_def)

lemma am_empty_ok:
  assumes "arrivals mb \<noteq> Closed" and "\<not> am_blocked mb"
  shows "\<exists>mb'. am_empty hp mb = Inr (urgent mb' = [] \<and> normal mb' = [], mb') \<and> arrivals mb' = Open []"
  using assms by (cases "arrivals mb") (auto simp: am_empty_def am_fetch_def am_blocked_def)

lemma am_pop_ok:
  assumes "arrivals mb \<noteq> Closed" and "\<not> am_blocked mb"
  shows "\<exists>r mb'. am_pop hp mb = Inr (r, mb') \<and> arrivals mb' \<noteq> Closed \<and> \<not> am_blocked mb'"
  using mbx.pop_open [of mb hp] assms by (auto simp: am_closed_def)

lemma am_try_unblock_opens:
  "arrivals mb \<noteq> Closed \<Longrightarrow> arrivals (snd (am_try_unblock mb)) \<noteq> Closed \<and>
     \<not> am_blocked (snd (am_try_unblock mb))"
  using mbx.unblock_open [of mb "fst (am_try_unblock mb)" "snd (am_try_unblock mb)"]
  by (simp add: am_closed_def)

lemma am_try_block_result:
  assumes "am_try_block mb = (b, mb')" and "arrivals mb \<noteq> Closed" and "\<not> am_blocked mb"
  shows "arrivals mb' \<noteq> Closed \<and> am_blocked mb' = b"
  using mbx.block_open [OF assms(1)] assms(2,3) by (simp add: am_closed_def)

section \<open>Every step keeps it\<close>

lemma drv_ok_mono:
  assumes "drv_ok s d bl wk bz p" and "s \<longrightarrow> s'" and "d \<longrightarrow> d'" and "bl' \<longrightarrow> bl" and "wk \<longrightarrow> wk'"
  shows "drv_ok s' d' bl' wk' bz p"
  using assms by (cases p) (auto simp: guard_ok_def)

lemma leave_desired_word:
  "leave_desired u (actor_word s r d (Suc n)) =
     (if u \<and> \<not> d \<and> \<not> s then (actor_word True r d n, \<not> r) else (actor_word s r d n, False))"
  by (simp add: leave_desired_def Let_def)

text \<open>What one sender's access does to the word, the mailbox and the counts it is part of.\<close>

lemma sender_step_effect:
  assumes st: "sender_step sp pc (actor_word s r d n) mb = (pc', w', mb')"
    and reg: "s_registered pc \<longrightarrow> 0 < n" and opn: "arrivals mb \<noteq> Closed"
  shows "\<exists>s'. w' = actor_word s' r d (n + of_bool (s_registered pc') - of_bool (s_registered pc)) \<and>
    (s \<longrightarrow> s') \<and> arrivals mb' \<noteq> Closed \<and> (am_blocked mb' \<longrightarrow> am_blocked mb) \<and>
    (s_active pc' \<longrightarrow> s_active pc) \<and> (s_registered pc' \<longrightarrow> \<not> s_registered pc \<longrightarrow> \<not> d) \<and>
    (am_blocked mb \<longrightarrow> \<not> am_blocked mb' \<longrightarrow> s_unblocks pc' \<and> \<not> s_unblocks pc) \<and>
    (s_unblocks pc \<longrightarrow> \<not> s_unblocks pc' \<longrightarrow> s' \<or> d) \<and>
    (s' \<and> \<not> s \<and> \<not> r \<longrightarrow> s_owes pc' \<and> \<not> s_owes pc) \<and>
    (s_owes pc' \<longrightarrow> s_owes pc \<or> \<not> s \<and> s' \<and> \<not> r) \<and> (s_owes pc \<longrightarrow> s_owes pc')"
proof (cases pc)
  case (S_start m)
  with st opn show ?thesis by auto
next
  case (S_enter m c)
  then consider "is_destroying c" "w' = actor_word s r d n" "pc' = S_out m False Queue_closed" "mb' = mb"
    | "\<not> d" "w' = actor_word s r d (Suc n)" "pc' = S_push m" "mb' = mb"
    | "w' = actor_word s r d n" "pc' = S_enter m (actor_word s r d n)" "mb' = mb"
    using st by (auto split: if_splits)
  then show ?thesis using S_enter opn by cases auto
next
  case (S_push m)
  then obtain e where "am_push m mb = (e, mb')" "pc' = S_leave_load m e" "w' = actor_word s r d n"
    using st by (auto split: prod.splits)
  with am_push_open [OF this(1) opn] S_push reg show ?thesis by auto
next
  case (S_leave_load m e)
  with st opn reg show ?thesis by auto
next
  case (S_leave m e c)
  obtain k where k: "n = Suc k" using reg S_leave by (cases n) auto
  consider "w' = actor_word s r d n" "pc' = S_leave m e (actor_word s r d n)" "mb' = mb"
    | "e = Unblocked_reader" "\<not> d" "\<not> s" "w' = actor_word True r d k" "pc' = S_out m (\<not> r) e" "mb' = mb"
    | "e \<noteq> Unblocked_reader \<or> d \<or> s" "w' = actor_word s r d k" "pc' = S_out m False e" "mb' = mb"
    using st S_leave k leave_desired_word [of "e = Unblocked_reader" s r d k]
    by (auto split: if_splits prod.splits)
  then show ?thesis using S_leave opn k by cases auto
next
  case (S_out m ow e)
  with st opn show ?thesis by auto
qed

lemma sender_owes_registered:
  assumes "sender_step sp pc w mb = (pc', w', mb')" and "s_owes pc'" and "\<not> s_owes pc"
  shows "s_registered pc"
  using assms by (cases pc) (auto split: if_splits prod.splits)

definition actor_inv :: "bool \<Rightarrow> 'm actor_world \<Rightarrow> bool" where
  "actor_inv ext y \<longleftrightarrow> (\<exists>s r d. protocol_inv ext y s r d)"

lemma actor_invI: "protocol_inv ext y s r d \<Longrightarrow> actor_inv ext y"
  by (auto simp: actor_inv_def)

lemma destroyer_ok_senders:
  assumes "destroyer_ok x n r d" and "n' \<le> n \<or> \<not> d"
  shows "destroyer_ok x n' r d"
  using assms by (cases x) auto

lemma sender_keeps:
  assumes inv: "protocol_inv ext y s r d" and i: "i < length (senders y)"
    and st: "sender_step sp (senders y ! i) (state_word (actor y)) (mbox (actor y)) = (pc', w', mb')"
  shows "actor_inv ext (y\<lparr>senders := (senders y)[i := pc'],
      actor := (actor y)\<lparr>state_word := w', mbox := mb'\<rparr>\<rparr>)"
proof -
  let ?pc = "senders y ! i" and ?n = "count_if s_registered (senders y)" and ?mb = "mbox (actor y)"
  let ?y = "y\<lparr>senders := (senders y)[i := pc'], actor := (actor y)\<lparr>state_word := w', mbox := mb'\<rparr>\<rparr>"
  have w: "state_word (actor y) = actor_word s r d ?n" and opn: "arrivals ?mb \<noteq> Closed"
    using inv by (auto simp: protocol_inv_def)
  have reg: "s_registered ?pc \<longrightarrow> 0 < ?n" using count_if_pos [OF i] by blast
  obtain s' where e: "w' = actor_word s' r d (?n + of_bool (s_registered pc') - of_bool (s_registered ?pc))"
    "s \<longrightarrow> s'" "arrivals mb' \<noteq> Closed" "am_blocked mb' \<longrightarrow> am_blocked ?mb"
    "s_active pc' \<longrightarrow> s_active ?pc" "s_registered pc' \<longrightarrow> \<not> s_registered ?pc \<longrightarrow> \<not> d"
    "am_blocked ?mb \<longrightarrow> \<not> am_blocked mb' \<longrightarrow> s_unblocks pc' \<and> \<not> s_unblocks ?pc"
    "s_unblocks ?pc \<longrightarrow> \<not> s_unblocks pc' \<longrightarrow> s' \<or> d"
    "s' \<and> \<not> s \<and> \<not> r \<longrightarrow> s_owes pc' \<and> \<not> s_owes ?pc"
    "s_owes pc' \<longrightarrow> s_owes ?pc \<or> \<not> s \<and> s' \<and> \<not> r" "s_owes ?pc \<longrightarrow> s_owes pc'"
    using sender_step_effect [OF st [unfolded w] reg opn] by (elim exE conjE) (rule that; assumption)
  note cnt = count_if_update_eq [OF i, of _ pc']
  have "0 < count_if s_unblocks (senders y) \<longrightarrow> s_unblocks ?pc \<or> 0 < count_if s_unblocks (senders ?y)"
    using cnt [of s_unblocks] by auto
  moreover have "s_unblocks pc' \<longrightarrow> 0 < count_if s_unblocks (senders ?y)"
    using count_if_pos [of i "(senders y)[i := pc']" s_unblocks] i by auto
  ultimately have wk: "wake y s d \<longrightarrow> wake ?y s' d"
    using e(2,7,8) by (auto simp: wake_def)
  have tk: "tokens ?y = tokens y + of_bool (s_owes pc' \<and> \<not> s_owes ?pc)"
    using cnt [of s_owes] e(11) count_if_pos [OF i, of s_owes] by (auto simp: tokens_def)
  have act: "count_if s_active (senders ?y) \<le> max_senders"
    using inv e(5) cnt [of s_active] count_if_pos [OF i, of s_active] by (auto simp: protocol_inv_def)
  have n': "count_if s_registered (senders ?y) = ?n + of_bool (s_registered pc') - of_bool (s_registered ?pc)"
    using cnt [of s_registered] by simp
  have dest: "destroyer_ok (destroyer y) (count_if s_registered (senders ?y)) r d"
    by (rule destroyer_ok_senders [of _ ?n])
      (use inv e(6) n' in \<open>auto simp: protocol_inv_def\<close>)
  have "\<forall>p \<in> set (drivers y). drv_ok s' d (am_blocked mb') (wake ?y s' d) (busy (actor y)) p"
    using inv e(2,4) wk by (auto simp: protocol_inv_def intro: drv_ok_mono)
  moreover have "s' \<longrightarrow> \<not> r \<longrightarrow> \<not> d \<longrightarrow> 0 < tokens ?y"
    using inv e(9) tk by (auto simp: protocol_inv_def)
  moreover have "single_token ?y s' r" if "\<not> ext"
  proof -
    have sg: "single_token y s r" using inv that by (simp add: protocol_inv_def)
    have nd: "\<not> drained (destroyer y)" if "s_owes pc' \<and> \<not> s_owes ?pc"
    proof -
      have "s_registered ?pc"
        using sender_owes_registered [OF st] that by blast
      then have "0 < ?n" using reg by simp
      then show ?thesis using inv by (cases "destroyer y") (auto simp: protocol_inv_def)
    qed
    show ?thesis using sg tk e(2,10) nd by (auto simp: single_token_def)
  qed
  moreover have "\<not> r \<longrightarrow> wake ?y s' d" using inv wk by (simp add: protocol_inv_def)
  moreover have "w' = actor_word s' r d (count_if s_registered (senders ?y))"
    using e(1) n' by simp
  ultimately have "protocol_inv ext ?y s' r d"
    using inv e(3) act dest unfolding protocol_inv_def by simp
  then show ?thesis by (rule actor_invI)
qed

text \<open>
  The same for a driver: \<open>ow\<close> says whether some sender still owes the actor a schedule. The
  right-hand side names the flags after the step.
\<close>

definition driver_effect ::
  "bool \<Rightarrow> bool \<Rightarrow> bool \<Rightarrow> nat \<Rightarrow> bool \<Rightarrow> 'm driver_pc \<Rightarrow> 'm actor_sys \<Rightarrow> 'm driver_pc \<Rightarrow> 'm actor_sys \<Rightarrow>
     bool \<Rightarrow> bool \<Rightarrow> bool" where
  "driver_effect s r d n ow pc a pc' a' s' r' \<longleftrightarrow>
     state_word a' = actor_word s' r' d n \<and> arrivals (mbox a') \<noteq> Closed \<and>
     r' = (r \<and> \<not> d_critical pc \<or> d_critical pc') \<and> (r' \<longrightarrow> r \<or> acquiring pc) \<and>
     (d_critical pc' \<longrightarrow> d_critical pc \<or> \<not> r) \<and>
     drv_ok s' d (am_blocked (mbox a')) (am_blocked (mbox a') \<or> s' \<or> d \<or> ow) (busy a') pc' \<and>
     (\<not> d_critical pc \<longrightarrow> mbox a' = mbox a \<and> busy a' = busy a \<and> (r \<longrightarrow> s \<longrightarrow> s')) \<and>
     (\<not> r' \<longrightarrow> am_blocked (mbox a') \<or> s' \<or> d \<or> ow) \<and>
     (s' \<longrightarrow> \<not> r' \<longrightarrow> \<not> d \<longrightarrow> d_token pc' \<or> s \<and> \<not> r \<and> \<not> d_token pc) \<and>
     (d_token pc' \<longrightarrow> d_token pc \<or> s' \<and> d_critical pc \<and> \<not> r') \<and>
     (s \<longrightarrow> \<not> s' \<longrightarrow> (d_token pc \<or> d_external pc) \<and> \<not> d_token pc') \<and>
     (d_critical pc' \<longrightarrow> \<not> d_token pc') \<and> (d_external pc' \<longrightarrow> d_external pc)"

lemma driver_step_effect:
  assumes st: "driver_step hp mx ch pc a = (pc', a')" and mx: "0 < mx" and w: "state_word a = actor_word s r d n"
    and opn: "arrivals (mbox a) \<noteq> Closed" and crit: "d_critical pc \<longrightarrow> r"
    and ok: "drv_ok s d (am_blocked (mbox a)) (am_blocked (mbox a) \<or> s \<or> d \<or> ow) (busy a) pc"
    and idle: "\<not> r \<longrightarrow> am_blocked (mbox a) \<or> s \<or> d \<or> ow"
  shows "driver_effect s r d n ow pc a pc' a' (is_scheduled (state_word a')) (is_running (state_word a'))"
proof (cases pc)
  case (D_start t)
  with assms show ?thesis by (auto simp: driver_effect_def)
next
  case (D_acquire t c)
  consider "pc' = D_acquire t (state_word a)" "a' = a"
    | "r" "pc' = D_out Awaiting 0" "a' = a\<lparr>state_word := actor_word True r d n\<rparr>"
    | "\<not> r" "pc' = D_entry_destroying" "a' = a\<lparr>state_word := actor_word False True d n\<rparr>"
    using st D_acquire by (auto simp: w split: if_splits)
  then show ?thesis using assms D_acquire by cases (auto simp: driver_effect_def)
next
  case (D_guard res h keep c swr)
  have c: "is_running c" using ok D_guard by simp
  show ?thesis
  proof (cases "state_word a = c \<and> \<not> spurious ch")
    case True
    then have "pc' = D_out (released_result res swr) h"
      "a' = a\<lparr>state_word := actor_word (keep \<or> s) False d n\<rparr>"
      using st D_guard c by (auto simp: w)
    note out = this
    have sc: "is_scheduled c = s" using True w by (metis is_scheduled_word)
    have "swr = s" and g: "guard_ok d (am_blocked (mbox a) \<or> s \<or> d \<or> ow) res keep" and r
      using ok crit sc unfolding D_guard by auto
    with opn show ?thesis
      unfolding out by (cases res; simp add: driver_effect_def guard_ok_def released_result_def D_guard)
  next
    case False
    then have "pc' = D_guard res h keep (state_word a) (swr \<or> is_scheduled (state_word a))" "a' = a"
      using st D_guard c by auto
    with assms D_guard show ?thesis
      by (auto simp: driver_effect_def guard_ok_def)
  qed
next
  case D_entry_empty
  then have "\<not> am_blocked (mbox a)" using ok by simp
  from am_empty_ok [OF opn this, of hp] D_entry_empty assms show ?thesis
    by (auto simp: driver_effect_def am_blocked_def split: if_splits)
next
  case (D_park_empty h)
  then have "\<not> am_blocked (mbox a)" using ok by simp
  from am_empty_ok [OF opn this, of hp] D_park_empty assms show ?thesis
    by (auto simp: driver_effect_def am_blocked_def guard_ok_def split: if_splits)
next
  case (D_pop h)
  then have "\<not> am_blocked (mbox a)" using ok by simp
  from am_pop_ok [OF opn this, of hp] obtain x mb where
    x: "am_pop hp (mbox a) = Inr (x, mb)" "arrivals mb \<noteq> Closed" "\<not> am_blocked mb" by blast
  with D_pop assms show ?thesis
    by (cases x; auto simp: driver_effect_def)
next
  case (D_park h)
  obtain b mb where b: "am_try_block (mbox a) = (b, mb)" by fastforce
  with am_try_block_result [OF b opn] D_park assms show ?thesis
    by (cases b; auto simp: driver_effect_def guard_ok_def)
next
  case D_unblock
  with am_try_unblock_opens [OF opn] assms show ?thesis
    by (auto simp: driver_effect_def)
next
  case (D_behave h m)
  with assms show ?thesis
    by (cases d; auto simp: driver_effect_def)
qed (use assms in \<open>auto simp: driver_effect_def guard_ok_def am_closed_def split: if_splits\<close>)

text \<open>A driver outside the critical section depends on nothing.\<close>

lemma drv_ok_outside:
  "\<not> d_critical p \<Longrightarrow> drv_ok s d bl wk bz p \<Longrightarrow> drv_ok s' d' bl' wk' bz' p"
  by (cases p) auto

lemma critical_unique:
  assumes "count_if d_critical ps = of_bool r" and "i < length ps" and "d_critical (ps ! i)"
    and "j < length ps" and "j \<noteq> i"
  shows "\<not> d_critical (ps ! j)"
proof
  assume j: "d_critical (ps ! j)"
  have "count_if d_critical (ps[i := D_fault Assertion_failed]) = 0"
    using count_if_update_eq [OF assms(2), of d_critical "D_fault Assertion_failed"] assms(1,3) by simp
  moreover have "0 < count_if d_critical (ps[i := D_fault Assertion_failed])"
    using count_if_pos [of j "ps[i := D_fault Assertion_failed]" d_critical] assms(4,5) j by simp
  ultimately show False by simp
qed

lemma critical_running:
  assumes "count_if d_critical ps = of_bool r" and "i < length ps" and "d_critical (ps ! i)"
  shows r
  using count_if_pos [OF assms(2), of d_critical] assms(1,3) by (cases r) auto

lemma destroyer_ok_running:
  assumes "destroyer_ok x n r d" and "r' \<longrightarrow> r \<or> \<not> drained x"
  shows "destroyer_ok x n r' d"
  using assms by (cases x) auto

lemma driver_keeps:
  assumes inv: "protocol_inv ext y s r d" and i: "i < length (drivers y)" and mx: "0 < mx"
    and contract: "\<not> (drained (destroyer y) \<and> acquiring (drivers y ! i))"
    and st: "driver_step hp mx ch (drivers y ! i) (actor y) = (pc', a')"
  shows "actor_inv ext (y\<lparr>drivers := (drivers y)[i := pc'], actor := a'\<rparr>)"
proof -
  let ?pc = "drivers y ! i" and ?n = "count_if s_registered (senders y)"
  let ?ow = "0 < count_if s_unblocks (senders y)"
  let ?y = "y\<lparr>drivers := (drivers y)[i := pc'], actor := a'\<rparr>"
  define s' where "s' = is_scheduled (state_word a')"
  define r' where "r' = is_running (state_word a')"
  have w: "state_word (actor y) = actor_word s r d ?n" and opn: "arrivals (mbox (actor y)) \<noteq> Closed"
    and crit: "count_if d_critical (drivers y) = of_bool r"
    and all: "\<forall>p \<in> set (drivers y). drv_ok s d (am_blocked (mbox (actor y))) (wake y s d) (busy (actor y)) p"
    and idle: "\<not> r \<longrightarrow> wake y s d"
    using inv by (simp_all add: protocol_inv_def)
  have cr: "d_critical ?pc \<longrightarrow> r" using critical_running [OF crit i] by blast
  have ok: "drv_ok s d (am_blocked (mbox (actor y))) (wake y s d) (busy (actor y)) ?pc"
    using all i by simp
  have "driver_effect s r d ?n ?ow ?pc (actor y) pc' a' s' r'"
    using driver_step_effect [OF st mx w opn cr ok [unfolded wake_def] idle [unfolded wake_def]]
    by (simp add: s'_def r'_def)
  then have ew: "state_word a' = actor_word s' r' d ?n" "arrivals (mbox a') \<noteq> Closed"
    and er: "r' = (r \<and> \<not> d_critical ?pc \<or> d_critical pc')" "r' \<longrightarrow> r \<or> acquiring ?pc"
      "d_critical pc' \<longrightarrow> d_critical ?pc \<or> \<not> r"
    and eo: "drv_ok s' d (am_blocked (mbox a')) (am_blocked (mbox a') \<or> s' \<or> d \<or> ?ow) (busy a') pc'"
    and en: "\<not> d_critical ?pc \<longrightarrow> mbox a' = mbox (actor y) \<and> busy a' = busy (actor y) \<and> (r \<longrightarrow> s \<longrightarrow> s')"
    and ei: "\<not> r' \<longrightarrow> am_blocked (mbox a') \<or> s' \<or> d \<or> ?ow"
    and et: "s' \<longrightarrow> \<not> r' \<longrightarrow> \<not> d \<longrightarrow> d_token pc' \<or> s \<and> \<not> r \<and> \<not> d_token ?pc"
      "d_token pc' \<longrightarrow> d_token ?pc \<or> s' \<and> d_critical ?pc \<and> \<not> r'"
      "s \<longrightarrow> \<not> s' \<longrightarrow> (d_token ?pc \<or> d_external ?pc) \<and> \<not> d_token pc'"
      "d_critical pc' \<longrightarrow> \<not> d_token pc'" "d_external pc' \<longrightarrow> d_external ?pc"
    unfolding driver_effect_def by - (elim conjE, assumption)+
  have wk: "wake ?y s' d \<longleftrightarrow> am_blocked (mbox a') \<or> s' \<or> d \<or> ?ow" by (simp add: wake_def)
  note cnt = count_if_update_eq [OF i, of _ pc']
  have crit': "count_if d_critical (drivers ?y) = of_bool r'"
    using cnt [of d_critical] crit er cr by (cases "d_critical ?pc"; cases r; cases "d_critical pc'"; simp)
  have all': "drv_ok s' d (am_blocked (mbox a')) (wake ?y s' d) (busy a') p"
    if "p \<in> set (drivers ?y)" for p
  proof -
    from that obtain j where j: "j < length (drivers y)" "p = (if j = i then pc' else drivers y ! j)"
      by (auto simp: in_set_conv_nth nth_list_update)
    have old: "drv_ok s d (am_blocked (mbox (actor y))) (wake y s d) (busy (actor y)) (drivers y ! j)"
      using all j(1) by simp
    show ?thesis
    proof (cases "j = i")
      case True
      then show ?thesis using eo j(2) wk by simp
    next
      case other: False
      show ?thesis
      proof (cases "d_critical (drivers y ! j)")
        case False
        then show ?thesis using other j(2) drv_ok_outside [OF False old] by simp
      next
        case True
        have "\<not> d_critical ?pc" and r
          using critical_unique [OF crit j(1) True i] other critical_running [OF crit j(1) True] by auto
        then have "mbox a' = mbox (actor y)" "busy a' = busy (actor y)" "s \<longrightarrow> s'"
          using en by auto
        then show ?thesis
          using old other j(2) drv_ok_mono [OF old, of s' d "am_blocked (mbox a')" "wake ?y s' d"]
          by (auto simp: wake_def)
      qed
    qed
  qed
  have tk: "tokens ?y + of_bool (d_token ?pc) = tokens y + of_bool (d_token pc')"
    using cnt [of d_token] count_if_pos [OF i, of d_token] by (auto simp: tokens_def)
  have tok': "s' \<longrightarrow> \<not> r' \<longrightarrow> \<not> d \<longrightarrow> 0 < tokens ?y"
  proof (intro impI)
    assume "s'" "\<not> r'" "\<not> d"
    then consider "d_token pc'" | "s" "\<not> r" "\<not> d_token ?pc" using et(1) by blast
    then show "0 < tokens ?y"
    proof cases
      case 1
      then show ?thesis
        using count_if_pos [of i "(drivers y)[i := pc']" d_token] i by (simp add: tokens_def)
    next
      case 2
      then show ?thesis using inv tk \<open>\<not> d\<close> by (simp add: protocol_inv_def)
    qed
  qed
  have dest: "destroyer_ok (destroyer y) ?n r' d"
    by (rule destroyer_ok_running [of _ _ r]) (use inv er contract in \<open>auto simp: protocol_inv_def\<close>)
  have single: "single_token ?y s' r'" if "\<not> ext"
  proof -
    have sg: "tokens y + of_bool r \<le> 1" "0 < tokens y \<longrightarrow> \<not> drained (destroyer y) \<longrightarrow> s"
      "count_if d_external (drivers y) = 0"
      using inv that by (simp_all add: protocol_inv_def single_token_def)
    have ne: "\<not> d_external ?pc" using sg(3) count_if_pos [OF i, of d_external] by auto
    have acq: "acquiring ?pc \<longrightarrow> d_token ?pc" using ne by (cases ?pc) auto
    have "count_if d_external (drivers ?y) = 0"
      using cnt [of d_external] sg(3) ne et(5) by simp
    moreover have "tokens ?y + of_bool r' \<le> 1"
      using tk sg(1) er et cr acq by (cases "d_token ?pc"; cases "d_token pc'"; cases r; cases r') auto
    moreover have "0 < tokens ?y \<longrightarrow> \<not> drained (destroyer y) \<longrightarrow> s'"
      using tk sg(1,2) et ne cr by (cases "d_token ?pc"; cases "d_token pc'") auto
    ultimately show ?thesis by (simp add: single_token_def)
  qed
  have "protocol_inv ext ?y s' r' d"
    unfolding protocol_inv_def
    using inv ew ei crit' all' tok' dest single wk by (simp add: protocol_inv_def)
  then show ?thesis by (rule actor_invI)
qed

lemma destroyer_step_effect:
  assumes st: "destroyer_step sp x (actor_word s r d n) = (x', w')" and ok: "destroyer_ok x n r d"
    and n: "n \<le> max_senders"
  shows "\<exists>s' d'. w' = actor_word s' r d' n \<and> destroyer_ok x' n r d' \<and> (d \<longrightarrow> d') \<and>
    (s' = s \<or> drained x' \<and> d') \<and> (\<not> drained x \<longrightarrow> s' = s) \<and> (drained x \<longrightarrow> drained x')"
proof (cases x)
  case X_wait
  have "unat (sender_count (actor_word s r d n)) = n" using n by simp
  then have "sender_count (actor_word s r d n) = 0 \<longleftrightarrow> n = 0" by (metis unat_eq_zero)
  with st ok X_wait show ?thesis by (auto intro!: exI [of _ s] exI [of _ d])
next
  case (X_publish c)
  consider "w' = actor_word s r True n" "x' = X_wait"
    | "w' = actor_word s r d n" "x' = X_publish (actor_word s r d n)"
    using st ok X_publish by (auto split: if_splits)
  then show ?thesis using ok X_publish by cases auto
next
  case (X_terminal c)
  then consider "w' = actor_word False False True 0" "x' = X_dead"
    | "w' = actor_word s r d n" "x' = X_terminal (actor_word s r d n)"
    using st ok by (auto split: if_splits)
  then show ?thesis
  proof cases
    case 2
    have "sender_count (actor_word s r d 0) = 0"
      using sender_count_word [of 0 s r d] by (metis unat_eq_zero zero_le)
    with 2 ok X_terminal show ?thesis by auto
  qed (use ok X_terminal in auto)
next
  case X_terminal_load
  have "sender_count (actor_word s r d 0) = 0"
    using sender_count_word [of 0 s r d] by (metis unat_eq_zero zero_le)
  with st ok X_terminal_load show ?thesis
    by - (rule exI [of _ s], rule exI [of _ d], auto)
qed (use st ok in auto)

lemma registered_active: "count_if s_registered ps \<le> count_if s_active ps"
proof (induction ps)
  case (Cons p ps)
  then show ?case by (cases p) auto
qed simp

lemma destroyer_keeps:
  assumes inv: "protocol_inv ext y s r d"
    and st: "destroyer_step sp (destroyer y) (state_word (actor y)) = (x', w')"
  shows "actor_inv ext (y\<lparr>destroyer := x', actor := (actor y)\<lparr>state_word := w'\<rparr>\<rparr>)"
proof -
  let ?n = "count_if s_registered (senders y)"
  let ?y = "y\<lparr>destroyer := x', actor := (actor y)\<lparr>state_word := w'\<rparr>\<rparr>"
  have w: "state_word (actor y) = actor_word s r d ?n" and ok: "destroyer_ok (destroyer y) ?n r d"
    and n: "?n \<le> max_senders"
    using inv registered_active [of "senders y"] by (auto simp: protocol_inv_def)
  obtain s' d' where e: "w' = actor_word s' r d' ?n" "destroyer_ok x' ?n r d'" "d \<longrightarrow> d'"
    "s' = s \<or> drained x' \<and> d'" "\<not> drained (destroyer y) \<longrightarrow> s' = s" "drained (destroyer y) \<longrightarrow> drained x'"
    using destroyer_step_effect [OF st [unfolded w] ok n] by (elim exE conjE) (rule that; assumption)
  have idle: "drained x' \<longrightarrow> \<not> r" using e(2) by (cases x') auto
  have wk: "wake y s d \<longrightarrow> wake ?y s' d'" using e(3,4) by (auto simp: wake_def)
  have tk: "tokens ?y = tokens y" by (simp add: tokens_def)
  have "drv_ok s' d' (am_blocked (mbox (actor y))) (wake ?y s' d') (busy (actor y)) p"
    if "p \<in> set (drivers y)" for p
  proof -
    have old: "drv_ok s d (am_blocked (mbox (actor y))) (wake y s d) (busy (actor y)) p"
      using inv that by (simp add: protocol_inv_def)
    show ?thesis
    proof (cases "s' = s")
      case True
      then show ?thesis using drv_ok_mono [OF old, of s' d'] e(3) wk by blast
    next
      case False
      then have "\<not> r" using e(4) idle by blast
      then have "\<not> d_critical p"
        using inv that by (auto simp: protocol_inv_def count_if_0_iff)
      then show ?thesis using old by (rule drv_ok_outside)
    qed
  qed
  moreover have "s' \<longrightarrow> \<not> r \<longrightarrow> \<not> d' \<longrightarrow> 0 < tokens ?y"
    using inv e(3,4) tk by (auto simp: protocol_inv_def)
  moreover have "single_token ?y s' r" if "\<not> ext"
    using inv that tk e(4,5,6) by (auto simp: protocol_inv_def single_token_def)
  moreover have "\<not> r \<longrightarrow> wake ?y s' d'" using inv wk by (simp add: protocol_inv_def)
  ultimately have "protocol_inv ext ?y s' r d'"
    using inv e(1,2) unfolding protocol_inv_def by simp
  then show ?thesis by (rule actor_invI)
qed

text \<open>Threads that arrive, and obligations that change hands.\<close>

lemma send_keeps:
  assumes inv: "protocol_inv ext y s r d" and "count_if s_active (senders y) < max_senders"
  shows "actor_inv ext (y\<lparr>senders := senders y @ [S_start m]\<rparr>)"
  by (rule actor_invI [of _ _ s r d])
    (use assms in \<open>simp add: protocol_inv_def single_token_def tokens_def wake_def\<close>)

lemma call_keeps:
  assumes "protocol_inv ext y s r d" and "ext"
  shows "actor_inv ext (y\<lparr>drivers := drivers y @ [D_start False]\<rparr>)"
  by (rule actor_invI [of _ _ s r d])
    (use assms in \<open>auto simp: protocol_inv_def tokens_def wake_def\<close>)

lemma redeem_send_keeps:
  assumes inv: "protocol_inv ext y s r d" and i: "i < length (senders y)" "senders y ! i = S_out m True e"
  shows "actor_inv ext (y\<lparr>senders := (senders y)[i := S_out m False e],
      drivers := drivers y @ [D_start True]\<rparr>)"
proof -
  note cnt = count_if_update_eq [OF i(1), of _ "S_out m False e"]
  have "0 < count_if s_owes (senders y)" using count_if_pos [OF i(1), of s_owes] i(2) by simp
  with cnt [of s_owes] cnt [of s_registered] cnt [of s_active] cnt [of s_unblocks] i(2) inv
  have "protocol_inv ext (y\<lparr>senders := (senders y)[i := S_out m False e],
      drivers := drivers y @ [D_start True]\<rparr>) s r d"
    by (simp add: protocol_inv_def single_token_def tokens_def wake_def)
  then show ?thesis by (rule actor_invI)
qed

lemma redeem_resume_keeps:
  assumes inv: "protocol_inv ext y s r d" and i: "i < length (drivers y)" "drivers y ! i = D_out Resume h"
  shows "actor_inv ext (y\<lparr>drivers := (drivers y)[i := D_start True]\<rparr>)"
proof -
  note cnt = count_if_update_eq [OF i(1), of _ "D_start True"]
  have "0 < count_if d_token (drivers y)" using count_if_pos [OF i(1), of d_token] i(2) by simp
  moreover have "set ((drivers y)[i := D_start True]) \<subseteq> insert (D_start True) (set (drivers y))"
    by (rule set_update_subset_insert)
  ultimately have "protocol_inv ext (y\<lparr>drivers := (drivers y)[i := D_start True]\<rparr>) s r d"
    using cnt [of d_token] cnt [of d_external] cnt [of d_critical] i(2) inv
    by (auto simp: protocol_inv_def single_token_def tokens_def wake_def)
  then show ?thesis by (rule actor_invI)
qed

lemma actor_step_inv:
  assumes "actor_step ext hp mx y z" and "actor_inv ext y"
  shows "actor_inv ext z"
proof -
  obtain s r d where "protocol_inv ext y s r d" using assms(2) by (auto simp: actor_inv_def)
  with assms(1) show ?thesis
    by (cases rule: actor_step.cases)
      (auto intro: send_keeps sender_keeps call_keeps driver_keeps redeem_send_keeps
        redeem_resume_keeps destroyer_keeps)
qed

lemma actor_init_inv: "actor_inv ext actor_init"
  by (rule actor_invI [of _ _ False False False])
    (simp add: actor_init_def protocol_inv_def am_try_block_def am_new_def am_blocked_def wake_def
      tokens_def single_token_def st_idle_def actor_word_def)

lemma actor_reachable_inv: "actor_reachable ext hp mx y \<Longrightarrow> actor_inv ext y"
  by (induction rule: actor_reachable.induct) (auto intro: actor_init_inv actor_step_inv)

section \<open>Messages are conserved\<close>

fun s_accepted :: "'m sender_pc \<Rightarrow> 'm multiset" where
  "s_accepted (S_leave_load m r) = (if r = Queue_closed then {#} else {#m#})"
| "s_accepted (S_leave m r c) = (if r = Queue_closed then {#} else {#m#})"
| "s_accepted (S_out m owes r) = (if r = Queue_closed then {#} else {#m#})"
| "s_accepted _ = {#}"

fun d_hand :: "'m driver_pc \<Rightarrow> 'm multiset" where
  "d_hand (D_behave h m) = {#m#}"
| "d_hand _ = {#}"

definition conserved :: "'m actor_world \<Rightarrow> bool" where
  "conserved y \<longleftrightarrow>
     sum_list (map s_accepted (senders y)) =
       mset (mb_elems (mbox (actor y))) + sum_list (map d_hand (drivers y)) +
       mset (handled_log (actor y)) + mset (skipped_log (actor y))"

lemma am_push_elems:
  "am_push m mb = (r, mb') \<Longrightarrow>
     mset (mb_elems mb') = mset (mb_elems mb) + (if r = Queue_closed then {#} else {#m#})"
  by (cases "arrivals mb") (auto simp: am_push_def mb_elems_def)

lemma am_try_block_elems: "am_try_block mb = (b, mb') \<Longrightarrow> mb_elems mb' = mb_elems mb"
  by (cases "arrivals mb"; cases "ib_elems (arrivals mb)")
    (auto simp: am_try_block_def mb_elems_def split: if_splits)

lemma am_try_unblock_elems: "mb_elems (snd (am_try_unblock mb)) = mb_elems mb"
  by (cases "arrivals mb") (auto simp: am_try_unblock_def mb_elems_def)

lemma am_empty_elems:
  "am_empty hp mb = Inr (e, mb') \<Longrightarrow> mset (mb_elems mb') = mset (mb_elems mb)"
  by (cases "am_fetch hp mb") (auto simp: am_empty_def dest: am_fetch_content)

lemma am_pop_elems:
  assumes "am_pop hp mb = Inr (r, mb')"
  shows "mset (mb_elems mb) = mset (mb_elems mb') + (case r of None \<Rightarrow> {#} | Some m \<Rightarrow> {#m#})"
proof (cases "urgent mb = [] \<and> normal mb = []")
  case True
  with assms obtain g c where "am_fetch hp mb = Inr (g, c)" "am_take c = (r, mb')"
    by (cases "am_fetch hp mb") (auto simp: am_pop_def)
  then show ?thesis using am_fetch_content am_take_content by metis
next
  case False
  with assms have "am_take mb = (r, mb')" by (simp add: am_pop_def)
  then show ?thesis using am_take_content by blast
qed

lemma sender_step_conserves:
  assumes "sender_step sp pc w mb = (pc', w', mb')"
  shows "s_accepted pc' + mset (mb_elems mb) = s_accepted pc + mset (mb_elems mb')"
  using assms by (cases pc) (auto split: if_splits prod.splits dest!: am_push_elems)

lemma driver_step_conserves:
  assumes "driver_step hp mx ch pc a = (pc', a')"
  shows "mset (mb_elems (mbox a')) + d_hand pc' + mset (handled_log a') + mset (skipped_log a') =
    mset (mb_elems (mbox a)) + d_hand pc + mset (handled_log a) + mset (skipped_log a)"
proof (cases pc)
  case (D_pop h)
  with assms am_pop_elems show ?thesis
    by (auto split: sum.splits option.splits prod.splits) fastforce+
next
  case (D_behave h m)
  with assms show ?thesis by (cases "is_destroying (state_word a)") auto
qed (use assms in \<open>auto simp: am_try_unblock_elems split: if_splits sum.splits bool.splits prod.splits
    dest!: am_empty_elems am_try_block_elems\<close>)

lemma actor_step_conserves: "actor_step ext hp mx y z \<Longrightarrow> conserved y \<Longrightarrow> conserved z"
proof (induction rule: actor_step.induct)
  case (sender i y sp pc' w' mb')
  have "sum_list (map s_accepted ((senders y)[i := pc'])) + mset (mb_elems (mbox (actor y))) =
      sum_list (map s_accepted (senders y)) + mset (mb_elems mb')"
    by (rule balance_move [OF sum_list_update_add [OF sender.hyps(1)]])
      (rule sender_step_conserves [OF sender.hyps(2), symmetric])
  with sender.prems show ?case by (simp add: conserved_def ac_simps)
next
  case (drive i y ch pc' a')
  let ?e = "mset (mb_elems (mbox (actor y))) + mset (handled_log (actor y)) + mset (skipped_log (actor y))"
  let ?e' = "mset (mb_elems (mbox a')) + mset (handled_log a') + mset (skipped_log a')"
  have "sum_list (map d_hand ((drivers y)[i := pc'])) + ?e' = sum_list (map d_hand (drivers y)) + ?e"
    by (rule balance_move [OF sum_list_update_add [OF drive.hyps(1)]])
      (use driver_step_conserves [OF drive.hyps(4)] in \<open>simp add: ac_simps\<close>)
  with drive.prems show ?case by (simp add: conserved_def ac_simps)
next
  case (redeem_send i y m r)
  then show ?case
    using sum_list_update_add [OF redeem_send.hyps(1), of s_accepted "S_out m False r"]
    by (simp add: conserved_def)
next
  case (redeem_resume i y h)
  then show ?case
    using sum_list_update_add [OF redeem_resume.hyps(1), of d_hand "D_start True"]
    by (simp add: conserved_def)
qed (simp_all add: conserved_def)

lemma actor_reachable_conserved: "actor_reachable ext hp mx y \<Longrightarrow> conserved y"
proof (induction rule: actor_reachable.induct)
  case init
  then show ?case
    by (simp add: conserved_def actor_init_def am_try_block_elems mb_elems_def am_try_block_def am_new_def)
next
  case (step y z)
  then show ?case by (blast intro: actor_step_conserves)
qed

text \<open>No driver of a reachable actor has failed an assertion or returned \<open>shutdown\<close>.\<close>

lemma resume_never_faults_all: "actor_reachable ext hp mx y \<Longrightarrow> D_fault f \<notin> set (drivers y)"
  using actor_reachable_inv [of ext hp mx y] by (fastforce simp: actor_inv_def protocol_inv_def)

lemma out_verdict: "actor_reachable ext hp mx y \<Longrightarrow> D_out res h \<in> set (drivers y) \<Longrightarrow> res \<noteq> Shutdown"
  using actor_reachable_inv [of ext hp mx y] by (fastforce simp: actor_inv_def protocol_inv_def)

text \<open>A message is skipped only once the destructor has begun, and it never goes back on that.\<close>

lemma destroyer_step_begun: "destroyer_step sp x w = (x', w') \<Longrightarrow> destruction_begun x \<Longrightarrow> destruction_begun x'"
  by (cases x) (auto split: if_splits)

lemma driver_step_skips:
  "driver_step hp mx ch pc a = (pc', a') \<Longrightarrow> skipped_log a' = skipped_log a \<or> is_destroying (state_word a)"
  by (cases pc) (auto split: if_splits sum.splits bool.splits prod.splits option.splits)

lemma skipped_begun:
  "actor_reachable ext hp mx y \<Longrightarrow> skipped_log (actor y) \<noteq> [] \<Longrightarrow> destruction_begun (destroyer y)"
proof (induction rule: actor_reachable.induct)
  case (step y z)
  obtain s r d where inv: "protocol_inv ext y s r d"
    using actor_reachable_inv [OF step.hyps(1)] by (auto simp: actor_inv_def)
  have d: "destruction_begun (destroyer y)" if "is_destroying (state_word (actor y))"
    using inv that not_begun by (auto simp: protocol_inv_def)
  show ?case
    using step.hyps(2) step.prems step.IH d
  proof cases
    case (drive i ch pc' a')
    then show ?thesis using driver_step_skips [OF drive(5)] step.prems step.IH d by auto
  next
    case (destroy sp x' w')
    then show ?thesis using destroyer_step_begun step.prems step.IH by auto
  qed simp_all
qed (simp add: actor_init_def)

section \<open>Schedules\<close>

text \<open>One step chosen by a scheduler, as a function, to run concrete interleavings.\<close>

datatype 'm move =
  M_send 'm | M_sender nat | M_call | M_drive nat choice | M_redeem_send nat | M_redeem_resume nat
| M_destroy

definition actor_move :: "bool \<Rightarrow> ('m \<Rightarrow> bool) \<Rightarrow> nat \<Rightarrow> 'm move \<Rightarrow> 'm actor_world \<Rightarrow> 'm actor_world" where
  "actor_move ext hp mx mv y =
     (case mv of
        M_send m \<Rightarrow>
          if count_if s_active (senders y) < max_senders \<and> destroyer y \<noteq> X_dead
          then y\<lparr>senders := senders y @ [S_start m]\<rparr> else y
      | M_sender i \<Rightarrow>
          if i < length (senders y)
          then (case sender_step False (senders y ! i) (state_word (actor y)) (mbox (actor y)) of
                  (pc, w, mb) \<Rightarrow> y\<lparr>senders := (senders y)[i := pc],
                                  actor := (actor y)\<lparr>state_word := w, mbox := mb\<rparr>\<rparr>)
          else y
      | M_call \<Rightarrow> if ext then y\<lparr>drivers := drivers y @ [D_start False]\<rparr> else y
      | M_drive i ch \<Rightarrow>
          if i < length (drivers y) \<and> \<not> (drained (destroyer y) \<and> acquiring (drivers y ! i)) \<and> 0 < mx
          then (case driver_step hp mx ch (drivers y ! i) (actor y) of
                  (pc, a) \<Rightarrow> y\<lparr>drivers := (drivers y)[i := pc], actor := a\<rparr>)
          else y
      | M_redeem_send i \<Rightarrow>
          if i < length (senders y)
          then (case senders y ! i of
                  S_out m True r \<Rightarrow> y\<lparr>senders := (senders y)[i := S_out m False r],
                                     drivers := drivers y @ [D_start True]\<rparr>
                | _ \<Rightarrow> y)
          else y
      | M_redeem_resume i \<Rightarrow>
          if i < length (drivers y)
          then (case drivers y ! i of
                  D_out Resume h \<Rightarrow> y\<lparr>drivers := (drivers y)[i := D_start True]\<rparr> | _ \<Rightarrow> y)
          else y
      | M_destroy \<Rightarrow>
          (case destroyer_step False (destroyer y) (state_word (actor y)) of
             (x, w) \<Rightarrow> y\<lparr>destroyer := x, actor := (actor y)\<lparr>state_word := w\<rparr>\<rparr>))"

definition actor_run :: "bool \<Rightarrow> ('m \<Rightarrow> bool) \<Rightarrow> nat \<Rightarrow> 'm move list \<Rightarrow> 'm actor_world" where
  "actor_run ext hp mx mvs = fold (actor_move ext hp mx) mvs actor_init"

lemma actor_move_cases: "actor_move ext hp mx mv y = y \<or> actor_step ext hp mx y (actor_move ext hp mx mv y)"
proof (cases mv)
  case (M_sender i)
  then show ?thesis
    by (auto simp: actor_move_def intro!: actor_step.sender split: prod.splits)
next
  case (M_drive i ch)
  then show ?thesis
    by (auto simp: actor_move_def intro!: actor_step.drive split: prod.splits)
next
  case (M_redeem_send i)
  then show ?thesis
    by (auto simp: actor_move_def intro!: actor_step.redeem_send split: sender_pc.split bool.split)
next
  case (M_redeem_resume i)
  then show ?thesis
    by (auto simp: actor_move_def intro!: actor_step.redeem_resume split: driver_pc.split resume_result.split)
next
  case M_destroy
  then show ?thesis
    by (auto simp: actor_move_def intro!: actor_step.destroy split: prod.splits)
qed (auto simp: actor_move_def intro: actor_step.send actor_step.call_resume)

lemma actor_move_reachable:
  "actor_reachable ext hp mx y \<Longrightarrow> actor_reachable ext hp mx (actor_move ext hp mx mv y)"
  by (metis actor_move_cases actor_reachable.step)

lemma actor_run_reachable: "actor_reachable ext hp mx (actor_run ext hp mx mvs)"
proof -
  have "actor_reachable ext hp mx y \<Longrightarrow> actor_reachable ext hp mx (fold (actor_move ext hp mx) mvs y)" for y
    by (induction mvs arbitrary: y) (auto intro: actor_move_reachable)
  then show ?thesis by (simp add: actor_run_def actor_reachable.init)
qed

text \<open>The definitions a concrete schedule is evaluated with.\<close>

lemmas move_simps = actor_move_def am_try_block_def am_new_def st_idle_def
  max_senders_def am_push_def leave_desired_def am_blocked_def am_closed_def am_try_unblock_def
  am_fetch_def am_empty_def am_pop_def am_take_def released_result_def Let_def is_destroying_def
  is_scheduled_def is_running_def add_sender_def sub_sender_def kSenderStep_def set_scheduled_def
  set_running_def set_destroying_def sender_count_def make_state_def

lemmas run_simps = actor_run_def actor_init_def move_simps

text \<open>A concrete environment: behaviors finish at once and no compare-exchange fails spuriously.\<close>

definition calm :: choice where
  "calm = \<lparr>spurious = False, awaited_ready = False, busy_after_resume = False,
           busy_after_behavior = False\<rparr>"

text \<open>
  A message reaches the parked actor, the sender's caller schedules it, a worker handles the
  message (its first loop round), while a second message is being sent.
\<close>

definition busy_schedule :: "nat move list" where
  "busy_schedule =
     [M_send 7, M_sender 0, M_sender 0, M_sender 0, M_sender 0, M_sender 0, M_redeem_send 0,
      M_drive 0 calm, M_drive 0 calm, M_drive 0 calm, M_drive 0 calm, M_drive 0 calm, M_drive 0 calm,
      M_drive 0 calm, M_drive 0 calm, M_send 8, M_sender 1, M_sender 1, M_drive 0 calm, M_drive 0 calm,
      M_drive 0 calm, M_drive 0 calm, M_drive 0 calm, M_drive 0 calm, M_drive 0 calm]"

lemma busy_state:
  "actor_run False (\<lambda>_. False) 5 busy_schedule =
     \<lparr>actor = \<lparr>state_word = 10, mbox = \<lparr>urgent = [], normal = [], arrivals = Open []\<rparr>,
               busy = False, handled_log = [7], skipped_log = []\<rparr>,
      senders = [S_out 7 False Unblocked_reader, S_push 8], drivers = [D_loop 1], destroyer = X_alive\<rparr>"
  by (simp add: run_simps busy_schedule_def calm_def)

definition destroy_schedule :: "nat move list" where
  "destroy_schedule =
     [M_send 7, M_sender 0, M_sender 0, M_destroy, M_destroy, M_destroy, M_send 8, M_sender 1, M_sender 1,
      M_sender 0, M_sender 0, M_sender 0, M_destroy, M_destroy]"

lemma destroy_state:
  "actor_run False (\<lambda>_. False) 5 destroy_schedule =
     \<lparr>actor = \<lparr>state_word = 4, mbox = \<lparr>urgent = [], normal = [], arrivals = Open [7]\<rparr>,
               busy = False, handled_log = [], skipped_log = []\<rparr>,
      senders = [S_out 7 False Unblocked_reader, S_out 8 False Queue_closed], drivers = [],
      destroyer = X_terminal 4\<rparr>"
  by (simp add: run_simps destroy_schedule_def)

section \<open>Properties\<close>

text \<open>C5: Mutual exclusion. At most one thread is between acquiring \<open>running\<close> and releasing it,
  and the \<open>running\<close> bit says exactly whether there is one.\<close>

theorem resume_mutual_exclusion:
  assumes "actor_reachable ext hp mx y"
  shows "count_if d_critical (drivers y) \<le> 1 \<and>
    (is_running (state_word (actor y)) \<longleftrightarrow> count_if d_critical (drivers y) = 1)"
proof -
  obtain s r d where "protocol_inv ext y s r d"
    using actor_reachable_inv [OF assms] by (auto simp: actor_inv_def)
  then have "is_running (state_word (actor y)) = r" "count_if d_critical (drivers y) = of_bool r"
    by (simp_all add: protocol_inv_def)
  then show ?thesis by simp
qed

theorem resume_mutual_exclusion_witness:
  "count_if d_critical (drivers (actor_run False (\<lambda>_. False) 5 busy_schedule)) = 1"
  using resume_mutual_exclusion [OF actor_run_reachable, of False "\<lambda>_. False" 5 busy_schedule]
  by (simp add: busy_state)

text \<open>C20: The count in the upper bits of the word is the number of senders between registering and
  leaving, and it never carries into the flags.\<close>

theorem sender_count_exact:
  assumes "actor_reachable ext hp mx y"
  shows "unat (sender_count (state_word (actor y))) = count_if s_registered (senders y) \<and>
    count_if s_registered (senders y) \<le> max_senders"
proof -
  obtain s r d where inv: "protocol_inv ext y s r d"
    using actor_reachable_inv [OF assms] by (auto simp: actor_inv_def)
  then have "count_if s_registered (senders y) \<le> max_senders"
    using registered_active [of "senders y"] by (simp add: protocol_inv_def)
  with inv show ?thesis by (simp add: protocol_inv_def)
qed

theorem sender_count_exact_witness:
  "unat (sender_count (state_word (actor (actor_run False (\<lambda>_. False) 5 busy_schedule)))) = 1"
  using conjunct1 [OF sender_count_exact [OF actor_run_reachable, of False "\<lambda>_. False" 5 busy_schedule]]
  by (simp add: busy_state)

text \<open>C4: No lost wakeup. Until its destructor has published that the actor is being destroyed, an
  actor whose mailbox is not parked is being run, or someone holds the obligation to enqueue it, or a
  sender that unparked it has yet to leave and will claim that obligation.\<close>

theorem no_lost_wakeup:
  assumes "actor_reachable ext hp mx y" and "\<not> am_blocked (mbox (actor y))"
  shows "is_running (state_word (actor y)) \<or> 0 < tokens y \<or> 0 < count_if s_unblocks (senders y) \<or>
    destruction_begun (destroyer y)"
proof -
  obtain s r d where inv: "protocol_inv ext y s r d"
    using actor_reachable_inv [OF assms(1)] by (auto simp: actor_inv_def)
  then have "d \<Longrightarrow> destruction_begun (destroyer y)" using not_begun by (auto simp: protocol_inv_def)
  with inv assms(2) show ?thesis by (auto simp: protocol_inv_def wake_def)
qed

text \<open>The message has been handled, nobody runs the actor, and its worker holds the obligation.\<close>

theorem no_lost_wakeup_witness:
  "0 < tokens (actor_run False (\<lambda>_. False) 5 (take 7 busy_schedule))"
proof -
  have "actor_run False (\<lambda>_. False) 5 (take 7 busy_schedule) =
     \<lparr>actor = \<lparr>state_word = 1, mbox = \<lparr>urgent = [], normal = [], arrivals = Open [7]\<rparr>,
               busy = False, handled_log = [], skipped_log = []\<rparr>,
      senders = [S_out 7 False Unblocked_reader], drivers = [D_start True], destroyer = X_alive\<rparr>"
    by (simp add: run_simps busy_schedule_def calm_def)
  with no_lost_wakeup [OF actor_run_reachable, of False "\<lambda>_. False" 5 "take 7 busy_schedule"]
  show ?thesis by (simp add: is_running_def am_blocked_def)
qed

text \<open>One job. When \<open>resume\<close> is called only by those told to, there is never more than one
  outstanding job for the actor, and none while it runs; so \<open>send\<close> never asks for a second one.\<close>

theorem single_job:
  assumes "actor_reachable False hp mx y"
  shows "tokens y + count_if d_critical (drivers y) \<le> 1"
proof -
  obtain s r d where "protocol_inv False y s r d"
    using actor_reachable_inv [OF assms] by (auto simp: actor_inv_def)
  then show ?thesis by (simp add: protocol_inv_def single_token_def)
qed

theorem single_job_witness:
  "tokens (actor_run False (\<lambda>_. False) 5 busy_schedule) = 0"
  using single_job [OF actor_run_reachable, of "\<lambda>_. False" 5 busy_schedule]
  by (simp add: busy_state)

text \<open>C1: Exactly once. Every accepted message is in the mailbox, in the hands of the running driver, has
  been given to the behavior, or was popped and skipped because the actor is being destroyed, exactly as
  often as it was accepted; a rejected one is nowhere, and none is skipped before the destructor begins.\<close>

theorem messages_exactly_once:
  assumes "actor_reachable ext hp mx y"
  shows "sum_list (map s_accepted (senders y)) =
    mset (mb_elems (mbox (actor y))) + sum_list (map d_hand (drivers y)) + mset (handled_log (actor y)) +
    mset (skipped_log (actor y)) \<and>
    (skipped_log (actor y) = [] \<or> destruction_begun (destroyer y))"
  using actor_reachable_conserved [OF assms] skipped_begun [OF assms] by (auto simp: conserved_def)

theorem messages_exactly_once_witness:
  "sum_list (map s_accepted (senders (actor_run False (\<lambda>_. False) 5 busy_schedule))) = {#7#}"
  unfolding conjunct1 [OF messages_exactly_once [OF actor_run_reachable]]
  by (simp add: busy_state mb_elems_def)

text \<open>C11: The destructor waits. Once it has seen the actor quiet, no sender is registered and no
  driver is inside; its assertions hold, so it never trips over a straggler.\<close>

theorem destructor_drains:
  assumes "actor_reachable ext hp mx y"
  shows "destroyer y \<noteq> X_fault \<and>
    (drained (destroyer y) \<longrightarrow> is_destroying (state_word (actor y)) \<and>
       count_if s_registered (senders y) = 0 \<and> count_if d_critical (drivers y) = 0)"
proof -
  obtain s r d where "protocol_inv ext y s r d"
    using actor_reachable_inv [OF assms] by (auto simp: actor_inv_def)
  then show ?thesis by (cases "destroyer y") (auto simp: protocol_inv_def)
qed

theorem destructor_drains_witness:
  "count_if s_registered (senders (actor_run False (\<lambda>_. False) 5 destroy_schedule)) = 0"
  using destructor_drains [OF actor_run_reachable, of False "\<lambda>_. False" 5 destroy_schedule]
  by (simp add: destroy_state)

text \<open>C19: Called with a positive limit, \<open>resume\<close> reaches no failing assertion: un-parking without
  \<open>running\<close>, parking with a live behavior, fetching from a parked or closed inbox, releasing \<open>running\<close>
  that is not held. Called with limit zero it fails the first one, before it touches the actor.\<close>

theorem resume_never_faults:
  assumes "actor_reachable ext hp mx y" and "0 < mx"
  shows "D_fault f \<notin> set (drivers y) \<and> driver_step hp 0 ch (D_start tok) a = (D_fault Assertion_failed, a)"
  using resume_never_faults_all [OF assms(1)] by simp

theorem resume_never_faults_witness:
  "D_fault Assertion_failed \<notin> set (drivers (actor_run True (\<lambda>_. True) 2 busy_schedule))"
  using resume_never_faults [OF actor_run_reachable, of 2] by simp

text \<open>The verdict of \<open>resume\<close> is honest: releasing \<open>running\<close> with the scheduled bit left set
  (someone claimed a run meanwhile, or work is left) returns \<open>resume\<close>, unless the actor is dying.\<close>

theorem release_hands_on_job:
  assumes "actor_reachable ext hp mx y" and "i < length (drivers y)"
    and "drivers y ! i = D_guard res h keep (state_word (actor y)) swr"
    and "driver_step hp mx ch (drivers y ! i) (actor y) = (D_out res' h', a')"
    and "is_scheduled (state_word a')" and "\<not> is_destroying (state_word (actor y))"
  shows "res' = Resume"
proof -
  obtain s r d where inv: "protocol_inv ext y s r d"
    using actor_reachable_inv [OF assms(1)] by (auto simp: actor_inv_def)
  let ?n = "count_if s_registered (senders y)"
  have w: "state_word (actor y) = actor_word s r d ?n" and nd: "\<not> d"
    using inv assms(6) by (simp_all add: protocol_inv_def)
  have ok: "drv_ok s d (am_blocked (mbox (actor y))) (wake y s d) (busy (actor y)) (drivers y ! i)"
    using inv assms(2) by (simp add: protocol_inv_def)
  with assms(3) w have g: "guard_ok d (wake y s d) res keep" "r" "s \<longrightarrow> swr"
    by simp_all
  have "res' = released_result res swr" "keep \<or> s"
    using assms(3,4,5) w g(2) by (auto split: if_splits)
  then show ?thesis
    using g nd by (cases res) (auto simp: guard_ok_def released_result_def)
qed

text \<open>The worker has parked the mailbox and is about to release when a send unparks it.\<close>

definition park_schedule :: "nat move list" where
  "park_schedule =
     [M_sender 1, M_sender 1, M_sender 1, M_drive 0 calm, M_drive 0 calm,
      M_drive 0 calm, M_drive 0 calm, M_drive 0 calm, M_drive 0 calm, M_drive 0 calm]"

definition race_schedule :: "nat move list" where
  "race_schedule =
     [M_drive 0 calm, M_drive 0 calm, M_drive 0 calm, M_drive 0 calm, M_drive 0 calm,
      M_drive 0 calm, M_drive 0 calm, M_drive 0 calm, M_drive 0 calm,
      M_send 9, M_sender 2, M_sender 2, M_sender 2, M_sender 2,
      M_sender 2, M_drive 0 calm]"

lemma park_state:
  "fold (actor_move False (\<lambda>_. False) 5) park_schedule (actor_run False (\<lambda>_. False) 5 busy_schedule) =
     \<lparr>actor = \<lparr>state_word = 2, mbox = \<lparr>urgent = [], normal = [], arrivals = Open []\<rparr>,
               busy = False, handled_log = [7, 8], skipped_log = []\<rparr>,
      senders = [S_out 7 False Unblocked_reader, S_out 8 False Success], drivers = [D_loop 2], destroyer = X_alive\<rparr>"
  unfolding busy_state by (simp add: move_simps park_schedule_def calm_def)

lemma late_send_state:
  "actor_run False (\<lambda>_. False) 5 (busy_schedule @ park_schedule @ race_schedule) =
     \<lparr>actor = \<lparr>state_word = 3, mbox = \<lparr>urgent = [], normal = [], arrivals = Open [9]\<rparr>,
               busy = False, handled_log = [7, 8], skipped_log = []\<rparr>,
      senders = [S_out 7 False Unblocked_reader, S_out 8 False Success, S_out 9 False Unblocked_reader], drivers = [D_guard Awaiting 2 False 3 True], destroyer = X_alive\<rparr>"
proof -
  have "actor_run False (\<lambda>_. False) 5 (busy_schedule @ park_schedule @ race_schedule) =
      fold (actor_move False (\<lambda>_. False) 5) race_schedule (fold (actor_move False (\<lambda>_. False) 5) park_schedule
        (actor_run False (\<lambda>_. False) 5 busy_schedule))"
    by (simp add: actor_run_def)
  then show ?thesis
    unfolding park_state by (simp add: move_simps race_schedule_def calm_def)
qed

theorem release_hands_on_job_witness:
  "fst (driver_step (\<lambda>_. False) 5 calm (D_guard Awaiting 2 False 3 True)
     (actor (actor_run False (\<lambda>_. False) 5 (busy_schedule @ park_schedule @ race_schedule)))) = D_out Resume 2"
proof -
  let ?y = "actor_run False (\<lambda>_. False) 5 (busy_schedule @ park_schedule @ race_schedule)"
  have "driver_step (\<lambda>_. False) 5 calm (drivers ?y ! 0) (actor ?y) =
      (D_out Resume 2, (actor ?y)\<lparr>state_word := 1\<rparr>)"
    by (simp add: late_send_state move_simps calm_def)
  from release_hands_on_job [OF actor_run_reachable _ _ this, of Awaiting 2 False True] this
  show ?thesis by (simp add: late_send_state is_scheduled_def is_destroying_def)
qed

end
