(* ===== verification/Inbox_Concurrent.thy ===== *)
theory Inbox_Concurrent
  imports Lifo_Inbox
begin

text \<open>
  The inbox under concurrency: any number of producer threads inside \<open>push_front\<close>, each
  stopped between two atomic accesses, and the one reader that blocks, unblocks, fetches and
  closes. Addresses are recycled: a node that was handed out may be pushed again while another
  producer still holds its old address from an earlier load.
\<close>

section \<open>The system and its steps\<close>

datatype reader_pc = Reader_idle | Reader_taking nat take_pc

record inbox_sys =
  queue :: lifo_inbox
  memory :: mem
  pushers :: "(nat \<times> push_pc) list"
  reader :: reader_pc
  taken :: "nat multiset"
  closed_out :: "nat multiset"

definition init_inbox_sys :: "nat \<Rightarrow> (nat \<Rightarrow> nat) \<Rightarrow> inbox_sys" where
  "init_inbox_sys this nx =
     \<lparr>queue = new_inbox this, memory = \<lparr>nxt = nx, freed = []\<rparr>, pushers = [],
      reader = Reader_idle, taken = {#}, closed_out = {#}\<rparr>"

inductive inbox_step :: "inbox_sys \<Rightarrow> inbox_sys \<Rightarrow> bool" where
  spawn: "node_ok (queue s) e \<Longrightarrow> e \<notin> fst ` set (pushers s) \<Longrightarrow>
     inbox_step s (s\<lparr>pushers := pushers s @ [(e, Push_load)]\<rparr>)"
| push: "i < length (pushers s) \<Longrightarrow> pushers s ! i = (e, pc) \<Longrightarrow>
     push_front_step e pc (queue s, memory s) = (pc', q', m') \<Longrightarrow>
     inbox_step s (s\<lparr>queue := q', memory := m', pushers := (pushers s)[i := (e, pc')]\<rparr>)"
| block: "reader s = Reader_idle \<Longrightarrow>
     inbox_step s (s\<lparr>queue := snd (inbox_try_block (queue s))\<rparr>)"
| unblock: "reader s = Reader_idle \<Longrightarrow>
     inbox_step s (s\<lparr>queue := snd (inbox_try_unblock (queue s))\<rparr>)"
| fetch: "reader s = Reader_idle \<Longrightarrow> take_head_asserts stack_empty_tag (queue s) \<Longrightarrow>
     inbox_step s (s\<lparr>reader := Reader_taking stack_empty_tag Take_load\<rparr>)"
| close: "reader s = Reader_idle \<Longrightarrow>
     take_head_asserts (stack_closed_tag (queue s)) (queue s) \<Longrightarrow>
     inbox_step s (s\<lparr>reader := Reader_taking (stack_closed_tag (queue s)) Take_load\<rparr>)"
| taking: "reader s = Reader_taking nh pc \<Longrightarrow> take_head_step spurious nh pc (queue s) = (pc', q') \<Longrightarrow>
     inbox_step s (s\<lparr>queue := q', reader := Reader_taking nh pc'\<rparr>)"
| hand_out: "reader s = Reader_taking stack_empty_tag (Take_done h) \<Longrightarrow>
     seg (nxt (memory s)) h xs 0 \<Longrightarrow> 0 \<notin> set xs \<Longrightarrow>
     inbox_step s (s\<lparr>reader := Reader_idle, taken := taken s + mset xs\<rparr>)"
| free_all: "reader s = Reader_taking (stack_closed_tag (queue s)) (Take_done h) \<Longrightarrow>
     seg (nxt (memory s)) h xs 0 \<Longrightarrow> 0 \<notin> set xs \<Longrightarrow>
     inbox_step s (s\<lparr>reader := Reader_idle, memory := fold delete_node xs (memory s),
                     closed_out := closed_out s + mset xs\<rparr>)"
| retire: "pushers s = ps @ (e, Push_done r) # ps' \<Longrightarrow> r \<noteq> Queue_closed \<Longrightarrow> e \<in># taken s \<Longrightarrow>
     inbox_step s (s\<lparr>pushers := ps @ ps', taken := taken s - {#e#}\<rparr>)"
| rejected: "pushers s = ps @ (e, Push_done Queue_closed) # ps' \<Longrightarrow>
     inbox_step s (s\<lparr>pushers := ps @ ps'\<rparr>)"

inductive inbox_reachable :: "inbox_sys \<Rightarrow> bool" where
  start: "this \<noteq> 0 \<Longrightarrow> inbox_reachable (init_inbox_sys this nx)"
| step: "inbox_reachable s \<Longrightarrow> inbox_step s t \<Longrightarrow> inbox_reachable t"

section \<open>The invariant\<close>

definition pushed :: "push_pc \<Rightarrow> bool" where
  "pushed pc \<longleftrightarrow> pc = Push_done Success \<or> pc = Push_done Unblocked_reader"

text \<open>The elements whose push reported success.\<close>

definition landed :: "(nat \<times> push_pc) list \<Rightarrow> nat list" where
  "landed ps = map fst (filter (\<lambda>p. pushed (snd p)) ps)"

fun detached :: "reader_pc \<Rightarrow> (nat \<Rightarrow> nat) \<Rightarrow> nat list \<Rightarrow> bool" where
  "detached (Reader_taking nh (Take_done h)) nx ys \<longleftrightarrow> seg nx h ys 0"
| "detached _ nx ys \<longleftrightarrow> ys = []"

fun reader_ok :: "reader_pc \<Rightarrow> lifo_inbox \<Rightarrow> bool" where
  "reader_ok Reader_idle q \<longleftrightarrow> True"
| "reader_ok (Reader_taking nh pc) q \<longleftrightarrow>
     (nh = 0 \<and> stack q \<noteq> reader_blocked_tag q \<and> stack q \<noteq> stack_closed_tag q \<and>
        (\<forall>l. pc = Take_try l \<longrightarrow> l \<noteq> reader_blocked_tag q \<and> l \<noteq> stack_closed_tag q)
      \<or> nh = stack_closed_tag q \<and>
        (if \<exists>h. pc = Take_done h then stack q = stack_closed_tag q
         else stack q \<noteq> stack_closed_tag q \<and> pc \<noteq> Take_try (stack_closed_tag q)))"

definition accounted :: "inbox_sys \<Rightarrow> nat inbox \<Rightarrow> nat list \<Rightarrow> bool" where
  "accounted s a ys \<longleftrightarrow>
     inbox_rep (queue s) (nxt (memory s)) a \<and> detached (reader s) (nxt (memory s)) ys \<and>
     mset (landed (pushers s)) = mset (ib_elems a) + mset ys + taken s + closed_out s"

definition pushers_ok :: "inbox_sys \<Rightarrow> bool" where
  "pushers_ok s \<longleftrightarrow>
     distinct (map fst (pushers s)) \<and>
     (\<forall>e \<in> fst ` set (pushers s). node_ok (queue s) e) \<and>
     (\<forall>p \<in> set (pushers s). snd p = Push_try (stack_closed_tag (queue s)) \<longrightarrow>
        stack (queue s) = stack_closed_tag (queue s))"

definition inbox_inv :: "inbox_sys \<Rightarrow> bool" where
  "inbox_inv s \<longleftrightarrow> wf_inbox (queue s) \<and> pushers_ok s \<and> reader_ok (reader s) (queue s) \<and>
     (\<exists>a ys. accounted s a ys)"

lemma pushers_okI:
  assumes "distinct (map fst (pushers s))"
    and "\<And>p. p \<in> set (pushers s) \<Longrightarrow> node_ok (queue s) (fst p)"
    and "\<And>p. p \<in> set (pushers s) \<Longrightarrow> snd p = Push_try (stack_closed_tag (queue s)) \<Longrightarrow>
      stack (queue s) = stack_closed_tag (queue s)"
  shows "pushers_ok s"
  using assms by (simp add: pushers_ok_def)

lemma pushers_okD:
  assumes "pushers_ok s"
  shows "distinct (map fst (pushers s))"
    and "p \<in> set (pushers s) \<Longrightarrow> node_ok (queue s) (fst p)"
    and "p \<in> set (pushers s) \<Longrightarrow> snd p = Push_try (stack_closed_tag (queue s)) \<Longrightarrow>
      stack (queue s) = stack_closed_tag (queue s)"
  using assms by (auto simp: pushers_ok_def)

lemma landed_simps [simp]:
  "landed [] = []"
  "landed (p # ps) = (if pushed (snd p) then fst p # landed ps else landed ps)"
  "landed (ps @ ps') = landed ps @ landed ps'"
  by (simp_all add: landed_def)

lemma pushed_simps [simp]:
  "\<not> pushed Push_load" "\<not> pushed (Push_try l)" "pushed (Push_done r) \<longleftrightarrow> r \<noteq> Queue_closed"
  by (cases r; simp add: pushed_def)+

lemma landed_update:
  assumes "i < length ps" and "ps ! i = (e, pc)" and "\<not> pushed pc"
  shows "mset (landed (ps[i := (e, pc')])) = mset (landed ps) + (if pushed pc' then {#e#} else {#})"
  using assms
proof (induction ps arbitrary: i)
  case (Cons p ps)
  then show ?case by (cases i) auto
qed simp

lemma landed_pending:
  assumes "i < length ps" and "ps ! i = (e, pc)" and "\<not> pushed pc" and "distinct (map fst ps)"
  shows "e \<notin> set (landed ps)"
proof
  assume "e \<in> set (landed ps)"
  then obtain p where p: "p \<in> set ps" "pushed (snd p)" "fst p = e"
    by (auto simp: landed_def)
  then obtain j where j: "j < length ps" "ps ! j = p" by (auto simp: in_set_conv_nth)
  have "i = j"
    using assms(1,2,4) j p(3) by (auto simp: distinct_conv_nth) (metis fst_conv nth_map)
  with assms(2,3) j p(2) show False by auto
qed

lemma detached_frame [simp]:
  assumes "e \<notin> set ys"
  shows "detached r (nx(e := p)) ys = detached r nx ys"
  using assms by (cases "(r, nx, ys)" rule: detached.cases) auto

lemma fold_delete_nxt [simp]: "nxt (fold delete_node xs m) = nxt m"
  by (induction xs arbitrary: m) auto

section \<open>Every step keeps it\<close>

lemma push_done_stays: "push_front_step e (Push_done r) (q, m) = (Push_done r, q, m)"
  by simp

lemma push_step_frame:
  assumes "push_front_step e pc (q, m) = (pc', q', m')"
  shows "this_addr q' = this_addr q \<and> (nxt m' = nxt m \<or> (\<exists>p. nxt m' = (nxt m)(e := p)))
    \<and> (stack q' = stack q \<or> stack q' = e \<and> stack q \<noteq> stack_closed_tag q)
    \<and> (pc' = Push_try (stack_closed_tag q) \<longrightarrow> (\<forall>r. pc \<noteq> Push_done r) \<longrightarrow> stack q = stack_closed_tag q)"
  using assms by (cases pc) (auto simp: Let_def split: if_splits)

lemma push_keeps_inv:
  assumes inv: "inbox_inv s" and i: "i < length (pushers s)" "pushers s ! i = (e, pc)"
    and st: "push_front_step e pc (queue s, memory s) = (pc', q', m')"
  shows "inbox_inv (s\<lparr>queue := q', memory := m', pushers := (pushers s)[i := (e, pc')]\<rparr>)"
proof (cases "\<exists>r. pc = Push_done r")
  case True
  with i st have "(pushers s)[i := (e, pc')] = pushers s" "q' = queue s" "m' = memory s"
    by (auto simp: list_update_same_conv)
  with inv show ?thesis by simp
next
  case pending: False
  then have np: "\<not> pushed pc" by (auto simp: pushed_def)
  from inv obtain a ys where wf: "wf_inbox (queue s)" and po: "pushers_ok s"
    and ro: "reader_ok (reader s) (queue s)" and acc: "accounted s a ys"
    by (auto simp: inbox_inv_def)
  let ?q = "queue s" and ?m = "memory s"
  have mem: "(e, pc) \<in> set (pushers s)" using i by (metis nth_mem)
  have e_ok: "node_ok ?q e" using po mem by (force simp: pushers_ok_def)
  have "e \<notin> set (landed (pushers s))"
    using landed_pending [OF i np] po by (simp add: pushers_ok_def)
  then have "e \<notin># mset (ib_elems a) + mset ys + taken s + closed_out s"
    using acc by (metis accounted_def set_mset_mset)
  then have fresh: "e \<notin> set (ib_elems a)" "e \<notin> set ys"
    by simp_all
  have final: "pc = Push_try (stack_closed_tag ?q) \<longrightarrow> stack ?q = stack_closed_tag ?q"
    using po mem by (force simp: pushers_ok_def)
  have rep: "inbox_rep ?q (nxt ?m) a" using acc by (simp add: accounted_def)
  note fr = push_step_frame [OF st]
  have tags: "stack_closed_tag q' = stack_closed_tag ?q" "reader_blocked_tag q' = reader_blocked_tag ?q"
    and okq: "\<And>x. node_ok q' x = node_ok ?q x"
    using fr by (simp_all add: tag_defs node_ok_def)
  have st_cl: "stack q' = stack_closed_tag ?q \<longleftrightarrow> stack ?q = stack_closed_tag ?q"
    using fr e_ok by (auto simp: node_ok_def)
  have "pushers_ok (s\<lparr>queue := q', memory := m', pushers := (pushers s)[i := (e, pc')]\<rparr>)"
  proof (rule pushers_okI)
    show "distinct (map fst (pushers (s\<lparr>queue := q', memory := m', pushers := (pushers s)[i := (e, pc')]\<rparr>)))"
      using pushers_okD(1) [OF po] i by (simp add: map_update) (metis fst_conv list_update_id nth_map)
    fix p assume "p \<in> set (pushers (s\<lparr>queue := q', memory := m', pushers := (pushers s)[i := (e, pc')]\<rparr>))"
    then have p: "p = (e, pc') \<or> p \<in> set (pushers s)"
      using set_update_subset_insert [of "pushers s" i "(e, pc')"] by auto
    then show "node_ok (queue (s\<lparr>queue := q', memory := m', pushers := (pushers s)[i := (e, pc')]\<rparr>)) (fst p)"
      using e_ok pushers_okD(2) [OF po, of p] by (cases p) (auto simp: okq)
    show "snd p = Push_try (stack_closed_tag (queue (s\<lparr>queue := q', memory := m', pushers := (pushers s)[i := (e, pc')]\<rparr>))) \<Longrightarrow>
        stack (queue (s\<lparr>queue := q', memory := m', pushers := (pushers s)[i := (e, pc')]\<rparr>)) =
        stack_closed_tag (queue (s\<lparr>queue := q', memory := m', pushers := (pushers s)[i := (e, pc')]\<rparr>))"
      using p pushers_okD(3) [OF po, of p] fr pending by (auto simp: st_cl tags)
  qed
  moreover have "reader_ok (reader s) q'"
    using ro fr e_ok st_cl tags by (cases "reader s") (auto simp: node_ok_def)
  moreover have "\<exists>a'. accounted (s\<lparr>queue := q', memory := m', pushers := (pushers s)[i := (e, pc')]\<rparr>) a' ys"
  proof -
    have det: "detached (reader s) (nxt m') ys"
      using acc fr fresh by (auto simp: accounted_def)
    note ref = push_step_refines [OF wf rep e_ok fresh(1) final _ st]
    note ups = landed_update [OF i np, of pc']
    show ?thesis
    proof (cases "\<exists>r. pc' = Push_done r")
      case True
      then obtain r where r: "pc' = Push_done r" by blast
      with ref pending obtain a' where a': "ib_push e a = (r, a')" "inbox_rep q' (nxt m') a'" by auto
      then have "mset (ib_elems a') = mset (ib_elems a) + (if pushed pc' then {#e#} else {#})"
        using r by (cases a) auto
      with a' det ups acc show ?thesis by (auto simp: accounted_def)
    next
      case False
      with ref pending have "inbox_rep q' (nxt m') a" by (cases pc') auto
      moreover from False have "\<not> pushed pc'" by (auto simp: pushed_def)
      ultimately show ?thesis using det ups acc by (auto simp: accounted_def)
    qed
  qed
  moreover have "wf_inbox q'" using wf fr by (simp add: wf_inbox_def)
  ultimately show ?thesis by (auto simp: inbox_inv_def)
qed

lemma accounted_nodes:
  assumes "accounted s a ys" and "pushers_ok s" and "x \<in> set (ib_elems a) \<or> x \<in> set ys"
  shows "node_ok (queue s) x"
proof -
  have "x \<in># mset (landed (pushers s))" using assms(1,3) by (auto simp: accounted_def)
  then have "x \<in> fst ` set (pushers s)" by (auto simp: landed_def)
  with assms(2) show ?thesis unfolding pushers_ok_def by blast
qed

lemma pushers_ok_frame:
  assumes "pushers_ok s" and "this_addr q' = this_addr (queue s)"
    and "stack (queue s) = stack_closed_tag (queue s) \<longrightarrow> stack q' = stack_closed_tag (queue s)"
  shows "pushers_ok (s\<lparr>queue := q', reader := r\<rparr>)" "pushers_ok (s\<lparr>queue := q'\<rparr>)"
  using assms by (auto simp: pushers_ok_def node_ok_def tag_defs)

text \<open>One access of the reader's \<open>take_head\<close>: the stack moves into its detached chain at once.\<close>

lemma taking_keeps_inv:
  assumes inv: "inbox_inv s" and r: "reader s = Reader_taking nh pc"
    and st: "take_head_step spurious nh pc (queue s) = (pc', q')"
  shows "inbox_inv (s\<lparr>queue := q', reader := Reader_taking nh pc'\<rparr>)"
proof -
  from inv obtain a ys where wf: "wf_inbox (queue s)" and po: "pushers_ok s"
    and ro: "reader_ok (Reader_taking nh pc) (queue s)" and acc: "accounted s a ys"
    by (auto simp: inbox_inv_def r)
  have rep: "inbox_rep (queue s) (nxt (memory s)) a" using acc by (simp add: accounted_def)
  consider (quiet) "q' = queue s" "\<nexists>h. pc' = Take_done h"
    | (same) "q' = queue s" "pc' = pc"
    | (none) l where "pc = Take_try l" "l = nh" "q' = queue s" "pc' = Take_done 0"
    | (swap) l where "pc = Take_try l" "l \<noteq> nh" "stack (queue s) = l" "q' = (queue s)\<lparr>stack := nh\<rparr>"
        "pc' = Take_done (if is_empty_or_blocked_tag (queue s) l then 0 else l)"
  proof (cases pc)
    case Take_load
    with st have "q' = queue s" "pc' = Take_try (stack (queue s))" by auto
    then show ?thesis using quiet by simp
  next
    case (Take_try l)
    consider "l = nh" | "l \<noteq> nh" "stack (queue s) = l" "\<not> spurious"
      | "l \<noteq> nh" "stack (queue s) \<noteq> l \<or> spurious" by blast
    then show ?thesis
    proof cases
      case 1
      with st Take_try none show ?thesis by simp
    next
      case 2
      with st Take_try swap show ?thesis by simp
    next
      case 3
      with st Take_try have "q' = queue s" "pc' = Take_try (stack (queue s))" by auto
      then show ?thesis using quiet by simp
    qed
  next
    case (Take_done h)
    with st same show ?thesis by simp
  qed
  then show ?thesis
  proof cases
    case quiet
    then have "pc = Take_load \<or> (\<exists>l. pc = Take_try l)" using st by (cases pc) auto
    then have "detached (Reader_taking nh pc') (nxt (memory s)) ys"
      using acc r quiet by (cases pc') (auto simp: accounted_def)
    moreover have "reader_ok (Reader_taking nh pc') (queue s)"
      using ro st quiet by (cases pc) (auto split: if_splits)
    ultimately show ?thesis
      using wf po acc quiet pushers_ok_frame [OF po refl]
      by (auto simp: inbox_inv_def accounted_def)
  next
    case same
    then have "s\<lparr>queue := q', reader := Reader_taking nh pc'\<rparr> = s" using r by simp
    with inv show ?thesis by simp
  next
    case none
    have "reader_ok (Reader_taking nh pc') (queue s)"
      using ro none by auto
    moreover have "ys = []" using acc r none by (simp add: accounted_def)
    ultimately show ?thesis
      using wf po acc none pushers_ok_frame [OF po refl]
      by (auto simp: inbox_inv_def accounted_def intro!: exI [of _ a])
  next
    case swap
    have ys: "ys = []" using acc r swap by (simp add: accounted_def)
    have ncl: "a \<noteq> Closed" using ro swap rep by (auto split: if_splits)
    have det: "detached (Reader_taking nh pc') (nxt (memory s)) (ib_elems a)"
      using swap rep ncl wf by (cases a) (auto simp: is_empty_or_blocked_tag_def stack_empty_tag_def)
    let ?a = "if nh = 0 then Open [] else Closed"
    have nh: "nh = 0 \<or> nh = stack_closed_tag (queue s)" using ro by auto
    then have "inbox_rep q' (nxt (memory s)) ?a" using swap wf by auto
    moreover have "reader_ok (Reader_taking nh pc') q'" using ro swap wf nh by auto
    moreover have "pushers_ok (s\<lparr>queue := q', reader := Reader_taking nh pc'\<rparr>)"
      using ncl rep swap pushers_ok_frame(1) [OF po, of q'] by (cases a) (auto simp: tag_defs)
    ultimately show ?thesis
      using wf acc det ys swap
      by (auto simp: inbox_inv_def accounted_def wf_inbox_def intro!: exI [of _ ?a] exI [of _ "ib_elems a"])
  qed
qed

lemma reader_idle_keeps_inv:
  assumes inv: "inbox_inv s" and r: "reader s = Reader_idle"
  shows "inbox_inv (s\<lparr>queue := snd (inbox_try_block (queue s))\<rparr>)"
    and "inbox_inv (s\<lparr>queue := snd (inbox_try_unblock (queue s))\<rparr>)"
proof -
  from inv obtain a ys where wf: "wf_inbox (queue s)" and po: "pushers_ok s"
    and acc: "accounted s a ys" by (auto simp: inbox_inv_def)
  obtain b q' where b: "inbox_try_block (queue s) = (b, q')" by (cases "inbox_try_block (queue s)")
  obtain c q'' where c: "inbox_try_unblock (queue s) = (c, q'')"
    by (cases "inbox_try_unblock (queue s)")
  have rep: "inbox_rep (queue s) (nxt (memory s)) a" using acc by (simp add: accounted_def)
  obtain a' where a': "ib_try_block a = (b, a')" "inbox_rep q' (nxt (memory s)) a'"
    "this_addr q' = this_addr (queue s)" using try_block_refines [OF wf rep b] by blast
  obtain a'' where a'': "ib_try_unblock a = (c, a'')" "inbox_rep q'' (nxt (memory s)) a''"
    "this_addr q'' = this_addr (queue s)" using try_unblock_refines [OF wf rep c] by blast
  have "ib_elems a' = ib_elems a" "a = Closed \<longrightarrow> a' = Closed"
    using a'(1) by (cases a; cases "ib_elems a"; auto)+
  moreover have "ib_elems a'' = ib_elems a" "a = Closed \<longrightarrow> a'' = Closed"
    using a''(1) by (cases a; auto)+
  moreover have "stack (queue s) = stack_closed_tag (queue s) \<longleftrightarrow> a = Closed"
    using rep by (rule inbox_rep_closedD)
  ultimately show "inbox_inv (s\<lparr>queue := snd (inbox_try_block (queue s))\<rparr>)"
    and "inbox_inv (s\<lparr>queue := snd (inbox_try_unblock (queue s))\<rparr>)"
    using wf acc r a'(2,3) a''(2,3) pushers_ok_frame(2) [OF po a'(3)] pushers_ok_frame(2) [OF po a''(3)] b c
    by (auto simp: inbox_inv_def accounted_def wf_inbox_def tag_defs)
qed

lemma reader_frame:
  assumes "inbox_inv s" and "reader s = Reader_idle"
  shows "take_head_asserts stack_empty_tag (queue s) \<Longrightarrow>
      inbox_inv (s\<lparr>reader := Reader_taking stack_empty_tag Take_load\<rparr>)"
    and "take_head_asserts (stack_closed_tag (queue s)) (queue s) \<Longrightarrow>
      inbox_inv (s\<lparr>reader := Reader_taking (stack_closed_tag (queue s)) Take_load\<rparr>)"
  using assms
  by (auto simp: inbox_inv_def accounted_def pushers_ok_def take_head_asserts_def stack_empty_tag_def)

lemma seg_detached_eq:
  assumes acc: "accounted s a ys" and po: "pushers_ok s"
    and r: "reader s = Reader_taking nh (Take_done h)"
    and xs: "seg (nxt (memory s)) h xs 0" "0 \<notin> set xs"
  shows "xs = ys"
proof -
  have ys: "seg (nxt (memory s)) h ys 0" using acc r by (simp add: accounted_def)
  have "0 \<notin> set ys" using accounted_nodes [OF acc po] by (auto simp: node_ok_def)
  then show ?thesis using seg_unique [OF xs(1) ys] xs(2) by blast
qed

lemma reader_done_keeps_inv:
  assumes inv: "inbox_inv s" and r: "reader s = Reader_taking nh (Take_done h)"
    and xs: "seg (nxt (memory s)) h xs 0" "0 \<notin> set xs"
  shows "inbox_inv (s\<lparr>reader := Reader_idle, taken := taken s + mset xs\<rparr>)"
    and "inbox_inv (s\<lparr>reader := Reader_idle, memory := fold delete_node xs (memory s),
                      closed_out := closed_out s + mset xs\<rparr>)"
proof -
  from inv obtain a ys where wf: "wf_inbox (queue s)" and po: "pushers_ok s"
    and acc: "accounted s a ys" by (auto simp: inbox_inv_def)
  have "xs = ys" by (rule seg_detached_eq [OF acc po r xs])
  then have "accounted (s\<lparr>reader := Reader_idle, taken := taken s + mset xs\<rparr>) a []"
    and "accounted (s\<lparr>reader := Reader_idle, memory := fold delete_node xs (memory s),
                      closed_out := closed_out s + mset xs\<rparr>) a []"
    using acc by (auto simp: accounted_def)
  with wf po show "inbox_inv (s\<lparr>reader := Reader_idle, taken := taken s + mset xs\<rparr>)"
    and "inbox_inv (s\<lparr>reader := Reader_idle, memory := fold delete_node xs (memory s),
                      closed_out := closed_out s + mset xs\<rparr>)"
    by (auto simp: inbox_inv_def pushers_ok_def)
qed

lemma spawn_keeps_inv:
  assumes "inbox_inv s" and "node_ok (queue s) e" and "e \<notin> fst ` set (pushers s)"
  shows "inbox_inv (s\<lparr>pushers := pushers s @ [(e, Push_load)]\<rparr>)"
  using assms by (auto simp: inbox_inv_def pushers_ok_def accounted_def)

lemma retire_keeps_inv:
  assumes inv: "inbox_inv s" and p: "pushers s = ps @ (e, Push_done r) # ps'"
    and r: "r \<noteq> Queue_closed" and e: "e \<in># taken s"
  shows "inbox_inv (s\<lparr>pushers := ps @ ps', taken := taken s - {#e#}\<rparr>)"
proof -
  from inv obtain a ys where wf: "wf_inbox (queue s)" and po: "pushers_ok s"
    and ro: "reader_ok (reader s) (queue s)" and acc: "accounted s a ys"
    by (auto simp: inbox_inv_def)
  obtain T where T: "taken s = add_mset e T" using e by (metis multi_member_split)
  have "accounted (s\<lparr>pushers := ps @ ps', taken := taken s - {#e#}\<rparr>) a ys"
    using acc p r T by (simp add: accounted_def)
  with wf po ro p show ?thesis by (auto simp: inbox_inv_def pushers_ok_def)
qed

lemma rejected_keeps_inv:
  assumes "inbox_inv s" and "pushers s = ps @ (e, Push_done Queue_closed) # ps'"
  shows "inbox_inv (s\<lparr>pushers := ps @ ps'\<rparr>)"
  using assms by (auto simp: inbox_inv_def pushers_ok_def accounted_def)

lemma inbox_step_inv: "inbox_step s t \<Longrightarrow> inbox_inv s \<Longrightarrow> inbox_inv t"
proof (induction rule: inbox_step.induct)
  case (hand_out s h xs)
  then show ?case by (intro reader_done_keeps_inv)
next
  case (free_all s h xs)
  then show ?case by (intro reader_done_keeps_inv)
qed (simp_all add: spawn_keeps_inv push_keeps_inv reader_idle_keeps_inv reader_frame
      taking_keeps_inv retire_keeps_inv rejected_keeps_inv)

lemma inbox_inv_init: "this \<noteq> 0 \<Longrightarrow> inbox_inv (init_inbox_sys this nx)"
  by (auto simp: inbox_inv_def init_inbox_sys_def new_inbox_def wf_inbox_def pushers_ok_def
      accounted_def tag_defs intro!: exI [of _ "Open []"])

lemma inbox_reachable_inv: "inbox_reachable s \<Longrightarrow> inbox_inv s"
  by (induction rule: inbox_reachable.induct) (auto intro: inbox_inv_init inbox_step_inv)

section \<open>Schedules\<close>

datatype inbox_move =
  I_spawn nat | I_push nat | I_block | I_unblock | I_fetch | I_taking | I_close

definition inbox_move :: "inbox_move \<Rightarrow> inbox_sys \<Rightarrow> inbox_sys" where
  "inbox_move mv s =
     (case mv of
        I_spawn e \<Rightarrow>
          if node_ok (queue s) e \<and> e \<notin> fst ` set (pushers s)
          then s\<lparr>pushers := pushers s @ [(e, Push_load)]\<rparr> else s
      | I_push i \<Rightarrow>
          if i < length (pushers s)
          then (case push_front_step (fst (pushers s ! i)) (snd (pushers s ! i)) (queue s, memory s) of
                  (pc, q, m) \<Rightarrow> s\<lparr>queue := q, memory := m,
                                  pushers := (pushers s)[i := (fst (pushers s ! i), pc)]\<rparr>)
          else s
      | I_block \<Rightarrow> if reader s = Reader_idle then s\<lparr>queue := snd (inbox_try_block (queue s))\<rparr> else s
      | I_unblock \<Rightarrow> if reader s = Reader_idle then s\<lparr>queue := snd (inbox_try_unblock (queue s))\<rparr> else s
      | I_fetch \<Rightarrow>
          if reader s = Reader_idle \<and> take_head_asserts stack_empty_tag (queue s)
          then s\<lparr>reader := Reader_taking stack_empty_tag Take_load\<rparr> else s
      | I_taking \<Rightarrow>
          (case reader s of
             Reader_idle \<Rightarrow> s
           | Reader_taking nh pc \<Rightarrow>
               (case take_head_step False nh pc (queue s) of
                  (pc', q) \<Rightarrow> s\<lparr>queue := q, reader := Reader_taking nh pc'\<rparr>))
      | I_close \<Rightarrow>
          if reader s = Reader_idle \<and> take_head_asserts (stack_closed_tag (queue s)) (queue s)
          then s\<lparr>reader := Reader_taking (stack_closed_tag (queue s)) Take_load\<rparr> else s)"

definition inbox_run :: "inbox_move list \<Rightarrow> inbox_sys" where
  "inbox_run mvs = fold inbox_move mvs (init_inbox_sys 1 (\<lambda>_. 0))"

lemma inbox_move_cases: "inbox_move mv s = s \<or> inbox_step s (inbox_move mv s)"
proof (cases mv)
  case (I_push i)
  obtain e pc where "pushers s ! i = (e, pc)" by fastforce
  with I_push show ?thesis
    by (auto simp: inbox_move_def intro!: inbox_step.push split: prod.splits)
next
  case I_taking
  then show ?thesis
    by (auto simp: inbox_move_def intro!: inbox_step.taking split: prod.splits reader_pc.splits)
qed (auto simp: inbox_move_def intro: inbox_step.intros)

lemma inbox_run_reachable: "inbox_reachable (inbox_run mvs)"
proof -
  have "inbox_reachable s \<Longrightarrow> inbox_reachable (fold inbox_move mvs s)" for s
    by (induction mvs arbitrary: s) (auto, metis inbox_move_cases inbox_reachable.step)
  then show ?thesis by (simp add: inbox_run_def inbox_reachable.start)
qed

text \<open>Two producers race: the second one's compare-exchange fails once and goes round again.\<close>

definition two_producers :: "inbox_move list" where
  "two_producers = [I_block, I_spawn 10, I_spawn 20, I_push 0, I_push 1, I_push 0, I_push 1, I_push 1]"

lemmas inbox_simps = inbox_run_def inbox_move_def init_inbox_sys_def new_inbox_def tag_defs node_ok_def
  inbox_try_block_def take_head_asserts_def set_next_def

lemma two_producers_state:
  "inbox_run two_producers =
     \<lparr>queue = \<lparr>this_addr = 1, stack = 20\<rparr>,
      memory = \<lparr>nxt = (\<lambda>_. 0)(10 := 0, 20 := 0, 20 := 10), freed = []\<rparr>,
      pushers = [(10, Push_done Unblocked_reader), (20, Push_done Success)],
      reader = Reader_idle, taken = {#}, closed_out = {#}\<rparr>"
  by (simp add: two_producers_def inbox_simps Let_def)

section \<open>Properties\<close>

text \<open>C18: Conservation. At every moment of every interleaving each element whose push succeeded is in
  exactly one place: in the inbox, in the chain the reader has detached, handed out, or disposed of
  by closing; an element whose push has not succeeded is in none.\<close>

theorem inbox_conserves:
  assumes "inbox_reachable s"
  shows "\<exists>a ys. inbox_rep (queue s) (nxt (memory s)) a \<and> detached (reader s) (nxt (memory s)) ys \<and>
    (\<forall>e. count (mset (ib_elems a) + mset ys + taken s + closed_out s) e =
         (if e \<in> set (landed (pushers s)) then 1 else 0))"
proof -
  obtain a ys where acc: "accounted s a ys" and po: "pushers_ok s"
    using inbox_reachable_inv [OF assms] by (auto simp: inbox_inv_def)
  have "distinct (map fst (filter (\<lambda>p. pushed (snd p)) (pushers s)))"
    using pushers_okD(1) [OF po] by (rule distinct_map_filter)
  then have "count (mset (landed (pushers s))) e = (if e \<in> set (landed (pushers s)) then 1 else 0)" for e
    by (simp add: landed_def distinct_count_atmost_1)
  with acc show ?thesis unfolding accounted_def by metis
qed

theorem inbox_conserves_witness:
  "\<exists>a ys. inbox_rep \<lparr>this_addr = 1, stack = 20\<rparr> (nxt (memory (inbox_run two_producers))) a \<and> ys = [] \<and>
     (\<forall>e. count (mset (ib_elems a) + mset ys) e = (if e \<in> {10, 20} then 1 else 0))"
  using inbox_conserves [OF inbox_run_reachable, of two_producers]
  by (simp add: two_producers_state)

text \<open>C17: Linearisability of the push. In every reachable state, one access of a pending push either
  leaves the abstract inbox alone or performs exactly the abstract push with its result; in
  particular a recycled address cannot fool the compare-exchange.\<close>

theorem push_linearizes:
  assumes "inbox_reachable s" and "i < length (pushers s)" and "pushers s ! i = (e, pc)"
    and "\<forall>r. pc \<noteq> Push_done r" and "push_front_step e pc (queue s, memory s) = (pc', q', m')"
  shows "\<exists>a. inbox_rep (queue s) (nxt (memory s)) a \<and>
    (case pc' of Push_done r \<Rightarrow> \<exists>a'. ib_push e a = (r, a') \<and> inbox_rep q' (nxt m') a'
     | _ \<Rightarrow> inbox_rep q' (nxt m') a)"
proof -
  obtain a ys where acc: "accounted s a ys" and po: "pushers_ok s" and wf: "wf_inbox (queue s)"
    using inbox_reachable_inv [OF assms(1)] by (auto simp: inbox_inv_def)
  have rep: "inbox_rep (queue s) (nxt (memory s)) a" using acc by (simp add: accounted_def)
  have mem: "(e, pc) \<in> set (pushers s)" using assms(2,3) by (metis nth_mem)
  have np: "\<not> pushed pc" using assms(4) by (auto simp: pushed_def)
  have "e \<notin># mset (landed (pushers s))"
    using landed_pending [OF assms(2,3) np pushers_okD(1) [OF po]] by simp
  then have "e \<notin># mset (ib_elems a) + mset ys + taken s + closed_out s"
    using acc by (metis accounted_def)
  then have fresh: "e \<notin> set (ib_elems a)" by simp
  have "node_ok (queue s) e" using pushers_okD(2) [OF po mem] by simp
  from push_step_refines [OF wf rep this fresh _ assms(4,5)] pushers_okD(3) [OF po mem] rep
  show ?thesis by auto
qed

theorem push_linearizes_witness:
  "\<exists>a. inbox_rep (new_inbox 1) (\<lambda>_. 0) a \<and>
     (\<exists>a'. ib_push 10 a = (Success, a') \<and> inbox_rep \<lparr>this_addr = 1, stack = 10\<rparr> ((\<lambda>_. 0)(10 := 0)) a')"
proof -
  let ?s = "inbox_run [I_spawn 10, I_push 0]"
  have s: "?s = \<lparr>queue = new_inbox 1, memory = \<lparr>nxt = (\<lambda>_. 0), freed = []\<rparr>,
      pushers = [(10, Push_try 0)], reader = Reader_idle, taken = {#}, closed_out = {#}\<rparr>"
    by (simp add: inbox_simps)
  have "push_front_step 10 (Push_try 0) (queue ?s, memory ?s) =
      (Push_done Success, \<lparr>this_addr = 1, stack = 10\<rparr>, \<lparr>nxt = (\<lambda>_. 0)(10 := 0), freed = []\<rparr>)"
    by (simp add: s new_inbox_def tag_defs set_next_def)
  from push_linearizes [OF inbox_run_reachable _ _ _ this, of 0] show ?thesis by (simp add: s)
qed

end
