(* ===== verification/Result_Storage.thy ===== *)
theory Result_Storage
  imports Prelude
begin

text \<open>
  \<open>detail/result_storage.hpp\<close>: the in-place union that holds the result of a future, with the
  \<open>has_value_\<close> flag that says whether the union's member is alive. \<open>trivial\<close> is
  \<open>is_trivially_move_constructible_and_destructible_v\<close> of the element type, \<open>ndebug\<close> the build
  configuration: with assertions on, the assertions are part of the operations.
\<close>

text \<open>\<open>storage\<close> is \<open>None\<close> while only the dummy member is active.\<close>

record 'a result_storage =
  storage :: "'a option"
  has_value :: bool
  was_moved_from :: bool

definition rs_new :: "'a result_storage" where
  "rs_new = \<lparr>storage = None, has_value = False, was_moved_from = False\<rparr>"

text \<open>The destructor; the result is whether it ran the element's destructor.\<close>

definition rs_destroy :: "'a result_storage \<Rightarrow> bool \<times> 'a result_storage" where
  "rs_destroy s =
     (if has_value s then (True, s\<lparr>storage := None, has_value := False\<rparr>) else (False, s))"

text \<open>What moving the element out leaves behind in the source's storage.\<close>

definition move_out :: "bool \<Rightarrow> 'a result_storage \<Rightarrow> 'a result_storage" where
  "move_out trivial s = (if trivial then s else s\<lparr>storage := None\<rparr>)"

definition rs_move_ctor ::
  "bool \<Rightarrow> bool \<Rightarrow> 'a result_storage \<Rightarrow> ('a result_storage \<times> 'a result_storage) outcome" where
  "rs_move_ctor ndebug trivial other =
     (if \<not> ndebug \<and> was_moved_from other then Inl Assertion_failed
      else if has_value other
      then Inr (rs_new\<lparr>storage := storage other, has_value := True\<rparr>,
                (move_out trivial other)\<lparr>has_value := False,
                   was_moved_from := (if ndebug then was_moved_from other else True)\<rparr>)
      else Inr (rs_new, other))"

definition rs_move_assign ::
  "bool \<Rightarrow> bool \<Rightarrow> 'a result_storage \<Rightarrow> 'a result_storage \<Rightarrow>
     ('a result_storage \<times> 'a result_storage) outcome" where
  "rs_move_assign ndebug trivial self other =
     (if \<not> ndebug \<and> was_moved_from self then Inl Assertion_failed
      else if \<not> ndebug \<and> was_moved_from other then Inl Assertion_failed
      else
        (let self1 = (if has_value self then (move_out trivial self)\<lparr>has_value := False\<rparr> else self)
         in if has_value other
            then Inr (self1\<lparr>storage := storage other, has_value := True\<rparr>,
                      (move_out trivial other)\<lparr>has_value := False,
                         was_moved_from := (if ndebug then was_moved_from other else True)\<rparr>)
            else Inr (self1, other)))"

text \<open>\<open>this == &other\<close>: nothing happens past the assertions.\<close>

definition rs_self_assign :: "bool \<Rightarrow> 'a result_storage \<Rightarrow> 'a result_storage outcome" where
  "rs_self_assign ndebug self =
     (if \<not> ndebug \<and> was_moved_from self then Inl Assertion_failed else Inr self)"

definition rs_emplace :: "bool \<Rightarrow> 'a \<Rightarrow> 'a result_storage \<Rightarrow> 'a result_storage outcome" where
  "rs_emplace ndebug v s =
     (if \<not> ndebug \<and> was_moved_from s then Inl Assertion_failed
      else if \<not> ndebug \<and> has_value s then Inl Assertion_failed
      else Inr (s\<lparr>storage := Some v, has_value := True\<rparr>))"

text \<open>
  Extraction refuses a valueless storage by aborting, in every build. A live flag over a dead
  member would be undefined behaviour; the invariant below rules it out.
\<close>

definition rs_take :: "bool \<Rightarrow> bool \<Rightarrow> 'a result_storage \<Rightarrow> ('a \<times> 'a result_storage) outcome" where
  "rs_take ndebug trivial s =
     (if \<not> ndebug \<and> was_moved_from s then Inl Assertion_failed
      else if \<not> has_value s then Inl Aborted
      else (case storage s of
              None \<Rightarrow> Inl Terminated
            | Some v \<Rightarrow> Inr (v, move_out trivial (s\<lparr>has_value := False\<rparr>))))"

definition rs_get :: "bool \<Rightarrow> 'a result_storage \<Rightarrow> 'a outcome" where
  "rs_get ndebug s =
     (if \<not> ndebug \<and> was_moved_from s then Inl Assertion_failed
      else if \<not> has_value s then Inl Aborted
      else (case storage s of None \<Rightarrow> Inl Terminated | Some v \<Rightarrow> Inr v))"

section \<open>The lifetime invariant\<close>

text \<open>
  The flag says the member is alive; for a type with a destructor the member is alive exactly
  when it does, so nothing is destroyed twice or leaked.
\<close>

definition wf_storage :: "bool \<Rightarrow> 'a result_storage \<Rightarrow> bool" where
  "wf_storage trivial s \<longleftrightarrow>
     (has_value s \<longrightarrow> storage s \<noteq> None \<and> \<not> was_moved_from s) \<and>
     (\<not> trivial \<longrightarrow> storage s \<noteq> None \<longrightarrow> has_value s)"

lemma wf_rs_new [simp, inv_intros]: "wf_storage t rs_new"
  by (simp add: wf_storage_def rs_new_def)

lemma wf_rs_destroy [inv_intros]: "wf_storage t s \<Longrightarrow> wf_storage t (snd (rs_destroy s))"
  by (auto simp: wf_storage_def rs_destroy_def)

lemma wf_rs_emplace [inv_intros]:
  "wf_storage t s \<Longrightarrow> \<not> was_moved_from s \<Longrightarrow> rs_emplace nd v s = Inr s' \<Longrightarrow> wf_storage t s'"
  by (auto simp: wf_storage_def rs_emplace_def split: if_splits)

lemma wf_rs_take [inv_intros]:
  "wf_storage t s \<Longrightarrow> rs_take nd t s = Inr (v, s') \<Longrightarrow> wf_storage t s'"
  by (auto simp: wf_storage_def rs_take_def move_out_def split: if_splits option.splits)

lemma wf_rs_move_ctor [inv_intros]:
  "wf_storage t s \<Longrightarrow> rs_move_ctor nd t s = Inr (d, s') \<Longrightarrow> wf_storage t d \<and> wf_storage t s'"
  by (auto simp: wf_storage_def rs_move_ctor_def rs_new_def move_out_def split: if_splits)

lemma rs_take_total:
  "wf_storage t s \<Longrightarrow> has_value s \<Longrightarrow>
     rs_take nd t s = Inr (the (storage s), move_out t (s\<lparr>has_value := False\<rparr>))"
  by (auto simp: wf_storage_def rs_take_def)

text \<open>Extraction never touches a dead member: it yields the value or refuses.\<close>

lemma rs_take_not_dead: "wf_storage t s \<Longrightarrow> rs_take nd t s \<noteq> Inl Terminated"
  by (auto simp: wf_storage_def rs_take_def split: option.splits)

lemma rs_get_not_dead: "wf_storage t s \<Longrightarrow> rs_get nd s \<noteq> Inl Terminated"
  by (auto simp: wf_storage_def rs_get_def split: option.splits)

lemma rs_take_clears: "rs_take nd t s = Inr (v, s') \<Longrightarrow> \<not> has_value s'"
  by (auto simp: rs_take_def move_out_def split: if_splits option.splits)

section \<open>Properties\<close>

text \<open>A stored value can be extracted exactly once: after taking it the storage refuses, in debug
  and release builds alike, and moving a storage moves that right along.\<close>

theorem storage_extracts_once:
  assumes "wf_storage trivial s" and "\<not> has_value s" and "\<not> was_moved_from s"
  shows "\<exists>s1 d s2 s3. rs_emplace nd v s = Inr s1 \<and> rs_move_ctor nd trivial s1 = Inr (d, s2) \<and>
    rs_take nd trivial d = Inr (v, s3) \<and> rs_take nd trivial s3 = Inl Aborted \<and>
    rs_get nd s3 = Inl Aborted \<and> \<not> has_value s2 \<and> wf_storage trivial s2 \<and> wf_storage trivial s3"
  using assms
  by (auto simp: rs_emplace_def rs_move_ctor_def rs_take_def rs_get_def rs_new_def move_out_def
      wf_storage_def)

theorem storage_extracts_once_witness:
  "\<exists>s1. rs_emplace False (7 :: nat) rs_new = Inr s1"
  using storage_extracts_once [of False "rs_new :: nat result_storage" False 7]
  by (auto simp: rs_new_def wf_storage_def)

end
