(* ===== verification/Shared_State.thy ===== *)
theory Shared_State
  imports Result_Storage
begin

text \<open>
  \<open>detail/shared_state.hpp\<close> with \<open>detail/state_flags.hpp\<close>: the state a promise and a future
  share, an 8-bit flag word that both sides change with atomic read-modify-writes, and the
  result, error and continuation next to it. Here each operation is one call run alone;
  \<open>Settle_Protocol\<close> interleaves the two sides access by access.
\<close>

section \<open>Flags\<close>

definition sf_empty :: "8 word" where "sf_empty = 0"
definition sf_value_set :: "8 word" where "sf_value_set = 1"
definition sf_error_set :: "8 word" where "sf_error_set = 2"
definition sf_consumed :: "8 word" where "sf_consumed = 4"
definition sf_promise_released :: "8 word" where "sf_promise_released = 8"
definition sf_future_released :: "8 word" where "sf_future_released = 16"
definition sf_promise_finalizing :: "8 word" where "sf_promise_finalizing = 32"
definition sf_result_set :: "8 word" where "sf_result_set = sf_value_set OR sf_error_set"

lemmas sf_defs = sf_empty_def sf_value_set_def sf_error_set_def sf_consumed_def
  sf_promise_released_def sf_future_released_def sf_promise_finalizing_def sf_result_set_def

text \<open>Every flag is one bit, so a test is a bit test.\<close>

lemma sf_pow:
  "sf_value_set = 2 ^ 0" "sf_error_set = 2 ^ 1" "sf_consumed = 2 ^ 2" "sf_promise_released = 2 ^ 3"
  "sf_future_released = 2 ^ 4" "sf_promise_finalizing = 2 ^ 5"
  by (simp_all add: sf_defs)

lemma sf_test [simp, flag_simps]:
  "(w AND sf_value_set = 0) = (\<not> bit w 0)"
  "(w AND sf_error_set = 0) = (\<not> bit w 1)"
  "(w AND sf_consumed = 0) = (\<not> bit w 2)"
  "(w AND sf_promise_released = 0) = (\<not> bit w 3)"
  "(w AND sf_future_released = 0) = (\<not> bit w 4)"
  "(w AND sf_promise_finalizing = 0) = (\<not> bit w 5)"
  unfolding sf_pow and_exp_eq_0_iff_not_bit by (rule refl)+

lemma bit_pow8: "k < 8 \<Longrightarrow> bit (2 ^ k :: 8 word) n \<longleftrightarrow> n = k"
  by (auto simp only: bit_exp_iff possible_bit_word size_word.rep_eq len_num1 len_bit0)

lemma bit_sf [simp, flag_simps]:
  "bit sf_value_set n \<longleftrightarrow> n = 0"
  "bit sf_error_set n \<longleftrightarrow> n = 1"
  "bit sf_consumed n \<longleftrightarrow> n = 2"
  "bit sf_promise_released n \<longleftrightarrow> n = 3"
  "bit sf_future_released n \<longleftrightarrow> n = 4"
  "bit sf_promise_finalizing n \<longleftrightarrow> n = 5"
  unfolding sf_pow by (rule bit_pow8; simp)+

lemma sf_test_result [simp, flag_simps]: "(w AND sf_result_set = 0) = (\<not> bit w 0 \<and> \<not> bit w 1)"
proof -
  have "w AND sf_result_set = (w AND sf_value_set) OR (w AND sf_error_set)"
    by (simp add: sf_result_set_def bit.conj_disj_distrib)
  then show ?thesis by (simp add: or_eq_0_iff)
qed

lemma bit_clear [simp, flag_simps]:
  "bit (w AND NOT f) n \<longleftrightarrow> bit (w :: 8 word) n \<and> \<not> bit f n"
  by (auto simp: bit_simps dest: bit_imp_le_length)

lemma bit_set_flag [simp, flag_simps]: "bit (w OR f) n \<longleftrightarrow> bit (w :: 8 word) n \<or> bit f n"
  by (simp add: bit_or_iff)

section \<open>State\<close>

datatype error_code =
  No_error | Interrupted | State_not_recoverable | Broken_pipe | Operation_canceled | Other_error nat

record 'v shared_state =
  flags :: "8 word"
  result :: "'v result_storage"
  continuation :: "nat option"
  err :: error_code
  exception :: "nat option"
  deallocations :: nat

definition ss_new :: "'v shared_state" where
  "ss_new = \<lparr>flags = sf_empty, result = rs_new, continuation = None, err = No_error,
             exception = None, deallocations = 0\<rparr>"

definition fetch_or_flags :: "8 word \<Rightarrow> 'v shared_state \<Rightarrow> 8 word \<times> 'v shared_state" where
  "fetch_or_flags bits s = (flags s, s\<lparr>flags := flags s OR bits\<rparr>)"

definition fetch_and_flags :: "8 word \<Rightarrow> 'v shared_state \<Rightarrow> 8 word \<times> 'v shared_state" where
  "fetch_and_flags bits s = (flags s, s\<lparr>flags := flags s AND bits\<rparr>)"

text \<open>Success and the value \<open>expected\<close> holds afterwards.\<close>

definition cas_flags :: "8 word \<Rightarrow> 8 word \<Rightarrow> 'v shared_state \<Rightarrow> (bool \<times> 8 word) \<times> 'v shared_state" where
  "cas_flags expected desired s =
     (if flags s = expected then ((True, expected), s\<lparr>flags := desired\<rparr>)
      else ((False, flags s), s))"

definition deallocate :: "'v shared_state \<Rightarrow> 'v shared_state" where
  "deallocate s = s\<lparr>deallocations := deallocations s + 1\<rparr>"

section \<open>Operations\<close>

definition set_value :: "bool \<Rightarrow> 'v \<Rightarrow> 'v shared_state \<Rightarrow> 'v shared_state outcome" where
  "set_value ndebug v s =
     map_sum id (\<lambda>st. snd (fetch_or_flags sf_value_set (s\<lparr>result := st\<rparr>)))
       (rs_emplace ndebug v (result s))"

definition set_error :: "error_code \<Rightarrow> 'v shared_state \<Rightarrow> 'v shared_state" where
  "set_error ec s = snd (fetch_or_flags sf_error_set (s\<lparr>err := ec\<rparr>))"

definition set_exception :: "nat \<Rightarrow> 'v shared_state \<Rightarrow> 'v shared_state" where
  "set_exception ep s =
     snd (fetch_or_flags sf_error_set (s\<lparr>exception := Some ep, err := Interrupted\<rparr>))"

text \<open>\<open>Inl\<close> the exception rethrown.\<close>

definition rethrow_if_exception :: "'v shared_state \<Rightarrow> nat + unit" where
  "rethrow_if_exception s =
     (case exception s of
        Some ep \<Rightarrow> if flags s AND sf_error_set \<noteq> 0 then Inl ep else Inr ()
      | None \<Rightarrow> Inr ())"

definition is_ready :: "'v shared_state \<Rightarrow> bool" where
  "is_ready s \<longleftrightarrow> flags s AND sf_promise_released \<noteq> 0"

definition has_result :: "'v shared_state \<Rightarrow> bool" where
  "has_result s \<longleftrightarrow> flags s AND sf_result_set \<noteq> 0"

definition has_error :: "'v shared_state \<Rightarrow> bool" where
  "has_error s \<longleftrightarrow> flags s AND sf_error_set \<noteq> 0"

definition get_error :: "'v shared_state \<Rightarrow> error_code" where
  "get_error s = err s"

definition get_value :: "bool \<Rightarrow> 'v shared_state \<Rightarrow> 'v outcome" where
  "get_value ndebug s = rs_get ndebug (result s)"

definition take_value :: "bool \<Rightarrow> bool \<Rightarrow> 'v shared_state \<Rightarrow> ('v \<times> 'v shared_state) outcome" where
  "take_value ndebug trivial s =
     (let s1 = snd (fetch_or_flags sf_consumed s)
      in map_sum id (\<lambda>(v, st). (v, s1\<lparr>result := st\<rparr>)) (rs_take ndebug trivial (result s1)))"

definition holds_value :: "'v shared_state \<Rightarrow> bool" where
  "holds_value s \<longleftrightarrow>
     flags s AND (sf_value_set OR sf_error_set OR sf_consumed) = sf_value_set"

text \<open>The bits \<open>release_promise\<close> publishes, and its write of the error that goes with them.\<close>

definition release_bits :: "8 word \<Rightarrow> 8 word" where
  "release_bits seen =
     (if seen AND sf_result_set = 0 then sf_promise_released OR sf_error_set
      else sf_promise_released)"

definition release_repair :: "8 word \<Rightarrow> 'v shared_state \<Rightarrow> 'v shared_state" where
  "release_repair seen s =
     (if seen AND sf_result_set = 0 then s\<lparr>err := State_not_recoverable\<rparr> else s)"

definition release_promise :: "'v shared_state \<Rightarrow> bool \<times> 'v shared_state" where
  "release_promise s =
     (let seen = flags s; s1 = release_repair seen s;
          (old, s2) = fetch_or_flags (release_bits seen) s1
      in if old AND sf_future_released \<noteq> 0 then (True, deallocate s2) else (False, s2))"

definition release_future :: "'v shared_state \<Rightarrow> 'v shared_state" where
  "release_future s =
     (let (old, s1) = fetch_or_flags sf_future_released s
      in if old AND sf_promise_released \<noteq> 0 \<and> \<not> old AND sf_promise_finalizing \<noteq> 0
         then deallocate s1 else s1)"

definition finalize_expected :: "8 word \<Rightarrow> 8 word" where
  "finalize_expected current = current AND NOT sf_future_released"

definition finalize_desired :: "8 word \<Rightarrow> 8 word" where
  "finalize_desired current = finalize_expected current AND NOT sf_promise_finalizing"

definition try_complete_finalize :: "'v shared_state \<Rightarrow> bool \<times> 'v shared_state" where
  "try_complete_finalize s =
     (case cas_flags (finalize_expected (flags s)) (finalize_desired (flags s)) s of
        ((ok, expected), s1) \<Rightarrow>
          if ok then (True, s1)
          else if expected AND sf_future_released \<noteq> 0 then (False, deallocate s1)
          else (True, snd (fetch_and_flags (NOT sf_promise_finalizing) s1)))"

text \<open>\<open>promise::settle\<close> of \<open>detail/future.hpp\<close>, and the message destructor's cleanup.\<close>

definition settle :: "'v shared_state \<Rightarrow> 'v shared_state" where
  "settle s =
     (let s1 = snd (fetch_or_flags sf_promise_finalizing s); (deallocated, s2) = release_promise s1
      in if deallocated then s2 else snd (try_complete_finalize s2))"

definition cleanup_slot :: "'v shared_state \<Rightarrow> 'v shared_state" where
  "cleanup_slot s = snd (release_promise (set_error Operation_canceled s))"

lemma holds_value_bits:
  "holds_value s \<longleftrightarrow> bit (flags s) 0 \<and> \<not> bit (flags s) 1 \<and> \<not> bit (flags s) 2"
proof -
  let ?m = "sf_value_set OR sf_error_set OR sf_consumed"
  have "flags s AND ?m = sf_value_set \<longleftrightarrow>
      (\<forall>n < 8. (bit (flags s) n \<and> (n = 0 \<or> n = 1 \<or> n = 2)) = (n = 0))"
    by (simp only: bit_eq_iff [of "flags s AND ?m"] possible_bit_word size_word.rep_eq bit_and_iff
        bit_or_iff bit_sf disj_assoc, simp)
  also have "\<dots> \<longleftrightarrow> bit (flags s) 0 \<and> \<not> bit (flags s) 1 \<and> \<not> bit (flags s) 2"
    by (auto simp: numeral_eq_Suc less_Suc_eq)
  finally show ?thesis by (simp add: holds_value_def)
qed

lemma query_bits [flag_simps]:
  "is_ready s \<longleftrightarrow> bit (flags s) 3"
  "has_result s \<longleftrightarrow> bit (flags s) 0 \<or> bit (flags s) 1"
  "has_error s \<longleftrightarrow> bit (flags s) 1"
  by (simp_all add: is_ready_def has_result_def has_error_def)

end
