(* ===== verification/Settle_Protocol.thy ===== *)
theory Settle_Protocol
  imports Shared_State
begin

text \<open>
  The last-one-out protocol of the shared state under every interleaving: one producer
  (\<open>promise::set_value\<close>/\<open>error\<close>/\<open>exception\<close> with \<open>settle\<close>, a coroutine's
  \<open>final_awaiter\<close>, or the cleanup a dying message runs) against one consumer (a
  \<open>unique_future\<close> that may extract and then releases). A step is one atomic access to the flag
  word together with the plain accesses next to it.
\<close>

section \<open>The two programs\<close>

datatype 'v product =
  Produce_value 'v | Produce_error error_code | Produce_exception nat | Produce_nothing

datatype 'v producer_pc =
  P_write "'v product" | P_publish "8 word" | P_finalizing | P_load | P_or "8 word"
| P_reload | P_cas "8 word" | P_clear | P_dealloc | P_done | P_faulted fault

text \<open>\<open>fin\<close>: the producer announces that it is finalizing, which the message cleanup does not.\<close>

definition after_publish :: "bool \<Rightarrow> 'v producer_pc" where
  "after_publish fin = (if fin then P_finalizing else P_load)"

fun producer_step ::
  "bool \<Rightarrow> bool \<Rightarrow> 'v producer_pc \<Rightarrow> 'v shared_state \<Rightarrow> 'v producer_pc \<times> 'v shared_state" where
  "producer_step nd fin (P_write (Produce_value v)) s =
     (case rs_emplace nd v (result s) of
        Inl f \<Rightarrow> (P_faulted f, s)
      | Inr st \<Rightarrow> (P_publish sf_value_set, s\<lparr>result := st\<rparr>))"
| "producer_step nd fin (P_write (Produce_error ec)) s = (P_publish sf_error_set, s\<lparr>err := ec\<rparr>)"
| "producer_step nd fin (P_write (Produce_exception ep)) s =
     (P_publish sf_error_set, s\<lparr>exception := Some ep, err := Interrupted\<rparr>)"
| "producer_step nd fin (P_write Produce_nothing) s = (after_publish fin, s)"
| "producer_step nd fin (P_publish b) s = (after_publish fin, snd (fetch_or_flags b s))"
| "producer_step nd fin P_finalizing s = (P_load, snd (fetch_or_flags sf_promise_finalizing s))"
| "producer_step nd fin P_load s = (P_or (release_bits (flags s)), release_repair (flags s) s)"
| "producer_step nd fin (P_or b) s =
     (case fetch_or_flags b s of (old, s') \<Rightarrow>
        (if old AND sf_future_released \<noteq> 0 then P_dealloc else if fin then P_reload else P_done, s'))"
| "producer_step nd fin P_reload s = (P_cas (flags s), s)"
| "producer_step nd fin (P_cas current) s =
     (case cas_flags (finalize_expected current) (finalize_desired current) s of
        ((ok, expected), s') \<Rightarrow>
          (if ok then P_done
           else if expected AND sf_future_released \<noteq> 0 then P_dealloc else P_clear, s'))"
| "producer_step nd fin P_clear s = (P_done, snd (fetch_and_flags (NOT sf_promise_finalizing) s))"
| "producer_step nd fin P_dealloc s = (P_done, deallocate s)"
| "producer_step nd fin P_done s = (P_done, s)"
| "producer_step nd fin (P_faulted f) s = (P_faulted f, s)"

text \<open>
  The consumer: \<open>take_ready\<close> checks (\<open>check_extractable\<close>), marks the result consumed, moves it
  out and releases; \<open>detach\<close> or the destructor releases alone. \<open>C_refused\<close> is the abort of
  \<open>refuse_valueless_extraction\<close>, \<open>C_failed\<close> a rethrown exception.
\<close>

datatype 'v consumer_pc =
  C_live | C_rethrow | C_has_result | C_has_error | C_consume | C_take | C_taken 'v
| C_failed nat | C_refused | C_dealloc | C_done | C_faulted fault

datatype consumer_action = Begin_take | Release | Continue

definition begin_release :: "'v shared_state \<Rightarrow> 'v consumer_pc \<times> 'v shared_state" where
  "begin_release s =
     (case fetch_or_flags sf_future_released s of (old, s') \<Rightarrow>
        (if old AND sf_promise_released \<noteq> 0 \<and> \<not> old AND sf_promise_finalizing \<noteq> 0
         then C_dealloc else C_done, s'))"

fun consumer_step ::
  "bool \<Rightarrow> bool \<Rightarrow> consumer_action \<Rightarrow> 'v consumer_pc \<Rightarrow> 'v shared_state \<Rightarrow>
     'v consumer_pc \<times> 'v shared_state" where
  "consumer_step nd tr act C_live s =
     (case act of Begin_take \<Rightarrow> (C_rethrow, s) | Release \<Rightarrow> begin_release s | Continue \<Rightarrow> (C_live, s))"
| "consumer_step nd tr act C_rethrow s =
     (case rethrow_if_exception s of Inl ep \<Rightarrow> (C_failed ep, s) | Inr _ \<Rightarrow> (C_has_result, s))"
| "consumer_step nd tr act C_has_result s = (if has_result s then C_has_error else C_refused, s)"
| "consumer_step nd tr act C_has_error s = (if has_error s then C_refused else C_consume, s)"
| "consumer_step nd tr act C_consume s = (C_take, snd (fetch_or_flags sf_consumed s))"
| "consumer_step nd tr act C_take s =
     (case rs_take nd tr (result s) of
        Inl f \<Rightarrow> (C_faulted f, s) | Inr (v, st) \<Rightarrow> (C_taken v, s\<lparr>result := st\<rparr>))"
| "consumer_step nd tr act (C_taken v) s = begin_release s"
| "consumer_step nd tr act (C_failed ep) s =
     (if act = Release then begin_release s else (C_failed ep, s))"
| "consumer_step nd tr act C_dealloc s = (C_done, deallocate s)"
| "consumer_step nd tr act C_refused s = (C_refused, s)"
| "consumer_step nd tr act C_done s = (C_done, s)"
| "consumer_step nd tr act (C_faulted f) s = (C_faulted f, s)"

section \<open>Interleaving\<close>

record 'v settle_sys =
  shared :: "'v shared_state"
  ppc :: "'v producer_pc"
  cpc :: "'v consumer_pc"

definition settle_init :: "'v product \<Rightarrow> 'v settle_sys" where
  "settle_init k = \<lparr>shared = ss_new, ppc = P_write k, cpc = C_live\<rparr>"

definition producer_move :: "bool \<Rightarrow> bool \<Rightarrow> 'v settle_sys \<Rightarrow> 'v settle_sys" where
  "producer_move nd fin y =
     (case producer_step nd fin (ppc y) (shared y) of (pc, s) \<Rightarrow> y\<lparr>ppc := pc, shared := s\<rparr>)"

definition consumer_move :: "bool \<Rightarrow> bool \<Rightarrow> consumer_action \<Rightarrow> 'v settle_sys \<Rightarrow> 'v settle_sys" where
  "consumer_move nd tr act y =
     (case consumer_step nd tr act (cpc y) (shared y) of (pc, s) \<Rightarrow> y\<lparr>cpc := pc, shared := s\<rparr>)"

text \<open>An aborted process takes no step.\<close>

inductive settle_step :: "bool \<Rightarrow> bool \<Rightarrow> bool \<Rightarrow> 'v settle_sys \<Rightarrow> 'v settle_sys \<Rightarrow> bool"
  for nd tr fin where
  producer: "cpc y \<noteq> C_refused \<Longrightarrow> settle_step nd tr fin y (producer_move nd fin y)"
| consumer: "cpc y \<noteq> C_refused \<Longrightarrow> settle_step nd tr fin y (consumer_move nd tr act y)"

inductive settle_reachable :: "bool \<Rightarrow> bool \<Rightarrow> bool \<Rightarrow> 'v product \<Rightarrow> 'v settle_sys \<Rightarrow> bool"
  for nd tr fin k where
  init: "settle_reachable nd tr fin k (settle_init k)"
| step: "settle_reachable nd tr fin k y \<Longrightarrow> settle_step nd tr fin y z \<Longrightarrow>
     settle_reachable nd tr fin k z"

section \<open>The invariant\<close>

fun producer_ok :: "bool \<Rightarrow> 'v producer_pc \<Rightarrow> 'v shared_state \<Rightarrow> bool" where
  "producer_ok fin (P_write k) s \<longleftrightarrow>
     \<not> bit (flags s) 0 \<and> \<not> bit (flags s) 1 \<and> \<not> bit (flags s) 3 \<and> \<not> bit (flags s) 5 \<and>
     result s = rs_new"
| "producer_ok fin (P_publish b) s \<longleftrightarrow>
     \<not> bit (flags s) 0 \<and> \<not> bit (flags s) 1 \<and> \<not> bit (flags s) 3 \<and> \<not> bit (flags s) 5 \<and>
     (b = sf_value_set \<and> has_value (result s) \<or> b = sf_error_set)"
| "producer_ok fin P_finalizing s \<longleftrightarrow> fin \<and> \<not> bit (flags s) 3 \<and> \<not> bit (flags s) 5"
| "producer_ok fin P_load s \<longleftrightarrow> \<not> bit (flags s) 3 \<and> bit (flags s) 5 = fin"
| "producer_ok fin (P_or b) s \<longleftrightarrow> \<not> bit (flags s) 3 \<and> bit (flags s) 5 = fin \<and>
     (b = sf_promise_released \<and> (bit (flags s) 0 \<or> bit (flags s) 1) \<or>
      b = sf_promise_released OR sf_error_set \<and> \<not> bit (flags s) 0)"
| "producer_ok fin P_reload s \<longleftrightarrow> bit (flags s) 3 \<and> bit (flags s) 5"
| "producer_ok fin (P_cas c) s \<longleftrightarrow> bit (flags s) 3 \<and> bit (flags s) 5 \<and>
     (\<forall>n. n \<noteq> 2 \<longrightarrow> n \<noteq> 4 \<longrightarrow> bit c n = bit (flags s) n) \<and> (bit c 2 \<longrightarrow> bit (flags s) 2)"
| "producer_ok fin P_clear s \<longleftrightarrow> bit (flags s) 3 \<and> bit (flags s) 5 \<and> bit (flags s) 2"
| "producer_ok fin P_dealloc s \<longleftrightarrow> bit (flags s) 3 \<and> deallocations s = 0"
| "producer_ok fin P_done s \<longleftrightarrow> bit (flags s) 3 \<and> (bit (flags s) 5 \<longrightarrow> deallocations s = 1)"
| "producer_ok fin (P_faulted f) s \<longleftrightarrow> False"

fun consumer_ok :: "'v consumer_pc \<Rightarrow> 'v shared_state \<Rightarrow> bool" where
  "consumer_ok C_has_error s \<longleftrightarrow> \<not> bit (flags s) 2 \<and> \<not> bit (flags s) 4 \<and>
     (bit (flags s) 0 \<or> bit (flags s) 1)"
| "consumer_ok C_consume s \<longleftrightarrow> \<not> bit (flags s) 2 \<and> \<not> bit (flags s) 4 \<and>
     bit (flags s) 0 \<and> \<not> bit (flags s) 1"
| "consumer_ok C_take s \<longleftrightarrow> bit (flags s) 2 \<and> \<not> bit (flags s) 4 \<and> has_value (result s)"
| "consumer_ok (C_taken v) s \<longleftrightarrow> bit (flags s) 2 \<and> \<not> bit (flags s) 4"
| "consumer_ok C_dealloc s \<longleftrightarrow> bit (flags s) 4 \<and> deallocations s = 0"
| "consumer_ok C_done s \<longleftrightarrow> bit (flags s) 4"
| "consumer_ok (C_faulted f) s \<longleftrightarrow> False"
| "consumer_ok _ s \<longleftrightarrow> \<not> bit (flags s) 2 \<and> \<not> bit (flags s) 4"

definition common_ok :: "bool \<Rightarrow> 'v shared_state \<Rightarrow> bool" where
  "common_ok tr s \<longleftrightarrow>
     \<not> (bit (flags s) 0 \<and> bit (flags s) 1) \<and> (bit (flags s) 3 \<longrightarrow> bit (flags s) 0 \<or> bit (flags s) 1) \<and>
     (bit (flags s) 0 \<longrightarrow> \<not> bit (flags s) 2 \<longrightarrow> has_value (result s)) \<and>
     (bit (flags s) 2 \<longrightarrow> bit (flags s) 0) \<and> wf_storage tr (result s)"

definition owners_ok :: "'v settle_sys \<Rightarrow> bool" where
  "owners_ok y \<longleftrightarrow>
     (cpc y = C_dealloc \<longrightarrow> ppc y = P_done) \<and> (ppc y = P_dealloc \<longrightarrow> cpc y = C_done) \<and>
     (deallocations (shared y) \<noteq> 0 \<longrightarrow>
        deallocations (shared y) = 1 \<and> ppc y = P_done \<and> cpc y = C_done) \<and>
     (ppc y = P_done \<longrightarrow> cpc y = C_done \<longrightarrow> deallocations (shared y) = 0 \<longrightarrow>
        bit (flags (shared y)) 2)"

definition settle_inv :: "bool \<Rightarrow> bool \<Rightarrow> 'v settle_sys \<Rightarrow> bool" where
  "settle_inv tr fin y \<longleftrightarrow>
     producer_ok fin (ppc y) (shared y) \<and> consumer_ok (cpc y) (shared y) \<and>
     common_ok tr (shared y) \<and> owners_ok y"

lemma consumer_ok_frame:
  assumes "consumer_ok c s" and "deallocations s' = deallocations s"
    and "bit (flags s') 2 = bit (flags s) 2" "bit (flags s') 4 = bit (flags s) 4"
    and "has_value (result s) \<longrightarrow> has_value (result s')"
    and "bit (flags s) 0 \<or> bit (flags s) 1 \<longrightarrow>
      bit (flags s') 0 = bit (flags s) 0 \<and> bit (flags s') 1 = bit (flags s) 1"
  shows "consumer_ok c s'"
  using assms by (cases c) auto

lemma consumer_ok_bit4: "consumer_ok c s \<Longrightarrow> bit (flags s) 4 \<longleftrightarrow> c = C_dealloc \<or> c = C_done"
  by (cases c) auto

lemma cas_differs:
  assumes "\<forall>n. n \<noteq> 2 \<longrightarrow> n \<noteq> 4 \<longrightarrow> bit c n = bit w n" and "bit c 2 \<longrightarrow> bit w 2"
    and "w \<noteq> finalize_expected c" and "\<not> bit w 4"
  shows "bit w 2"
proof (rule ccontr)
  assume "\<not> bit w 2"
  with assms(1,2,4) have "bit w n = bit (finalize_expected c) n" for n
    by (cases "n = 2 \<or> n = 4") (auto simp: finalize_expected_def)
  then have "w = finalize_expected c" by (intro bit_eqI) blast
  with assms(3) show False ..
qed

lemma producer_move_inv:
  assumes "settle_inv tr fin y"
  shows "settle_inv tr fin (producer_move nd fin y)"
proof -
  obtain s pc c where y: "y = \<lparr>shared = s, ppc = pc, cpc = c\<rparr>" by (cases y)
  have p: "producer_ok fin pc s" and c: "consumer_ok c s" and m: "common_ok tr s" and o: "owners_ok y"
    using assms by (auto simp: settle_inv_def y)
  note b4 = consumer_ok_bit4 [OF c]
  show ?thesis
  proof (cases pc)
    case (P_write k)
    show ?thesis
      using p c m o consumer_ok_frame [OF c]
      by (cases k) (auto simp: y P_write producer_move_def settle_inv_def owners_ok_def common_ok_def
          rs_emplace_def rs_new_def wf_storage_def after_publish_def)
  next
    case (P_publish b)
    have "consumer_ok c (snd (fetch_or_flags b s))"
      by (rule consumer_ok_frame [OF c]) (use p P_publish in \<open>auto simp: fetch_or_flags_def\<close>)
    then show ?thesis
      using p m o by (auto simp: y P_publish producer_move_def settle_inv_def owners_ok_def common_ok_def
          fetch_or_flags_def after_publish_def)
  next
    case P_finalizing
    have "consumer_ok c (snd (fetch_or_flags sf_promise_finalizing s))"
      by (rule consumer_ok_frame [OF c]) (auto simp: fetch_or_flags_def)
    then show ?thesis
      using p m o by (auto simp: y P_finalizing producer_move_def settle_inv_def owners_ok_def
          common_ok_def fetch_or_flags_def)
  next
    case P_load
    have "consumer_ok c (release_repair (flags s) s)"
      by (rule consumer_ok_frame [OF c]) (auto simp: release_repair_def)
    then show ?thesis
      using p m o by (auto simp: y P_load producer_move_def settle_inv_def owners_ok_def common_ok_def
          release_repair_def release_bits_def)
  next
    case (P_or b)
    have "consumer_ok c (snd (fetch_or_flags b s))"
      by (rule consumer_ok_frame [OF c]) (use p P_or in \<open>auto simp: fetch_or_flags_def\<close>)
    then show ?thesis
      using p m o b4 by (auto simp: y P_or producer_move_def settle_inv_def owners_ok_def common_ok_def
          fetch_or_flags_def)
  next
    case P_reload
    then show ?thesis
      using p c m o by (auto simp: y producer_move_def settle_inv_def owners_ok_def)
  next
    case (P_cas cur)
    show ?thesis
    proof (cases "flags s = finalize_expected cur")
      case True
      then have w: "bit (finalize_desired cur) n = (bit (flags s) n \<and> n \<noteq> 5)" for n
        by (auto simp: finalize_desired_def)
      have n4: "\<not> bit (flags s) 4" unfolding True by (simp add: finalize_expected_def)
      have "consumer_ok c (s\<lparr>flags := finalize_desired cur\<rparr>)"
        by (rule consumer_ok_frame [OF c]) (auto simp: w)
      then show ?thesis
        using p m o b4 n4 True w by (auto simp: y P_cas producer_move_def settle_inv_def owners_ok_def
            common_ok_def cas_flags_def)
    next
      case False
      with p P_cas have d: "\<not> bit (flags s) 4 \<longrightarrow> bit (flags s) 2"
        using cas_differs [of cur "flags s"] by auto
      show ?thesis
        using p c m o b4 False d by (auto simp: y P_cas producer_move_def settle_inv_def owners_ok_def
            cas_flags_def)
    qed
  next
    case P_clear
    have "consumer_ok c (snd (fetch_and_flags (NOT sf_promise_finalizing) s))"
      by (rule consumer_ok_frame [OF c]) (auto simp: fetch_and_flags_def)
    then show ?thesis
      using p m o by (auto simp: y P_clear producer_move_def settle_inv_def owners_ok_def common_ok_def
          fetch_and_flags_def)
  next
    case P_dealloc
    then show ?thesis
      using p c m o by (auto simp: y producer_move_def settle_inv_def owners_ok_def common_ok_def
          deallocate_def)
  next
    case P_done
    then show ?thesis using assms by (simp add: y producer_move_def)
  next
    case (P_faulted f)
    then show ?thesis using p by simp
  qed
qed

text \<open>The consumer's writes set \<open>consumed\<close> and \<open>future_released\<close> only.\<close>

lemma producer_ok_frame:
  assumes "producer_ok fin pc s" and "deallocations s' = deallocations s"
    and "\<forall>n. n \<noteq> 2 \<longrightarrow> n \<noteq> 4 \<longrightarrow> bit (flags s') n = bit (flags s) n"
    and "bit (flags s) 2 \<longrightarrow> bit (flags s') 2"
    and "result s' = result s \<or> bit (flags s) 0"
  shows "producer_ok fin pc s'"
  using assms by (cases pc) auto

lemma begin_release_inv:
  assumes inv: "settle_inv tr fin y" and rel: "begin_release (shared y) = (c', s')"
    and c4: "\<not> bit (flags (shared y)) 4"
  shows "settle_inv tr fin (y\<lparr>cpc := c', shared := s'\<rparr>)"
proof -
  let ?s = "shared y"
  have p: "producer_ok fin (ppc y) ?s" and c: "consumer_ok (cpc y) ?s" and m: "common_ok tr ?s"
    and o: "owners_ok y" using inv by (auto simp: settle_inv_def)
  have nc: "cpc y \<noteq> C_done" "cpc y \<noteq> C_dealloc" using c c4 by (auto simp: consumer_ok_bit4)
  then have d: "deallocations ?s = 0" using o by (auto simp: owners_ok_def)
  have s': "s' = snd (fetch_or_flags sf_future_released ?s)"
    and c': "c' = (if bit (flags ?s) 3 \<and> \<not> bit (flags ?s) 5 then C_dealloc else C_done)"
    using rel by (auto simp: begin_release_def fetch_or_flags_def)
  have "producer_ok fin (ppc y) s'"
    unfolding s' by (rule producer_ok_frame [OF p]) (auto simp: fetch_or_flags_def)
  moreover have "owners_ok (y\<lparr>cpc := c', shared := s'\<rparr>)"
  proof (cases "bit (flags ?s) 3 \<and> \<not> bit (flags ?s) 5")
    case True
    then have "ppc y = P_done" using p o nc by (cases "ppc y") (auto simp: owners_ok_def)
    with True d c' show ?thesis by (simp add: owners_ok_def s' fetch_or_flags_def)
  next
    case False
    then have "ppc y \<noteq> P_done" using p d by auto
    moreover have "ppc y \<noteq> P_dealloc" using o nc by (auto simp: owners_ok_def)
    moreover have "c' = C_done" using False c' by simp
    ultimately show ?thesis using d by (simp add: owners_ok_def s' fetch_or_flags_def)
  qed
  moreover have "common_ok tr s'" using m by (simp add: common_ok_def s' fetch_or_flags_def)
  moreover have "consumer_ok c' s'" using d c' by (simp add: s' fetch_or_flags_def)
  ultimately show ?thesis
    unfolding settle_inv_def by simp
qed

lemma consumer_move_inv:
  assumes inv: "settle_inv tr fin y"
  shows "settle_inv tr fin (consumer_move nd tr act y)"
proof -
  obtain s pc c where y: "y = \<lparr>shared = s, ppc = pc, cpc = c\<rparr>" by (cases y)
  have p: "producer_ok fin pc s" and c: "consumer_ok c s" and m: "common_ok tr s" and o: "owners_ok y"
    using inv by (auto simp: settle_inv_def y)
  have rel: "settle_inv tr fin (y\<lparr>cpc := fst (begin_release s), shared := snd (begin_release s)\<rparr>)"
    if "\<not> bit (flags s) 4"
    using begin_release_inv [OF inv, of "fst (begin_release s)" "snd (begin_release s)"] that
    by (simp add: y)
  show ?thesis
  proof (cases c)
    case C_live
    then show ?thesis
      using rel p c m o by (cases act)
        (auto simp: consumer_move_def y settle_inv_def owners_ok_def split: prod.splits)
  next
    case C_rethrow
    then show ?thesis
      using p c m o by (auto simp: consumer_move_def y settle_inv_def owners_ok_def split: sum.splits)
  next
    case C_has_result
    then show ?thesis
      using p c m o by (auto simp: consumer_move_def y settle_inv_def owners_ok_def query_bits)
  next
    case C_has_error
    then show ?thesis
      using p c m o by (auto simp: consumer_move_def y settle_inv_def owners_ok_def query_bits)
  next
    case C_consume
    have "producer_ok fin pc (snd (fetch_or_flags sf_consumed s))"
      by (rule producer_ok_frame [OF p]) (auto simp: fetch_or_flags_def)
    then show ?thesis
      using p c m o C_consume
      by (auto simp: consumer_move_def y settle_inv_def owners_ok_def common_ok_def fetch_or_flags_def)
  next
    case C_take
    then have b: "bit (flags s) 0" "bit (flags s) 2" "has_value (result s)" "wf_storage tr (result s)"
      using c m by (auto simp: common_ok_def)
    obtain st where t: "rs_take nd tr (result s) = Inr (the (storage (result s)), st)"
      using rs_take_total [OF b(4,3)] by blast
    have "producer_ok fin pc (s\<lparr>result := st\<rparr>)"
      by (rule producer_ok_frame [OF p]) (use b in auto)
    then show ?thesis
      using p c m o C_take t b wf_rs_take [OF b(4) t]
      by (auto simp: consumer_move_def y settle_inv_def owners_ok_def common_ok_def)
  next
    case (C_taken v)
    then show ?thesis
      using rel c by (auto simp: consumer_move_def y split: prod.splits)
  next
    case (C_failed ep)
    then show ?thesis
      using rel c inv by (auto simp: consumer_move_def y split: prod.splits)
  next
    case C_dealloc
    then show ?thesis
      using p c m o by (cases pc)
        (auto simp: consumer_move_def y settle_inv_def owners_ok_def common_ok_def deallocate_def)
  qed (use inv in \<open>simp_all add: consumer_move_def y\<close>)
qed

lemma settle_init_inv: "settle_inv tr fin (settle_init k)"
  by (simp add: settle_inv_def settle_init_def ss_new_def common_ok_def owners_ok_def sf_empty_def)

lemma settle_reachable_inv: "settle_reachable nd tr fin k y \<Longrightarrow> settle_inv tr fin y"
proof (induction rule: settle_reachable.induct)
  case init
  then show ?case by (rule settle_init_inv)
next
  case (step y z)
  from step.hyps(2) step.IH show ?case
    by (induction rule: settle_step.induct) (simp_all add: producer_move_inv consumer_move_inv)
qed

section \<open>The value that is delivered\<close>

text \<open>Whatever sits in the storage, or has been taken out of it, is what the producer produced.\<close>

definition value_inv :: "'v product \<Rightarrow> 'v settle_sys \<Rightarrow> bool" where
  "value_inv k y \<longleftrightarrow>
     (\<forall>v. storage (result (shared y)) = Some v \<longrightarrow> k = Produce_value v) \<and>
     (\<forall>v. cpc y = C_taken v \<longrightarrow> k = Produce_value v) \<and> (\<forall>k'. ppc y = P_write k' \<longrightarrow> k' = k)"

lemma producer_value:
  assumes "producer_step nd fin pc s = (pc', s')" and "storage (result s') = Some v"
  shows "storage (result s) = Some v \<or> pc = P_write (Produce_value v)"
proof (cases pc)
  case (P_write k)
  with assms show ?thesis by (cases k) (auto simp: rs_emplace_def split: if_splits)
qed (use assms in \<open>auto simp: fetch_or_flags_def fetch_and_flags_def cas_flags_def release_repair_def
    deallocate_def split: if_splits prod.splits\<close>)

lemma producer_no_write: "producer_step nd fin pc s = (P_write k, s') \<Longrightarrow> pc = P_write k"
proof (cases pc)
  case (P_write k')
  assume "producer_step nd fin pc s = (P_write k, s')"
  with P_write show ?thesis
    by (cases k') (auto simp: after_publish_def split: sum.splits if_splits)
qed (auto simp: after_publish_def fetch_or_flags_def cas_flags_def split: if_splits prod.splits)

lemma consumer_value:
  assumes "consumer_step nd tr act pc s = (pc', s')"
  shows "storage (result s') = Some v \<Longrightarrow> storage (result s) = Some v"
    and "pc' = C_taken v \<Longrightarrow> storage (result s) = Some v"
  using assms
  by (cases pc; auto simp: begin_release_def fetch_or_flags_def deallocate_def rs_take_def move_out_def
      split: if_splits prod.splits sum.splits option.splits consumer_action.splits)+

lemma settle_step_value: "settle_step nd tr fin y z \<Longrightarrow> value_inv k y \<Longrightarrow> value_inv k z"
proof (induction rule: settle_step.induct)
  case (producer y)
  obtain pc s where st: "producer_step nd fin (ppc y) (shared y) = (pc, s)" by fastforce
  then have z: "producer_move nd fin y = y\<lparr>ppc := pc, shared := s\<rparr>" by (simp add: producer_move_def)
  show ?case
    unfolding z value_inv_def
    using producer.prems producer_value [OF st] producer_no_write [of nd fin "ppc y" "shared y" _ s] st
    by (auto simp: value_inv_def)
next
  case (consumer y act)
  obtain pc s where st: "consumer_step nd tr act (cpc y) (shared y) = (pc, s)" by fastforce
  then have z: "consumer_move nd tr act y = y\<lparr>cpc := pc, shared := s\<rparr>" by (simp add: consumer_move_def)
  show ?case
    unfolding z value_inv_def
    using consumer.prems consumer_value [OF st] by (auto simp: value_inv_def)
qed

lemma settle_reachable_value: "settle_reachable nd tr fin k y \<Longrightarrow> value_inv k y"
proof (induction rule: settle_reachable.induct)
  case init
  then show ?case by (simp add: value_inv_def settle_init_def ss_new_def rs_new_def)
next
  case (step y z)
  then show ?case by (blast intro: settle_step_value)
qed

section \<open>Schedules\<close>

datatype turn = Prod | Cons consumer_action

definition settle_turn :: "bool \<Rightarrow> bool \<Rightarrow> bool \<Rightarrow> turn \<Rightarrow> 'v settle_sys \<Rightarrow> 'v settle_sys" where
  "settle_turn nd tr fin t y =
     (case cpc y of C_refused \<Rightarrow> y
      | _ \<Rightarrow> (case t of Prod \<Rightarrow> producer_move nd fin y | Cons act \<Rightarrow> consumer_move nd tr act y))"

definition settle_run :: "bool \<Rightarrow> bool \<Rightarrow> bool \<Rightarrow> 'v product \<Rightarrow> turn list \<Rightarrow> 'v settle_sys" where
  "settle_run nd tr fin k ts = fold (settle_turn nd tr fin) ts (settle_init k)"

lemma settle_turn_reachable:
  "settle_reachable nd tr fin k y \<Longrightarrow> settle_reachable nd tr fin k (settle_turn nd tr fin t y)"
  by (cases "cpc y = C_refused"; cases t)
    (auto simp: settle_turn_def split: consumer_pc.splits
      intro: settle_reachable.step settle_step.intros)

lemma settle_run_reachable: "settle_reachable nd tr fin k (settle_run nd tr fin k ts)"
proof -
  have "settle_reachable nd tr fin k y \<Longrightarrow>
      settle_reachable nd tr fin k (fold (settle_turn nd tr fin) ts y)" for y
    by (induction ts arbitrary: y) (auto intro: settle_turn_reachable)
  then show ?thesis by (simp add: settle_run_def settle_reachable.init)
qed

lemmas settle_simps = settle_run_def settle_turn_def settle_init_def producer_move_def
  consumer_move_def ss_new_def rs_emplace_def rs_new_def rs_take_def move_out_def fetch_or_flags_def
  fetch_and_flags_def cas_flags_def deallocate_def begin_release_def release_bits_def
  release_repair_def finalize_expected_def finalize_desired_def rethrow_if_exception_def
  has_result_def has_error_def after_publish_def

text \<open>The consumer takes the value as soon as it is published, and releases last.\<close>

definition orderly :: "turn list" where
  "orderly = replicate 2 Prod @ replicate 6 (Cons Begin_take) @ replicate 5 Prod @ replicate 2 (Cons Release)"

lemma orderly_state:
  "settle_run False False True (Produce_value (5 :: nat)) orderly =
     \<lparr>shared = \<lparr>flags = 29, result = rs_new, continuation = None, err = No_error, exception = None,
                deallocations = 1\<rparr>, ppc = P_done, cpc = C_done\<rparr>"
  by code_simp

text \<open>
  The consumer takes the value between the producer's load and its compare-exchange, and releases
  between the failed compare-exchange and the producer's last write.
\<close>

definition racing :: "turn list" where
  "racing = replicate 6 Prod @ replicate 6 (Cons Begin_take) @ [Prod, Cons Release, Prod]"

lemma racing_state:
  "settle_run False False True (Produce_value (5 :: nat)) racing =
     \<lparr>shared = \<lparr>flags = 29, result = rs_new, continuation = None, err = No_error, exception = None,
                deallocations = 0\<rparr>, ppc = P_done, cpc = C_done\<rparr>"
  by code_simp

section \<open>Properties\<close>

text \<open>C8: No use after free, no double free. The state is deallocated at most once, and only when
  both sides are through with it: while either side still has an access to make, it is alive.\<close>

theorem settle_no_use_after_free:
  assumes "settle_reachable nd tr fin k y"
  shows "deallocations (shared y) \<le> 1 \<and>
    (deallocations (shared y) = 1 \<longrightarrow> ppc y = P_done \<and> cpc y = C_done)"
  using settle_reachable_inv [OF assms]
  by (cases "deallocations (shared y) = 0") (auto simp: settle_inv_def owners_ok_def)

theorem settle_no_use_after_free_witness:
  "deallocations (shared (settle_run False False True (Produce_value (5 :: nat)) orderly)) = 1 \<and>
   ppc (settle_run False False True (Produce_value (5 :: nat)) orderly) = P_done"
  using settle_no_use_after_free [OF settle_run_reachable, of False False True "Produce_value (5 :: nat)" orderly]
  by (simp add: orderly_state)

text \<open>C10: Extraction never touches a dead value. Neither side runs into a fault, and whatever the
  consumer takes is the value the producer set.\<close>

theorem settle_delivers:
  assumes "settle_reachable nd tr fin k y"
  shows "cpc y \<noteq> C_faulted f \<and> ppc y \<noteq> P_faulted g \<and> (cpc y = C_taken v \<longrightarrow> k = Produce_value v)"
proof -
  have i: "producer_ok fin (ppc y) (shared y)" "consumer_ok (cpc y) (shared y)"
    using settle_reachable_inv [OF assms] by (simp_all add: settle_inv_def)
  then have "cpc y \<noteq> C_faulted f" "ppc y \<noteq> P_faulted g" by auto
  with settle_reachable_value [OF assms] show ?thesis by (simp add: value_inv_def)
qed

theorem settle_delivers_witness:
  "cpc (settle_run False False True (Produce_value (5 :: nat)) (take 8 orderly)) = C_taken 5 \<and>
   Produce_value 5 = Produce_value (5 :: nat)"
proof -
  have "cpc (settle_run False False True (Produce_value (5 :: nat)) (take 8 orderly)) = C_taken 5"
    by code_simp
  with settle_delivers [OF settle_run_reachable, of False False True "Produce_value (5 :: nat)" "take 8 orderly"]
  show ?thesis by blast
qed

text \<open>Totality. At every instant a ready state has an outcome, never both a value and an error.\<close>

theorem ready_has_result:
  assumes "settle_reachable nd tr fin k y"
  shows "(is_ready (shared y) \<longrightarrow> has_result (shared y)) \<and>
    \<not> (flags (shared y) AND sf_value_set \<noteq> 0 \<and> has_error (shared y))"
  using settle_reachable_inv [OF assms]
  by (auto simp: settle_inv_def common_ok_def query_bits)

text \<open>A coroutine that ends without an outcome is ready with an error.\<close>

theorem ready_has_result_witness:
  "has_error (shared (settle_run False False True (Produce_nothing :: nat product) (replicate 4 Prod))) \<and>
   has_result (shared (settle_run False False True (Produce_nothing :: nat product) (replicate 4 Prod)))"
proof -
  let ?y = "settle_run False False True (Produce_nothing :: nat product) (replicate 4 Prod)"
  have "is_ready (shared ?y)" "has_error (shared ?y)" by code_simp+
  with ready_has_result [OF settle_run_reachable, of False False True "Produce_nothing :: nat product" "replicate 4 Prod"]
  show ?thesis by blast
qed

text \<open>C16: No leak without extraction. Once both sides are done the state has been deallocated,
  unless the consumer took the value.\<close>

theorem settle_no_leak:
  assumes "settle_reachable nd tr fin k y" and "ppc y = P_done" and "cpc y = C_done"
    and "flags (shared y) AND sf_consumed = 0"
  shows "deallocations (shared y) = 1"
  using settle_reachable_inv [OF assms(1)] assms(2-4)
  by (auto simp: settle_inv_def owners_ok_def)

theorem settle_no_leak_witness:
  "deallocations (shared (settle_run False False False
      (Produce_error Operation_canceled :: nat product) (replicate 4 Prod @ replicate 2 (Cons Release)))) = 1"
proof -
  let ?y = "settle_run False False False (Produce_error Operation_canceled :: nat product)
    (replicate 4 Prod @ replicate 2 (Cons Release))"
  have "ppc ?y = P_done" "cpc ?y = C_done" "flags (shared ?y) AND sf_consumed = 0" by code_simp+
  then show ?thesis by (rule settle_no_leak [OF settle_run_reachable])
qed

text \<open>C15: With extraction the state can leak. When the consumer marks the result consumed between the
  load and the compare-exchange of \<open>try_complete_finalize\<close>, and releases before the fallback that
  clears \<open>finalizing\<close>, both sides finish and nobody deallocates.\<close>

theorem finalize_race_leaks:
  "\<exists>y. settle_reachable False False True (Produce_value (5 :: nat)) y \<and> ppc y = P_done \<and>
     cpc y = C_done \<and> deallocations (shared y) = 0"
  using settle_run_reachable [of False False True "Produce_value (5 :: nat)" racing]
  unfolding racing_state by fastforce

text \<open>Accesses the producer still has to make, at most.\<close>

fun producer_rank :: "'v producer_pc \<Rightarrow> nat" where
  "producer_rank (P_write k) = 9"
| "producer_rank (P_publish b) = 8"
| "producer_rank P_finalizing = 7"
| "producer_rank P_load = 6"
| "producer_rank (P_or b) = 5"
| "producer_rank P_reload = 4"
| "producer_rank (P_cas c) = 3"
| "producer_rank P_clear = 2"
| "producer_rank P_dealloc = 1"
| "producer_rank P_done = 0"
| "producer_rank (P_faulted f) = 0"

lemma producer_rank_step:
  "producer_rank pc \<noteq> 0 \<Longrightarrow> producer_rank (fst (producer_step nd fin pc s)) < producer_rank pc"
proof (cases pc)
  case (P_write k)
  then show ?thesis by (cases k) (auto simp: after_publish_def split: sum.splits)
qed (auto simp: after_publish_def fetch_or_flags_def cas_flags_def split: prod.splits)

text \<open>The producer is wait-free: each of its own accesses, whatever the consumer did before it,
  brings it closer to the end, which is at most nine accesses away.\<close>

theorem producer_wait_free:
  assumes "settle_reachable nd tr fin k y" and "ppc y \<noteq> P_done"
  shows "producer_rank (ppc (producer_move nd fin y)) < producer_rank (ppc y) \<and> producer_rank (ppc y) \<le> 9"
proof -
  have "producer_ok fin (ppc y) (shared y)"
    using settle_reachable_inv [OF assms(1)] by (simp add: settle_inv_def)
  then have "producer_rank (ppc y) \<noteq> 0" using assms(2) by (cases "ppc y") auto
  moreover have "ppc (producer_move nd fin y) = fst (producer_step nd fin (ppc y) (shared y))"
    by (simp add: producer_move_def split: prod.splits)
  moreover have "producer_rank (ppc y) \<le> 9" by (cases "ppc y") auto
  ultimately show ?thesis using producer_rank_step by metis
qed

theorem producer_wait_free_witness:
  "producer_rank (ppc (producer_move False True (settle_init (Produce_value (5 :: nat))))) < 9"
  using producer_wait_free [OF settle_reachable.init, of "Produce_value (5 :: nat)" False True]
  by (simp add: settle_init_def)

text \<open>A call run alone is the sequential model: the producer's accesses from
  \<open>promise_finalizing\<close> on compute \<open>settle\<close>.\<close>

theorem settle_run_alone:
  "\<exists>n. ((\<lambda>(pc, s). producer_step nd True pc s) ^^ n) (P_finalizing, s) = (P_done, settle s)"
proof -
  let ?f = "\<lambda>(pc, s). producer_step nd True pc s"
  let ?s1 = "snd (fetch_or_flags sf_promise_finalizing s)"
  let ?b = "release_bits (flags ?s1)" and ?r = "release_repair (flags ?s1) ?s1"
  let ?s2 = "snd (fetch_or_flags ?b ?r)"
  have fl: "flags ?r = flags ?s1" by (simp add: release_repair_def)
  have s3: "(?f ^^ 3) (P_finalizing, s) =
      (if bit (flags ?s1) 4 then P_dealloc else P_reload, ?s2)"
    by (simp add: numeral_3_eq_3 fetch_or_flags_def release_repair_def)
  show ?thesis
  proof (cases "bit (flags ?s1) 4")
    case True
    then have "(?f ^^ 4) (P_finalizing, s) = (P_done, settle s)"
      using s3 fl by (simp add: numeral_eq_Suc settle_def release_promise_def Let_def fetch_or_flags_def)
    then show ?thesis by blast
  next
    case False
    have "\<not> bit (flags ?s2) 4"
      using False fl by (simp add: fetch_or_flags_def release_bits_def)
    then have "finalize_expected (flags ?s2) = flags ?s2"
      by (intro bit_word_eqI) (auto simp: finalize_expected_def)
    then have "(?f ^^ 5) (P_finalizing, s) = (P_done, settle s)"
      using False s3 fl
      by (simp add: numeral_eq_Suc settle_def release_promise_def Let_def fetch_or_flags_def
          try_complete_finalize_def cas_flags_def)
    then show ?thesis by blast
  qed
qed

text \<open>\<open>holds_value\<close> is the extraction predicate: where it holds, taking yields the produced
  value and marks it consumed, and it never holds again afterwards.\<close>

theorem holds_value_extracts:
  assumes "settle_reachable nd tr fin k y" and "holds_value (shared y)"
  shows "\<exists>v s. take_value nd tr (shared y) = Inr (v, s) \<and> k = Produce_value v \<and> \<not> holds_value s"
proof -
  have c: "common_ok tr (shared y)" using settle_reachable_inv [OF assms(1)] by (simp add: settle_inv_def)
  then have h: "has_value (result (shared y))" "wf_storage tr (result (shared y))"
    using assms(2) by (auto simp: common_ok_def holds_value_bits)
  obtain v where v: "storage (result (shared y)) = Some v" using h by (auto simp: wf_storage_def)
  have "k = Produce_value v" using settle_reachable_value [OF assms(1)] v by (simp add: value_inv_def)
  then show ?thesis
    using rs_take_total [OF h(2,1), of nd] v
    by (auto simp: take_value_def fetch_or_flags_def Let_def holds_value_bits)
qed

theorem holds_value_extracts_witness:
  "\<exists>v s. take_value False False (shared (settle_run False False True (Produce_value (5 :: nat)) [Prod, Prod])) = Inr (v, s) \<and>
     Produce_value 5 = Produce_value v \<and> \<not> holds_value s"
proof (rule holds_value_extracts [OF settle_run_reachable])
  show "holds_value (shared (settle_run False False True (Produce_value (5 :: nat)) [Prod, Prod]))"
    by code_simp
qed

end
