(* ===== verification/Backoff.thy ===== *)
theory Backoff
  imports Prelude
begin

text \<open>
  The back-off of the compare-exchange loops in \<open>actor/cooperative_actor.hpp\<close>:
  \<open>exponential_backoff\<close> and the attempt bound of \<open>cas_attempt\<close>. A C++ \<open>int\<close> is an
  integer here; a shift whose count is outside \<open>[0, 31)\<close> is undefined behaviour (\<open>None\<close>).
\<close>

section \<open>Model\<close>

datatype backoff_action = Spin | Yield_thread | Sleep_us int

definition shl_int :: "int \<Rightarrow> int \<Rightarrow> int option" where
  "shl_int x k = (if 0 \<le> k \<and> k < 31 then Some (push_bit (nat k) x) else None)"

definition exponential_backoff :: "int \<Rightarrow> backoff_action option" where
  "exponential_backoff attempt =
     (let kSpinPhaseEnd = 4; kYieldPhaseEnd = 10; kMaxSleepMicroseconds = 1000
      in if attempt < kSpinPhaseEnd then Some Spin
         else if attempt < kYieldPhaseEnd then Some Yield_thread
         else
           (let kMaxShift = 10;
                exponent = attempt - kYieldPhaseEnd
            in case (if exponent \<ge> kMaxShift then Some kMaxSleepMicroseconds
                     else shl_int 1 exponent) of
                 None \<Rightarrow> None
               | Some computed \<Rightarrow>
                   Some (Sleep_us (if computed < kMaxSleepMicroseconds then computed
                                   else kMaxSleepMicroseconds))))"

definition kMaxCasAttempts :: int where
  "kMaxCasAttempts = 1000"

text \<open>\<open>cas_attempt\<close>: the counter after the call, or the abort; the back-off it performs first.\<close>

definition cas_attempt :: "int \<Rightarrow> int outcome" where
  "cas_attempt attempts =
     (let attempts' = attempts + 1
      in if attempts' \<ge> kMaxCasAttempts then Inl Aborted else Inr attempts')"

text \<open>
  The shape of every compare-exchange loop: \<open>cas_attempt\<close>, then one compare-exchange, whose
  success \<open>wins k\<close> the environment decides (\<open>k\<close> counts the exchanges tried so far).
\<close>

function cas_loop :: "(nat \<Rightarrow> bool) \<Rightarrow> int \<Rightarrow> nat \<Rightarrow> nat outcome" where
  "cas_loop wins attempts k =
     (case cas_attempt attempts of
        Inl e \<Rightarrow> Inl e
      | Inr attempts' \<Rightarrow> if wins k then Inr k else cas_loop wins attempts' (Suc k))"
  by pat_completeness auto
termination
  by (relation "measure (\<lambda>(w, a, k). nat (1000 - a))")
    (auto simp: cas_attempt_def kMaxCasAttempts_def Let_def split: if_splits)

declare cas_loop.simps [simp del]

section \<open>Lemmas\<close>

lemma shl_small: "0 \<le> k \<Longrightarrow> k < 10 \<Longrightarrow> \<exists>v. shl_int 1 k = Some v \<and> 1 \<le> v \<and> v \<le> 512"
proof -
  assume k: "0 \<le> k" "k < 10"
  have "(2 :: int) ^ nat k \<le> 2 ^ 9"
    by (rule power_increasing) (use k in auto)
  then show ?thesis
    using k by (simp add: shl_int_def push_bit_eq_mult)
qed

lemma backoff_sleep_range:
  "\<exists>act. exponential_backoff attempt = Some act \<and>
     (\<forall>us. act = Sleep_us us \<longrightarrow> 1 \<le> us \<and> us \<le> 1000)"
proof (cases "attempt < 10")
  case True
  then show ?thesis by (simp add: exponential_backoff_def Let_def)
next
  case False
  show ?thesis
  proof (cases "attempt - 10 \<ge> 10")
    case True
    with False show ?thesis by (simp add: exponential_backoff_def Let_def)
  next
    case small: False
    with False obtain v where v: "shl_int 1 (attempt - 10) = Some v" "1 \<le> v" "v \<le> 512"
      using shl_small [of "attempt - 10"] by auto
    with False small show ?thesis
      by (simp add: exponential_backoff_def Let_def)
  qed
qed

lemma cas_loop_gen:
  assumes "0 \<le> a" and "a \<le> 999"
  shows "cas_loop wins a k =
    (if \<exists>j. k \<le> j \<and> int j < int k + (999 - a) \<and> wins j
     then Inr (LEAST j. k \<le> j \<and> wins j) else Inl Aborted)"
  using assms
proof (induction wins a k rule: cas_loop.induct)
  case (1 wins a k)
  show ?case
  proof (cases "a = 999")
    case True
    then show ?thesis
      by (subst cas_loop.simps) (simp add: cas_attempt_def kMaxCasAttempts_def)
  next
    case False
    with "1.prems" have c: "cas_attempt a = Inr (a + 1)" and a: "a < 999"
      by (simp_all add: cas_attempt_def kMaxCasAttempts_def)
    show ?thesis
    proof (cases "wins k")
      case True
      then have "(LEAST j. k \<le> j \<and> wins j) = k"
        by (intro Least_equality) auto
      with True c a show ?thesis by (subst cas_loop.simps) (auto intro!: exI [of _ k])
    next
      case nk: False
      then have tail: "k \<le> j \<and> wins j \<longleftrightarrow> Suc k \<le> j \<and> wins j" for j
        by (metis Suc_leD le_antisym not_less_eq_eq)
      have "cas_loop wins a k = cas_loop wins (a + 1) (Suc k)"
        using nk c by (subst cas_loop.simps) simp
      moreover have "(\<exists>j. k \<le> j \<and> int j < int k + (999 - a) \<and> wins j)
          \<longleftrightarrow> (\<exists>j. Suc k \<le> j \<and> int j < int (Suc k) + (999 - (a + 1)) \<and> wins j)"
        using tail by (auto simp: algebra_simps)
      ultimately show ?thesis
        using "1.IH" [OF c nk] "1.prems" a tail by auto
    qed
  qed
qed

section \<open>Properties\<close>

text \<open>Every retry loop ends: it succeeds at the first winning exchange if that is among the first
  999, and otherwise aborts the process; it never goes round a thousandth time.\<close>

theorem cas_loop_bounded:
  "cas_loop wins 0 0 = (if \<exists>j < 999. wins j then Inr (LEAST j. wins j) else Inl Aborted)"
  using cas_loop_gen [of 0 wins 0] by simp

text \<open>The back-off never shifts out of range (which would be undefined behaviour), for any attempt
  number, and sleeps between one microsecond and one millisecond.\<close>

theorem backoff_defined:
  "\<exists>act. exponential_backoff attempt = Some act \<and>
     (\<forall>us. act = Sleep_us us \<longrightarrow> 1 \<le> us \<and> us \<le> 1000)"
  by (rule backoff_sleep_range)

theorem backoff_defined_witness:
  "exponential_backoff 41 = Some (Sleep_us 1000)"
proof -
  have "exponential_backoff 41 = Some (Sleep_us 1000)" by code_simp
  moreover note backoff_defined [of 41]
  ultimately show ?thesis by simp
qed

end
