(* ===== verification/Rtt.thy ===== *)
theory Rtt
  imports Prelude
begin

text \<open>
  The argument block of a message, \<open>detail/rtt.hpp\<close>: one allocation that holds the objects,
  each at its alignment, and behind them a table of offsets and destructors. Addresses and
  sizes are 64-bit words. The arena holds the live objects by address, the table entries by
  address, the blocks the memory resources have handed out, and the destructor calls so far.
  What \<open>allocate\<close> returns is an argument of the constructor; \<open>deallocate\<close> demands, as
  documented, the address and the size of an allocation.
\<close>

section \<open>The model\<close>

type_synonym size_t = "64 word"

definition align_up :: "size_t \<Rightarrow> size_t \<Rightarrow> size_t" where
  "align_up n a = (n + a - 1) AND NOT (a - 1)"

text \<open>A C++ object type: its identity (which destructor), alignment and size.\<close>

record cpp_type =
  ty_id :: nat
  ty_align :: size_t
  ty_size :: size_t

fun getSize :: "size_t \<Rightarrow> cpp_type list \<Rightarrow> size_t" where
  "getSize n [] = n"
| "getSize n (t # ts) = getSize (align_up n (ty_align t) + ty_size t) ts"

record objects_t =
  obj_offset :: size_t
  obj_destroyer :: cpp_type

record 'v arena =
  objs :: "size_t \<Rightarrow> (cpp_type \<times> 'v) option"
  table :: "size_t \<Rightarrow> objects_t option"
  blocks :: "(nat \<times> size_t \<times> size_t) list"
  destroyed :: "(size_t \<times> cpp_type \<times> 'v) list"

datatype rtt_fault = Null_resource | Null_allocation | No_capacity | Dead_object | Wrong_type
  | Bad_index | Other_resource | Bad_block | Thrown

record rtt =
  r_resource :: "nat option"
  r_capacity :: size_t
  r_volume :: size_t
  r_allocation :: size_t
  r_data :: size_t
  r_objects :: size_t
  r_idx :: size_t

definition sizeof_objects_t :: size_t where "sizeof_objects_t = 16"
definition alignof_objects_t :: size_t where "alignof_objects_t = 8"

definition check_resource :: "nat option \<Rightarrow> rtt_fault + nat" where
  "check_resource r = (case r of None \<Rightarrow> Inl Null_resource | Some m \<Rightarrow> Inr m)"

definition destroy :: "cpp_type \<Rightarrow> size_t \<Rightarrow> 'v arena \<Rightarrow> rtt_fault + 'v arena" where
  "destroy t p A = (case objs A p of
     None \<Rightarrow> Inl Dead_object
   | Some (t', v) \<Rightarrow>
       if t' = t then Inr (A\<lparr>objs := (objs A)(p := None), destroyed := destroyed A @ [(p, t, v)]\<rparr>)
       else Inl Wrong_type)"

definition allocate_block :: "nat \<Rightarrow> size_t \<Rightarrow> size_t \<Rightarrow> 'v arena \<Rightarrow> 'v arena" where
  "allocate_block r p n A = A\<lparr>blocks := (r, p, n) # blocks A\<rparr>"

definition deallocate_block :: "nat \<Rightarrow> size_t \<Rightarrow> size_t \<Rightarrow> 'v arena \<Rightarrow> rtt_fault + 'v arena" where
  "deallocate_block r p n A =
     (if (r, p, n) \<in> set (blocks A)
      then Inr (A\<lparr>blocks := remove1 (r, p, n) (blocks A),
                  table := (\<lambda>q. if q - p < n then None else table A q)\<rparr>)
      else Inl Bad_block)"

primrec clear_loop :: "rtt \<Rightarrow> nat \<Rightarrow> 'v arena \<Rightarrow> rtt_fault + 'v arena" where
  "clear_loop R 0 A = Inr A"
| "clear_loop R (Suc i) A =
     (case table A (r_objects R + of_nat i * sizeof_objects_t) of
        None \<Rightarrow> Inl Bad_index
      | Some e \<Rightarrow>
          (case destroy (obj_destroyer e) (r_data R + obj_offset e) A of
             Inl f \<Rightarrow> Inl f
           | Inr A' \<Rightarrow> clear_loop R i A'))"

definition rtt_cleared :: "rtt \<Rightarrow> rtt" where
  "rtt_cleared R = R\<lparr>r_volume := 0, r_idx := 0, r_allocation := 0, r_data := 0,
                     r_objects := 0, r_capacity := 0\<rparr>"

definition rtt_clear :: "rtt \<Rightarrow> 'v arena \<Rightarrow> rtt_fault + rtt \<times> 'v arena" where
  "rtt_clear R A =
     (case clear_loop R (unat (r_idx R)) A of
        Inl f \<Rightarrow> Inl f
      | Inr A1 \<Rightarrow>
          if r_allocation R = 0 then Inr (rtt_cleared R, A1)
          else
            let aligned_capacity = align_up (r_capacity R) alignof_objects_t;
                allocated_size = aligned_capacity + r_idx R * sizeof_objects_t
            in case r_resource R of
                 None \<Rightarrow> Inl Null_resource
               | Some r \<Rightarrow>
                   (case deallocate_block r (r_allocation R) allocated_size A1 of
                      Inl f \<Rightarrow> Inl f
                    | Inr A2 \<Rightarrow> Inr (rtt_cleared R, A2)))"

text \<open>\<open>std::align\<close>: the first aligned address, if the object still fits into the space.\<close>

definition std_align :: "size_t \<Rightarrow> size_t \<Rightarrow> size_t \<Rightarrow> size_t \<Rightarrow> size_t option" where
  "std_align al sz p space =
     (let q = align_up p al; diff = q - p
      in if space < diff \<or> space - diff < sz then None else Some q)"

definition try_to_align :: "rtt \<Rightarrow> cpp_type \<Rightarrow> size_t option" where
  "try_to_align R t =
     (let space_left = r_capacity R - r_volume R; creation_place = r_data R + r_volume R
      in std_align (ty_align t) (ty_size t) creation_place space_left)"

definition force_align :: "rtt \<Rightarrow> cpp_type \<Rightarrow> rtt_fault + size_t" where
  "force_align R t = (case try_to_align R t of None \<Rightarrow> Inl No_capacity | Some p \<Rightarrow> Inr p)"

text \<open>
  An argument: its type as the size computation sees it, its decayed type, as which it is
  stored, its value, and whether constructing the stored object throws.
\<close>

record 'v argument =
  arg_type :: cpp_type
  raw_type :: cpp_type
  arg_value :: 'v
  arg_throws :: bool

definition push_back_no_realloc ::
  "'v argument \<Rightarrow> rtt \<times> 'v arena \<Rightarrow> rtt_fault \<times> 'v arena + rtt \<times> 'v arena" where
  "push_back_no_realloc x RA =
     (let (R, A) = RA in
      case force_align R (raw_type x) of
        Inl f \<Rightarrow> Inl (f, A)
      | Inr creation_place \<Rightarrow>
          if arg_throws x then Inl (Thrown, A)
          else
            let A1 = A\<lparr>objs := (objs A)(creation_place \<mapsto> (raw_type x, arg_value x))\<rparr>;
                new_offset = creation_place - r_data R;
                entry = \<lparr>obj_offset = new_offset, obj_destroyer = raw_type x\<rparr>;
                A2 = A1\<lparr>table := (table A1)(r_objects R + r_idx R * sizeof_objects_t \<mapsto> entry)\<rparr>
            in Inr (R\<lparr>r_idx := r_idx R + 1, r_volume := new_offset + ty_size (raw_type x)\<rparr>, A2))"

fun push_args ::
  "'v argument list \<Rightarrow> rtt \<times> 'v arena \<Rightarrow> rtt_fault \<times> 'v arena + rtt \<times> 'v arena" where
  "push_args [] RA = Inr RA"
| "push_args (x # xs) RA =
     (case push_back_no_realloc x RA of Inl f \<Rightarrow> Inl f | Inr RA' \<Rightarrow> push_args xs RA')"

definition rtt_empty :: "nat option \<Rightarrow> rtt" where
  "rtt_empty r = \<lparr>r_resource = r, r_capacity = 0, r_volume = 0, r_allocation = 0, r_data = 0,
                  r_objects = 0, r_idx = 0\<rparr>"

definition rtt_new0 :: "nat option \<Rightarrow> rtt_fault + rtt" where
  "rtt_new0 resource = (case check_resource resource of Inl f \<Rightarrow> Inl f | Inr r \<Rightarrow> Inr (rtt_empty (Some r)))"

definition rtt_block_size :: "cpp_type list \<Rightarrow> size_t" where
  "rtt_block_size ts =
     align_up (getSize 0 ts) alignof_objects_t + of_nat (length ts) * sizeof_objects_t"

definition rtt_new ::
  "nat option \<Rightarrow> 'v argument list \<Rightarrow> size_t \<Rightarrow> 'v arena
    \<Rightarrow> rtt_fault \<times> 'v arena + rtt \<times> 'v arena" where
  "rtt_new resource xs allocated A =
     (case check_resource resource of
        Inl f \<Rightarrow> Inl (f, A)
      | Inr r \<Rightarrow>
          if xs = [] then Inr (rtt_empty (Some r), A)
          else
            let sz = getSize 0 (map arg_type xs);
                aligned_capacity = align_up sz alignof_objects_t;
                total_size = rtt_block_size (map arg_type xs);
                A1 = allocate_block r allocated total_size A
            in if allocated = 0 then Inl (Null_allocation, A1)
               else push_args xs
                 (\<lparr>r_resource = Some r, r_capacity = sz, r_volume = 0, r_allocation = allocated,
                   r_data = allocated, r_objects = allocated + aligned_capacity, r_idx = 0\<rparr>, A1))"

definition rtt_moved_from :: rtt where
  "rtt_moved_from = rtt_empty None"

definition rtt_move_ctor :: "rtt \<Rightarrow> rtt \<times> rtt" where
  "rtt_move_ctor other = (other, rtt_moved_from)"

definition rtt_move_alloc :: "nat option \<Rightarrow> rtt \<Rightarrow> rtt_fault + rtt \<times> rtt" where
  "rtt_move_alloc resource other =
     (case check_resource resource of
        Inl f \<Rightarrow> Inl f
      | Inr r \<Rightarrow>
          if r_resource other \<noteq> Some r then Inl Other_resource
          else Inr (other\<lparr>r_resource := Some r\<rparr>, rtt_moved_from))"

text \<open>Move assignment of two different objects; assigning an object to itself returns at once.\<close>

definition rtt_move_assign ::
  "rtt \<Rightarrow> rtt \<Rightarrow> 'v arena \<Rightarrow> rtt_fault + rtt \<times> rtt \<times> 'v arena" where
  "rtt_move_assign self other A =
     (if \<not> (r_resource self = r_resource other \<or> r_resource self = None) then Inl Other_resource
      else case rtt_clear self A of
             Inl f \<Rightarrow> Inl f
           | Inr (_, A1) \<Rightarrow> Inr (other, rtt_moved_from, A1))"

definition rtt_offset :: "rtt \<Rightarrow> size_t \<Rightarrow> 'v arena \<Rightarrow> rtt_fault + size_t" where
  "rtt_offset R i A =
     (if i < r_idx R
      then case table A (r_objects R + i * sizeof_objects_t) of
             None \<Rightarrow> Inl Bad_index
           | Some e \<Rightarrow> Inr (obj_offset e)
      else Inl Bad_index)"

definition rtt_get_by_offset :: "cpp_type \<Rightarrow> rtt \<Rightarrow> size_t \<Rightarrow> 'v arena \<Rightarrow> rtt_fault + 'v" where
  "rtt_get_by_offset t R off A =
     (case objs A (r_data R + off) of
        None \<Rightarrow> Inl Dead_object
      | Some (t', v) \<Rightarrow> if t' = t then Inr v else Inl Wrong_type)"

definition rtt_get :: "cpp_type \<Rightarrow> rtt \<Rightarrow> size_t \<Rightarrow> 'v arena \<Rightarrow> rtt_fault + 'v" where
  "rtt_get t R i A =
     (case rtt_offset R i A of Inl f \<Rightarrow> Inl f | Inr off \<Rightarrow> rtt_get_by_offset t R off A)"

definition rtt_size :: "rtt \<Rightarrow> size_t" where "rtt_size R = r_idx R"
definition rtt_is_empty :: "rtt \<Rightarrow> bool" where "rtt_is_empty R \<longleftrightarrow> r_idx R = 0"

section \<open>Alignment\<close>

text \<open>The least multiple of \<open>a\<close> that is at least \<open>n\<close>.\<close>

definition roundup :: "nat \<Rightarrow> nat \<Rightarrow> nat" where
  "roundup n a = (n + a - 1) - (n + a - 1) mod a"

lemma and_not_low: "(w :: size_t) AND NOT (mask k) = w - take_bit k w"
proof -
  have "w - take_bit k w = w AND NOT (take_bit k w)"
    by (rule disjunctive_diff) (simp add: bit_take_bit_iff)
  also have "\<dots> = w AND NOT (mask k)"
    by (rule bit_eqI) (auto simp: bit_simps)
  finally show ?thesis by simp
qed

lemma roundup_props:
  assumes "0 < a"
  shows "a dvd roundup n a" and "n \<le> roundup n a" and "roundup n a < n + a"
proof -
  show "a dvd roundup n a" unfolding roundup_def by (rule dvd_minus_mod)
  have "(n + a - 1) mod a < a" using assms by simp
  then show "n \<le> roundup n a" "roundup n a < n + a" using assms unfolding roundup_def by linarith+
qed

lemma unat_align_up:
  assumes "k < 64" and "unat n + 2 ^ k \<le> 2 ^ 64" and "a = 2 ^ k"
  shows "unat (align_up n a) = roundup (unat n) (2 ^ k)"
proof -
  have a: "unat a = 2 ^ k"
  proof -
    have "(2 :: nat) ^ k < 2 ^ 64" using assms(1) by (rule power_strict_increasing) simp
    then have "unat (of_nat (2 ^ k) :: size_t) = 2 ^ k" by (simp only: unat_of_nat) simp
    then show ?thesis by (simp add: assms(3))
  qed
  have 1: "(1 :: nat) \<le> 2 ^ k" by simp
  have "a - 1 = mask k" using assms(3) by (simp add: mask_eq_exp_minus_1)
  then have "align_up n a = (n + (a - 1)) - take_bit k (n + (a - 1))"
    by (simp add: align_up_def and_not_low algebra_simps)
  moreover have s: "unat (n + (a - 1)) = unat n + 2 ^ k - 1"
  proof -
    have "a \<noteq> 0" using a by (metis unat_0 power_not_zero zero_neq_numeral)
    then have "unat (a - 1) = 2 ^ k - 1" using a by (simp add: unat_minus_one)
    then show ?thesis using assms(2) 1 by (subst unat_add_lem [THEN iffD1]) auto
  qed
  moreover have "unat (take_bit k (n + (a - 1))) = (unat n + 2 ^ k - 1) mod 2 ^ k"
    by (subst unsigned_take_bit_eq) (simp only: take_bit_eq_mod s)
  ultimately show ?thesis
    by (simp add: roundup_def unat_sub word_le_nat_alt)
qed

definition small_align :: "size_t \<Rightarrow> bool" where
  "small_align a \<longleftrightarrow> a = 1 \<or> a = 2 \<or> a = 4 \<or> a = 8 \<or> a = 16"

lemma small_align_pow:
  assumes "small_align a"
  obtains k where "k \<le> 4" and "a = 2 ^ k" and "unat a = 2 ^ k"
proof -
  from assms consider "a = 1" | "a = 2" | "a = 4" | "a = 8" | "a = 16"
    unfolding small_align_def by blast
  then show ?thesis
    by cases (rule that [of 0], simp_all, rule that [of 1], simp_all,
      rule that [of 2], simp_all, rule that [of 3], simp_all, rule that [of 4], simp_all)
qed

lemma small_align_16: "small_align a \<Longrightarrow> 0 < unat a \<and> unat a \<le> 16 \<and> unat a dvd 16"
  unfolding small_align_def by (elim disjE) (simp_all add: dvd_def)

lemma align_up_small:
  assumes "small_align a" and "unat n + 16 \<le> 2 ^ 64"
  shows "unat (align_up n a) = roundup (unat n) (unat a)"
proof -
  obtain k where k: "k \<le> 4" "a = 2 ^ k" "unat a = 2 ^ k" by (rule small_align_pow [OF assms(1)])
  have "unat a \<le> 16" using small_align_16 [OF assms(1)] by simp
  then show ?thesis using unat_align_up [of k n a] k assms(2) by simp
qed

lemma roundup_add:
  assumes "0 < a" and "a dvd b"
  shows "roundup (b + n) a = b + roundup n a"
proof -
  obtain c where "b = a * c" using assms(2) by (rule dvdE)
  then have "(b + n + a - 1) mod a = (n + a - 1) mod a"
    using assms(1) by (metis Nat.add_diff_assoc Suc_leI add.assoc mod_mult_self4 One_nat_def add_lessD1 le_add2 le_trans)
  then show ?thesis
    using assms(1) mod_less_eq_dividend [of "n + a - 1" a] unfolding roundup_def by linarith
qed

text \<open>On a block aligned to 16, aligning the absolute address is aligning the offset.\<close>

lemma std_align_at:
  assumes al: "small_align al" and base: "unat base mod 16 = 0"
    and fits: "roundup (unat v) (unat al) + unat sz \<le> unat cap"
    and room: "unat base + unat cap + 16 \<le> 2 ^ 64" and vc: "unat v \<le> unat cap"
  shows "std_align al sz (base + v) (cap - v) = Some (base + of_nat (roundup (unat v) (unat al)))"
proof -
  let ?r = "roundup (unat v) (unat al)"
  have a16: "0 < unat al" "unat al \<le> 16" "unat al dvd 16" using small_align_16 [OF al] by auto
  have vr: "unat v \<le> ?r" "?r < unat v + unat al" using roundup_props [OF a16(1)] by auto
  have bv: "unat (base + v) = unat base + unat v"
    using room vc by (subst unat_add_lem [THEN iffD1]) auto
  have dv: "unat al dvd unat base"
    using a16(3) base by (meson dvd_trans mod_0_imp_dvd)
  have q: "unat (align_up (base + v) al) = unat base + ?r"
    using align_up_small [OF al, of "base + v"] room vc
    by (simp add: bv roundup_add [OF a16(1) dv])
  have rr: "unat (of_nat ?r :: size_t) = ?r"
    using fits room by (simp only: unat_of_nat) simp
  have "unat base + unat (of_nat ?r :: size_t) < 2 ^ LENGTH(64)"
    unfolding rr using fits room by simp
  then have "unat (base + of_nat ?r) = unat base + unat (of_nat ?r :: size_t)"
    by (rule unat_add_lem [THEN iffD1])
  then have br: "unat (base + of_nat ?r) = unat base + ?r" by (simp only: rr)
  then have eq: "align_up (base + v) al = base + of_nat ?r"
    using q br by (metis word_unat_eq_iff)
  have d: "unat (base + of_nat ?r - (base + v)) = ?r - unat v"
    using vr by (simp add: unat_sub word_le_nat_alt rr)
  have c: "unat (cap - v) = unat cap - unat v"
    using vc by (simp add: unat_sub word_le_nat_alt)
  define diff where "diff = base + of_nat ?r - (base + v)"
  have nl: "\<not> cap - v < diff"
    unfolding word_less_nat_alt d [folded diff_def] c using fits by linarith
  then have "unat (cap - v - diff) = unat cap - unat v - (?r - unat v)"
    by (simp only: not_less unat_sub d [folded diff_def] c)
  then have "\<not> cap - v - diff < sz"
    unfolding word_less_nat_alt using fits vr by linarith
  with nl show ?thesis unfolding std_align_def Let_def eq diff_def by simp
qed

section \<open>Layout\<close>

text \<open>The offsets, computed in unbounded numbers.\<close>

fun layout :: "nat \<Rightarrow> cpp_type list \<Rightarrow> nat list" where
  "layout n [] = []"
| "layout n (t # ts) =
     (let q = roundup n (unat (ty_align t)) in q # layout (q + unat (ty_size t)) ts)"

fun layout_end :: "nat \<Rightarrow> cpp_type list \<Rightarrow> nat" where
  "layout_end n [] = n"
| "layout_end n (t # ts) = layout_end (roundup n (unat (ty_align t)) + unat (ty_size t)) ts"

definition arg_ok :: "'v argument \<Rightarrow> bool" where
  "arg_ok x \<longleftrightarrow> raw_type x = arg_type x \<and> \<not> arg_throws x \<and> small_align (ty_align (arg_type x)) \<and>
     0 < ty_size (arg_type x)"

lemma layout_end_ge: "list_all (\<lambda>t. small_align (ty_align t)) ts \<Longrightarrow> n \<le> layout_end n ts"
proof (induction n ts rule: layout_end.induct)
  case (2 n t ts)
  then have "n \<le> roundup n (unat (ty_align t))"
    using roundup_props [of "unat (ty_align t)" n] small_align_16 [of "ty_align t"] by simp
  with 2 show ?case by fastforce
qed simp

lemma getSize_layout:
  assumes "list_all (\<lambda>t. small_align (ty_align t)) ts" and "layout_end (unat n) ts + 16 \<le> 2 ^ 64"
  shows "unat (getSize n ts) = layout_end (unat n) ts"
  using assms
proof (induction n ts rule: getSize.induct)
  case (2 n t ts)
  let ?q = "roundup (unat n) (unat (ty_align t))"
  have le: "?q + unat (ty_size t) \<le> layout_end (unat n) (t # ts)"
    using 2(2) layout_end_ge [of ts "?q + unat (ty_size t)"] by simp
  have n: "unat n \<le> ?q"
    using roundup_props [of "unat (ty_align t)" "unat n"] small_align_16 [of "ty_align t"] 2(2) by simp
  have q: "unat (align_up n (ty_align t)) = ?q"
    using 2(2,3) n le by (intro align_up_small) auto
  then have "unat (align_up n (ty_align t) + ty_size t) = ?q + unat (ty_size t)"
    using 2(3) le by (subst unat_add_lem [THEN iffD1]) auto
  with 2 show ?case by simp
qed simp

lemma layout_length [simp]: "length (layout n ts) = length ts"
  by (induction n ts rule: layout.induct) (simp_all add: Let_def)

section \<open>The block's contents\<close>

definition obj_addr :: "rtt \<Rightarrow> nat \<times> cpp_type \<times> 'v \<Rightarrow> size_t" where
  "obj_addr R y = r_data R + of_nat (fst y)"

definition entry_addr :: "rtt \<Rightarrow> nat \<Rightarrow> size_t" where
  "entry_addr R i = r_objects R + of_nat i * sizeof_objects_t"

definition stored :: "rtt \<Rightarrow> 'v arena \<Rightarrow> (nat \<times> cpp_type \<times> 'v) list \<Rightarrow> bool" where
  "stored R A ys \<longleftrightarrow>
     (\<forall>i < length ys. table A (entry_addr R i) =
        Some \<lparr>obj_offset = of_nat (fst (ys ! i)), obj_destroyer = fst (snd (ys ! i))\<rparr>) \<and>
     (\<forall>y \<in> set ys. objs A (obj_addr R y) = Some (snd y)) \<and> distinct (map (obj_addr R) ys)"

text \<open>Each object ends before the next one begins, and all of them before the filled volume.\<close>

definition packed :: "nat \<Rightarrow> (nat \<times> cpp_type \<times> 'v) list \<Rightarrow> bool" where
  "packed vol ys \<longleftrightarrow>
     sorted_wrt (\<lambda>y z. fst y + unat (ty_size (fst (snd y))) \<le> fst z) ys \<and>
     (\<forall>y \<in> set ys. 0 < ty_size (fst (snd y)) \<and> fst y + unat (ty_size (fst (snd y))) \<le> vol \<and>
        unat (ty_align (fst (snd y))) dvd fst y)"

definition holds :: "rtt \<Rightarrow> 'v arena \<Rightarrow> (nat \<times> cpp_type \<times> 'v) list \<Rightarrow> bool" where
  "holds R A ys \<longleftrightarrow> r_idx R = of_nat (length ys) \<and> length ys < 2 ^ 59 \<and>
     unat (r_data R) mod 16 = 0 \<and> unat (r_data R) + unat (r_capacity R) + 16 \<le> 2 ^ 64 \<and>
     unat (r_volume R) \<le> unat (r_capacity R) \<and>
     packed (unat (r_volume R)) ys \<and> stored R A ys"

lemma entry_addr_inj: "i < 2 ^ 59 \<Longrightarrow> j < 2 ^ 59 \<Longrightarrow> entry_addr R i = entry_addr R j \<Longrightarrow> i = j"
proof -
  assume i: "i < 2 ^ 59" and j: "j < 2 ^ 59" and "entry_addr R i = entry_addr R j"
  then have "(of_nat (i * 16) :: size_t) = of_nat (j * 16)"
    by (simp add: entry_addr_def sizeof_objects_t_def)
  then have "unat (of_nat (i * 16) :: size_t) = unat (of_nat (j * 16) :: size_t)" by (rule arg_cong)
  then show "i = j" using i j by (simp only: unat_of_nat) simp
qed

lemma obj_addr_neq:
  assumes "fst y < fst z" and "fst z < 2 ^ 64"
  shows "obj_addr R y \<noteq> obj_addr R z"
proof
  assume "obj_addr R y = obj_addr R z"
  then have "unat (of_nat (fst y) :: size_t) = unat (of_nat (fst z) :: size_t)"
    by (simp add: obj_addr_def)
  with assms show False by (simp only: unat_of_nat) simp
qed

lemma stored_snoc:
  "stored R A (ys @ [y]) \<longleftrightarrow> stored R A ys \<and>
     table A (entry_addr R (length ys)) =
       Some \<lparr>obj_offset = of_nat (fst y), obj_destroyer = fst (snd y)\<rparr> \<and>
     objs A (obj_addr R y) = Some (snd y) \<and> obj_addr R y \<notin> obj_addr R ` set ys"
  by (auto simp: stored_def nth_append less_Suc_eq)

lemma packed_snoc:
  "packed vol ys \<Longrightarrow> vol \<le> off \<Longrightarrow> unat (ty_align t) dvd off \<Longrightarrow> 0 < ty_size t
    \<Longrightarrow> packed (off + unat (ty_size t)) (ys @ [(off, t, v)])"
  by (fastforce simp: packed_def sorted_wrt_append)

lemma packed_before: "packed vol ys \<Longrightarrow> vol \<le> off \<Longrightarrow> y \<in> set ys \<Longrightarrow> fst y < off"
  by (fastforce simp: packed_def word_less_nat_alt)

lemma force_align_holds:
  assumes "holds R A ys" and "small_align (ty_align t)"
    and "roundup (unat (r_volume R)) (unat (ty_align t)) + unat (ty_size t) \<le> unat (r_capacity R)"
  shows "force_align R t = Inr (r_data R + of_nat (roundup (unat (r_volume R)) (unat (ty_align t))))"
  unfolding force_align_def try_to_align_def Let_def
  using assms by (subst std_align_at) (simp_all add: holds_def)

lemma push_back_holds:
  fixes R :: rtt and A :: "'v arena"
  assumes h: "holds R A ys" and x: "arg_ok x" and len: "length ys + 1 < 2 ^ 59"
    and off: "off = roundup (unat (r_volume R)) (unat (ty_align (arg_type x)))"
    and fits: "off + unat (ty_size (arg_type x)) \<le> unat (r_capacity R)"
  obtains R' A' where "push_back_no_realloc x (R, A) = Inr (R', A')"
    and "holds R' A' (ys @ [(off, arg_type x, arg_value x)])"
    and "R' = R\<lparr>r_idx := r_idx R', r_volume := of_nat off + ty_size (arg_type x)\<rparr>"
    and "unat (r_volume R') = off + unat (ty_size (arg_type x))"
    and "A' = A\<lparr>objs := (objs A)(r_data R + of_nat off \<mapsto> (arg_type x, arg_value x)), table := table A'\<rparr>"
proof -
  let ?t = "arg_type x" and ?y = "(off, arg_type x, arg_value x)"
  have raw: "raw_type x = ?t" "\<not> arg_throws x" "small_align (ty_align ?t)" "0 < ty_size ?t"
    using x by (simp_all add: arg_ok_def)
  have hh: "r_idx R = of_nat (length ys)" "unat (r_data R) mod 16 = 0"
    "unat (r_data R) + unat (r_capacity R) + 16 \<le> 2 ^ 64" "unat (r_volume R) \<le> unat (r_capacity R)"
    "packed (unat (r_volume R)) ys" "stored R A ys"
    using h by (simp_all add: holds_def)
  have al: "0 < unat (ty_align ?t)" using small_align_16 [OF raw(3)] by simp
  have vo: "unat (r_volume R) \<le> off" and dv: "unat (ty_align ?t) dvd off"
    unfolding off using roundup_props [OF al] by auto
  define R' where "R' = R\<lparr>r_idx := r_idx R + 1, r_volume := of_nat off + ty_size ?t\<rparr>"
  define A' where "A' = A\<lparr>objs := (objs A)(r_data R + of_nat off \<mapsto> (?t, arg_value x)),
    table := (table A)(entry_addr R (length ys) \<mapsto> \<lparr>obj_offset = of_nat off, obj_destroyer = ?t\<rparr>)\<rparr>"
  have fa: "force_align R ?t = Inr (r_data R + of_nat off)"
    using force_align_holds [OF h raw(3)] fits by (simp add: off)
  then have eq: "push_back_no_realloc x (R, A) = Inr (R', A')"
    by (simp add: push_back_no_realloc_def raw Let_def R'_def A'_def entry_addr_def hh(1))
  have o64: "off < 2 ^ 64" using fits hh(3) raw(4) by simp
  have uo: "unat (of_nat off :: size_t) = off" using o64 by (simp only: unat_of_nat) simp
  have uv: "unat (r_volume R') = off + unat (ty_size ?t)"
  proof -
    have "unat (of_nat off :: size_t) + unat (ty_size ?t) < 2 ^ LENGTH(64)"
      unfolding uo using fits hh(3) by simp
    then have "unat (of_nat off + ty_size ?t) = unat (of_nat off :: size_t) + unat (ty_size ?t)"
      by (rule unat_add_lem [THEN iffD1])
    moreover have "r_volume R' = of_nat off + ty_size ?t" by (simp add: R'_def)
    ultimately show ?thesis by (simp only: uo)
  qed
  have fresh: "obj_addr R y \<noteq> r_data R + of_nat off" if "y \<in> set ys" for y
    using obj_addr_neq [of y ?y R] packed_before [OF hh(5) vo that] o64 by (simp add: obj_addr_def)
  have ne: "entry_addr R i \<noteq> entry_addr R (length ys)" if "i < length ys" for i
    using entry_addr_inj [of i "length ys" R] that len by auto
  have addrs: "obj_addr R' = obj_addr R" "entry_addr R' = entry_addr R"
    by (auto simp: R'_def obj_addr_def entry_addr_def fun_eq_iff)
  have "stored R A' ys"
    using hh(6) fresh ne by (auto simp: stored_def A'_def)
  moreover have "obj_addr R ?y \<notin> obj_addr R ` set ys"
    using fresh by (metis (no_types, lifting) fst_conv imageE obj_addr_def)
  ultimately have "stored R A' (ys @ [?y])"
    unfolding stored_snoc by (simp add: A'_def obj_addr_def)
  then have "stored R' A' (ys @ [?y])" by (simp add: stored_def addrs)
  moreover have "packed (unat (r_volume R')) (ys @ [?y])"
    unfolding uv by (rule packed_snoc [OF hh(5) vo dv raw(4)])
  ultimately have "holds R' A' (ys @ [?y])"
    using hh len fits unfolding holds_def uv by (simp add: R'_def)
  then show ?thesis
    by (rule that [OF eq]) (use uv in \<open>simp_all add: R'_def A'_def\<close>)
qed

lemma push_args_holds:
  assumes "holds R A ys" and "\<forall>x \<in> set xs. arg_ok x" and "length ys + length xs < 2 ^ 59"
    and "layout_end (unat (r_volume R)) (map arg_type xs) \<le> unat (r_capacity R)"
  shows "\<exists>R' A'. push_args xs (R, A) = Inr (R', A') \<and>
    holds R' A' (ys @ zip (layout (unat (r_volume R)) (map arg_type xs))
                      (zip (map arg_type xs) (map arg_value xs))) \<and>
    R' = R\<lparr>r_idx := r_idx R', r_volume := r_volume R'\<rparr> \<and> blocks A' = blocks A \<and>
    destroyed A' = destroyed A \<and>
    unat (r_volume R') = layout_end (unat (r_volume R)) (map arg_type xs) \<and>
    (\<forall>p. p \<notin> (\<lambda>off. r_data R + of_nat off) ` set (layout (unat (r_volume R)) (map arg_type xs)) \<longrightarrow>
         objs A' p = objs A p)"
  using assms
proof (induction xs arbitrary: R A ys)
  case Nil
  then show ?case by simp
next
  case (Cons x xs)
  let ?t = "arg_type x"
  define off where "off = roundup (unat (r_volume R)) (unat (ty_align ?t))"
  have ok: "arg_ok x" and sm: "list_all (\<lambda>t. small_align (ty_align t)) (map arg_type xs)"
    using Cons.prems(2) by (auto simp: arg_ok_def list_all_iff)
  have fits: "off + unat (ty_size ?t) \<le> unat (r_capacity R)"
    using Cons.prems(4) layout_end_ge [OF sm, of "off + unat (ty_size ?t)"] by (simp add: off_def)
  obtain R1 A1 where p: "push_back_no_realloc x (R, A) = Inr (R1, A1)"
    and h1: "holds R1 A1 (ys @ [(off, ?t, arg_value x)])"
    and R1: "R1 = R\<lparr>r_idx := r_idx R1, r_volume := of_nat off + ty_size ?t\<rparr>"
    and v1: "unat (r_volume R1) = off + unat (ty_size ?t)"
    and A1: "A1 = A\<lparr>objs := (objs A)(r_data R + of_nat off \<mapsto> (?t, arg_value x)), table := table A1\<rparr>"
    using push_back_holds [OF Cons.prems(1) ok _ off_def fits] Cons.prems(3) by auto
  have same: "r_capacity R1 = r_capacity R" "r_data R1 = r_data R"
    by (subst R1, simp)+
  have same_A: "blocks A1 = blocks A" "destroyed A1 = destroyed A"
    "\<And>p. p \<noteq> r_data R + of_nat off \<Longrightarrow> objs A1 p = objs A p"
    by (subst A1, simp)+
  obtain R' A' where IH: "push_args xs (R1, A1) = Inr (R', A')"
    "holds R' A' ((ys @ [(off, ?t, arg_value x)]) @ zip (layout (unat (r_volume R1)) (map arg_type xs))
                      (zip (map arg_type xs) (map arg_value xs)))"
    "R' = R1\<lparr>r_idx := r_idx R', r_volume := r_volume R'\<rparr>" "blocks A' = blocks A1"
    "destroyed A' = destroyed A1"
    "unat (r_volume R') = layout_end (unat (r_volume R1)) (map arg_type xs)"
    "\<And>p. p \<notin> (\<lambda>off. r_data R1 + of_nat off) ` set (layout (unat (r_volume R1)) (map arg_type xs)) \<Longrightarrow>
         objs A' p = objs A1 p"
    using Cons.IH [OF h1] Cons.prems(2,3,4) by (auto simp: same v1 off_def)
  have "R' = R\<lparr>r_idx := r_idx R', r_volume := r_volume R'\<rparr>"
    by (subst IH(3), subst R1) simp
  then show ?case
    using IH(1,2,4,5,6,7) p same_A by (auto simp: Let_def v1 off_def [symmetric] same)
qed

lemma clear_loop_stored:
  assumes "stored R A ys"
  shows "clear_loop R (length ys) A =
    Inr (A\<lparr>objs := (\<lambda>p. if p \<in> obj_addr R ` set ys then None else objs A p),
           destroyed := destroyed A @ rev (map (\<lambda>y. (obj_addr R y, snd y)) ys)\<rparr>)"
  using assms
proof (induction ys arbitrary: A rule: rev_induct)
  case Nil
  then show ?case by (simp add: fun_eq_iff)
next
  case (snoc y ys)
  let ?A1 = "A\<lparr>objs := (objs A)(obj_addr R y := None),
                destroyed := destroyed A @ [(obj_addr R y, snd y)]\<rparr>"
  from snoc.prems have st: "stored R A ys"
    and e: "table A (entry_addr R (length ys)) =
      Some \<lparr>obj_offset = of_nat (fst y), obj_destroyer = fst (snd y)\<rparr>"
    and o: "objs A (obj_addr R y) = Some (snd y)" and f: "obj_addr R y \<notin> obj_addr R ` set ys"
    by (auto simp: stored_snoc)
  from f have "\<forall>z \<in> set ys. obj_addr R z \<noteq> obj_addr R y" by (metis imageI)
  with st have "stored R ?A1 ys" by (simp add: stored_def)
  note IH = snoc.IH [OF this]
  have "clear_loop R (length (ys @ [y])) A = clear_loop R (length ys) ?A1"
    using e o by (cases y) (simp add: entry_addr_def destroy_def obj_addr_def split: prod.splits)
  also have "\<dots> = Inr (A\<lparr>objs := (\<lambda>p. if p \<in> obj_addr R ` set (ys @ [y]) then None else objs A p),
           destroyed := destroyed A @ rev (map (\<lambda>y. (obj_addr R y, snd y)) (ys @ [y]))\<rparr>)"
    unfolding IH by (auto simp: fun_eq_iff)
  finally show ?case .
qed

section \<open>Construction\<close>

text \<open>What the allocator must return, and a block that does not wrap the address space.\<close>

definition block_ok :: "size_t \<Rightarrow> cpp_type list \<Rightarrow> bool" where
  "block_ok base ts \<longleftrightarrow> base \<noteq> 0 \<and> unat base mod 16 = 0 \<and> length ts < 2 ^ 59 \<and>
     unat base + layout_end 0 ts + 16 * length ts + 32 \<le> 2 ^ 64"

text \<open>The objects a list of arguments turns into, with their offsets.\<close>

definition placed :: "'v argument list \<Rightarrow> (nat \<times> cpp_type \<times> 'v) list" where
  "placed xs = zip (layout 0 (map arg_type xs)) (zip (map arg_type xs) (map arg_value xs))"

lemma placed_nth:
  "i < length xs \<Longrightarrow> placed xs ! i = (layout 0 (map arg_type xs) ! i, arg_type (xs ! i), arg_value (xs ! i))"
  by (simp add: placed_def)

lemma placed_length [simp]: "length (placed xs) = length xs"
  by (simp add: placed_def)

definition rtt_start :: "nat \<Rightarrow> cpp_type list \<Rightarrow> size_t \<Rightarrow> rtt" where
  "rtt_start r ts base = \<lparr>r_resource = Some r, r_capacity = getSize 0 ts, r_volume = 0,
     r_allocation = base, r_data = base,
     r_objects = base + align_up (getSize 0 ts) alignof_objects_t, r_idx = 0\<rparr>"

lemma getSize_block:
  assumes "block_ok base ts" and "list_all (\<lambda>t. small_align (ty_align t)) ts"
  shows "unat (getSize 0 ts) = layout_end 0 ts"
  using getSize_layout [OF assms(2), of 0] assms(1) by (simp add: block_ok_def)

lemma rtt_start_holds:
  assumes "block_ok base ts" and "list_all (\<lambda>t. small_align (ty_align t)) ts"
  shows "holds (rtt_start r ts base) A []"
  using assms(1) getSize_block [OF assms]
  by (simp add: holds_def rtt_start_def packed_def stored_def block_ok_def)

lemma rtt_new_push:
  assumes "xs \<noteq> []" and "block_ok base (map arg_type xs)"
  shows "rtt_new (Some r) xs base A =
    push_args xs (rtt_start r (map arg_type xs) base,
                  allocate_block r base (rtt_block_size (map arg_type xs)) A)"
  using assms by (simp add: rtt_new_def check_resource_def rtt_start_def block_ok_def Let_def)

lemma args_ok_small:
  "\<forall>x \<in> set xs. arg_ok x \<Longrightarrow> list_all (\<lambda>t. small_align (ty_align t)) (map arg_type xs)"
  by (auto simp: list_all_iff arg_ok_def)

lemma rtt_new_holds:
  assumes "xs \<noteq> []" and "\<forall>x \<in> set xs. arg_ok x" and "block_ok base (map arg_type xs)"
  shows "\<exists>R A'. rtt_new (Some r) xs base A = Inr (R, A') \<and> holds R A' (placed xs) \<and>
    R = (rtt_start r (map arg_type xs) base)\<lparr>r_idx := r_idx R, r_volume := r_volume R\<rparr> \<and>
    blocks A' = (r, base, rtt_block_size (map arg_type xs)) # blocks A \<and> destroyed A' = destroyed A \<and>
    (\<forall>p. p \<notin> (\<lambda>off. base + of_nat off) ` set (layout 0 (map arg_type xs)) \<longrightarrow> objs A' p = objs A p)"
proof -
  let ?ts = "map arg_type xs"
  let ?R = "rtt_start r ?ts base" and ?A = "allocate_block r base (rtt_block_size ?ts) A"
  note sm = args_ok_small [OF assms(2)]
  have len: "length [] + length xs < 2 ^ 59" using assms(3) by (simp add: block_ok_def)
  have fits: "layout_end (unat (r_volume ?R)) ?ts \<le> unat (r_capacity ?R)"
    using getSize_block [OF assms(3) sm] by (simp add: rtt_start_def)
  from push_args_holds [OF rtt_start_holds [OF assms(3) sm, of r ?A] assms(2) len fits]
  show ?thesis
    unfolding rtt_new_push [OF assms(1,3)]
    by (simp add: placed_def allocate_block_def rtt_start_def) blast
qed

lemma holds_get:
  assumes "holds R A ys" and "i < length ys" and "fst (ys ! i) < 2 ^ 64"
  shows "rtt_offset R (of_nat i) A = Inr (of_nat (fst (ys ! i)))"
    and "rtt_get (fst (snd (ys ! i))) R (of_nat i) A = Inr (snd (snd (ys ! i)))"
proof -
  have st: "stored R A ys" and idx: "r_idx R = of_nat (length ys)" and len: "length ys < 2 ^ 59"
    using assms(1) by (simp_all add: holds_def)
  have "unat (of_nat i :: size_t) = i" "unat (of_nat (length ys) :: size_t) = length ys"
    using len assms(2) by (simp only: unat_of_nat, simp)+
  then have "(of_nat i :: size_t) < r_idx R"
    unfolding idx word_less_nat_alt using assms(2) by simp
  then show off: "rtt_offset R (of_nat i) A = Inr (of_nat (fst (ys ! i)))"
    using st assms(2) by (simp add: rtt_offset_def stored_def entry_addr_def)
  have "objs A (obj_addr R (ys ! i)) = Some (snd (ys ! i))"
    using st assms(2) by (simp add: stored_def)
  then show "rtt_get (fst (snd (ys ! i))) R (of_nat i) A = Inr (snd (snd (ys ! i)))"
    by (simp add: rtt_get_def off rtt_get_by_offset_def obj_addr_def split: prod.splits)
qed

lemma holds_bound: "holds R A ys \<Longrightarrow> y \<in> set ys \<Longrightarrow> fst y + unat (ty_size (fst (snd y))) \<le> unat (r_capacity R)"
  by (fastforce simp: holds_def packed_def)

lemma clear_holds:
  assumes h: "holds R A ys" and al: "r_allocation R \<noteq> 0" and r: "r_resource R = Some r"
    and blk: "(r, r_allocation R, align_up (r_capacity R) alignof_objects_t + r_idx R * sizeof_objects_t)
      \<in> set (blocks A)"
  shows "\<exists>A'. rtt_clear R A = Inr (rtt_cleared R, A') \<and>
    blocks A' = remove1 (r, r_allocation R,
      align_up (r_capacity R) alignof_objects_t + r_idx R * sizeof_objects_t) (blocks A) \<and>
    objs A' = (\<lambda>p. if p \<in> obj_addr R ` set ys then None else objs A p) \<and>
    destroyed A' = destroyed A @ rev (map (\<lambda>y. (obj_addr R y, snd y)) ys)"
proof -
  have st: "stored R A ys" and idx: "r_idx R = of_nat (length ys)" and len: "length ys < 2 ^ 59"
    using h by (simp_all add: holds_def)
  have "unat (r_idx R) = length ys"
    unfolding idx using len by (simp only: unat_of_nat) simp
  with clear_loop_stored [OF st] show ?thesis
    using al r blk by (simp add: rtt_clear_def Let_def deallocate_block_def)
qed

lemma push_args_append:
  "push_args (xs @ zs) RA =
     (case push_args xs RA of Inl f \<Rightarrow> Inl f | Inr RA' \<Rightarrow> push_args zs RA')"
  by (induction xs RA rule: push_args.induct) (simp_all split: sum.splits)

lemma layout_end_append: "layout_end n (ts @ us) = layout_end (layout_end n ts) us"
  by (induction n ts rule: layout_end.induct) simp_all

lemma packed_nth:
  assumes "packed vol ys" and "i < j" and "j < length ys"
  shows "fst (ys ! i) + unat (ty_size (fst (snd (ys ! i)))) \<le> fst (ys ! j)"
  using assms sorted_wrt_nth_less [of _ ys i j] by (fastforce simp: packed_def)

section \<open>Building and clearing a block\<close>

lemma holds_placed_get:
  assumes "holds R A (placed xs)" and "i < length xs"
  shows "rtt_get (arg_type (xs ! i)) R (of_nat i) A = Inr (arg_value (xs ! i))"
proof -
  have "placed xs ! i \<in> set (placed xs)" using assms(2) by simp
  from holds_bound [OF assms(1) this] have "fst (placed xs ! i) < 2 ^ 64"
    using unsigned_less [of "r_capacity R", where ?'a = nat] by simp
  from holds_get(2) [OF assms(1) _ this] show ?thesis using assms(2) by (simp add: placed_nth)
qed

lemma rtt_new_facts:
  assumes "xs \<noteq> []" and "\<forall>x \<in> set xs. arg_ok x" and "block_ok base (map arg_type xs)"
  obtains R A1 where "rtt_new (Some r) xs base A = Inr (R, A1)" and "holds R A1 (placed xs)"
    and "r_resource R = Some r" and "r_allocation R = base" and "base \<noteq> 0"
    and "align_up (r_capacity R) alignof_objects_t + r_idx R * sizeof_objects_t = rtt_block_size (map arg_type xs)"
    and "blocks A1 = (r, base, rtt_block_size (map arg_type xs)) # blocks A" and "destroyed A1 = destroyed A"
    and "r_data R = base"
    and "\<forall>p. p \<notin> obj_addr R ` set (placed xs) \<longrightarrow> objs A1 p = objs A p"
proof -
  let ?ts = "map arg_type xs"
  obtain R A1 where new: "rtt_new (Some r) xs base A = Inr (R, A1)" and h: "holds R A1 (placed xs)"
    and R: "R = (rtt_start r ?ts base)\<lparr>r_idx := r_idx R, r_volume := r_volume R\<rparr>"
    and b: "blocks A1 = (r, base, rtt_block_size ?ts) # blocks A" and d: "destroyed A1 = destroyed A"
    and o: "\<forall>p. p \<notin> (\<lambda>off. base + of_nat off) ` set (layout 0 ?ts) \<longrightarrow> objs A1 p = objs A p"
    using rtt_new_holds [OF assms] by blast
  have f: "r_allocation R = base" "r_resource R = Some r" "r_data R = base" "r_capacity R = getSize 0 ?ts"
    by (subst R, simp add: rtt_start_def)+
  have sz: "align_up (r_capacity R) alignof_objects_t + r_idx R * sizeof_objects_t = rtt_block_size ?ts"
    using h by (simp add: f holds_def rtt_block_size_def)
  have "obj_addr R ` set (placed xs) = (\<lambda>off. base + of_nat off) ` set (layout 0 ?ts)"
  proof -
    have "fst ` set (placed xs) = set (map fst (placed xs))" by simp
    also have "\<dots> = set (layout 0 ?ts)" by (simp add: placed_def)
    finally show ?thesis by (metis (no_types, lifting) f(3) image_cong image_image obj_addr_def)
  qed
  then have o': "\<forall>p. p \<notin> obj_addr R ` set (placed xs) \<longrightarrow> objs A1 p = objs A p" using o by simp
  have "base \<noteq> 0" using assms(3) by (simp add: block_ok_def)
  then show ?thesis using that new h f(1-3) sz b d o' by blast
qed

lemma placed_offsets: "fst ` set (placed xs) = set (layout 0 (map arg_type xs))"
proof -
  have "fst ` set (placed xs) = set (map fst (placed xs))" by simp
  also have "\<dots> = set (layout 0 (map arg_type xs))" by (simp add: placed_def)
  finally show ?thesis .
qed

text \<open>Clearing the block, whatever values its objects have by then.\<close>

lemma rtt_clear_restores:
  assumes "\<forall>off \<in> set (layout 0 (map arg_type xs)). objs A (base + of_nat off) = None"
    and "holds R A2 ys" and "map (obj_addr R) ys = map (obj_addr R) (placed xs)"
    and "r_resource R = Some r" and "r_allocation R = base" and "base \<noteq> 0"
    and "align_up (r_capacity R) alignof_objects_t + r_idx R * sizeof_objects_t = rtt_block_size (map arg_type xs)"
    and "blocks A2 = (r, base, rtt_block_size (map arg_type xs)) # blocks A"
    and "r_data R = base"
    and "\<forall>p. p \<notin> obj_addr R ` set (placed xs) \<longrightarrow> objs A2 p = objs A p"
  shows "\<exists>A3. rtt_clear R A2 = Inr (rtt_cleared R, A3) \<and> blocks A3 = blocks A \<and> objs A3 = objs A \<and>
    destroyed A3 = destroyed A2 @ rev (map (\<lambda>y. (obj_addr R y, snd y)) ys)"
proof -
  obtain A3 where c: "rtt_clear R A2 = Inr (rtt_cleared R, A3)" "blocks A3 = blocks A"
    "objs A3 = (\<lambda>p. if p \<in> obj_addr R ` set ys then None else objs A2 p)"
    "destroyed A3 = destroyed A2 @ rev (map (\<lambda>y. (obj_addr R y, snd y)) ys)"
    using clear_holds [OF assms(2), of r] assms(4-8) by auto
  have addr: "obj_addr R ` set ys = obj_addr R ` set (placed xs)"
    using assms(3) by (metis image_set)
  have "objs A p = None" if "p \<in> obj_addr R ` set (placed xs)" for p
  proof -
    from that obtain y where "y \<in> set (placed xs)" "p = base + of_nat (fst y)" using assms(9) by (auto simp: obj_addr_def)
    moreover from this have "fst y \<in> set (layout 0 (map arg_type xs))" using placed_offsets by (metis image_eqI)
    ultimately show ?thesis using assms(1) by simp
  qed
  then have "objs A3 = objs A"
    unfolding c(3) addr using assms(10) by (auto simp: fun_eq_iff)
  with c show ?thesis by blast
qed

lemma rtt_built_and_cleared:
  assumes "xs \<noteq> []" and "\<forall>x \<in> set xs. arg_ok x" and "block_ok base (map arg_type xs)"
    and "\<forall>off \<in> set (layout 0 (map arg_type xs)). objs A (base + of_nat off) = None"
  shows "\<exists>R A1 A2. rtt_new (Some r) xs base A = Inr (R, A1) \<and> holds R A1 (placed xs) \<and>
    r_resource R = Some r \<and> rtt_clear R A1 = Inr (rtt_cleared R, A2) \<and>
    blocks A2 = blocks A \<and> objs A2 = objs A \<and>
    destroyed A2 = destroyed A @
      rev (map (\<lambda>(off, t, v). (base + of_nat off, t, v)) (placed xs))"
proof -
  obtain R A1 where f: "rtt_new (Some r) xs base A = Inr (R, A1)" "holds R A1 (placed xs)"
    "r_resource R = Some r" "r_allocation R = base" "base \<noteq> 0"
    "align_up (r_capacity R) alignof_objects_t + r_idx R * sizeof_objects_t = rtt_block_size (map arg_type xs)"
    "blocks A1 = (r, base, rtt_block_size (map arg_type xs)) # blocks A" "destroyed A1 = destroyed A"
    and ad: "r_data R = base"
    and o: "\<forall>p. p \<notin> obj_addr R ` set (placed xs) \<longrightarrow> objs A1 p = objs A p"
    by (rule rtt_new_facts [OF assms(1-3), of r A]) blast
  have "map (\<lambda>y. (obj_addr R y, snd y)) (placed xs) = map (\<lambda>(off, t, v). (base + of_nat off, t, v)) (placed xs)"
    by (auto simp: obj_addr_def ad)
  with rtt_clear_restores [OF assms(4) f(2) refl f(3-7) ad o] f(1-3,8) show ?thesis by auto
qed

section \<open>Sample arguments\<close>

definition int_type :: cpp_type where "int_type = \<lparr>ty_id = 0, ty_align = 4, ty_size = 4\<rparr>"
definition double_type :: cpp_type where "double_type = \<lparr>ty_id = 1, ty_align = 8, ty_size = 8\<rparr>"

definition plain_arg :: "cpp_type \<Rightarrow> 'v \<Rightarrow> 'v argument" where
  "plain_arg t v = \<lparr>arg_type = t, raw_type = t, arg_value = v, arg_throws = False\<rparr>"

definition no_arena :: "'v arena" where
  "no_arena = \<lparr>objs = (\<lambda>_. None), table = (\<lambda>_. None), blocks = [], destroyed = []\<rparr>"

definition sample_args :: "nat argument list" where
  "sample_args = [plain_arg int_type 7, plain_arg double_type 9]"

lemmas rtt_sample = plain_arg_def int_type_def double_type_def arg_ok_def small_align_def
  block_ok_def roundup_def

lemma sample_args_ok:
  "sample_args \<noteq> []" "\<forall>x \<in> set sample_args. arg_ok x" "block_ok 0x1000 (map arg_type sample_args)"
  by (simp_all add: sample_args_def rtt_sample)

lemma sample_layout: "layout 0 (map arg_type sample_args) = [0, 8]"
  by (simp add: sample_args_def rtt_sample)

section \<open>Properties\<close>

text \<open>C22: The argument block stores what it is given. With plain arguments every construction
  succeeds; each value is read back at its index, properly aligned, inside the object area, past the
  end of the objects before it.\<close>

theorem rtt_stores_arguments:
  assumes "xs \<noteq> []" and "\<forall>x \<in> set xs. arg_ok x" and "block_ok base (map arg_type xs)"
  shows "\<exists>R A'. rtt_new (Some r) xs base A = Inr (R, A') \<and> rtt_size R = of_nat (length xs) \<and>
    (\<forall>i < length xs. rtt_get (arg_type (xs ! i)) R (of_nat i) A' = Inr (arg_value (xs ! i))) \<and>
    (\<forall>i < length xs. \<exists>off.
       rtt_offset R (of_nat i) A' = Inr (of_nat off) \<and>
       unat (ty_align (arg_type (xs ! i))) dvd unat base + off \<and>
       off + unat (ty_size (arg_type (xs ! i))) \<le> layout_end 0 (map arg_type xs) \<and>
       (\<forall>j < i. layout 0 (map arg_type xs) ! j + unat (ty_size (arg_type (xs ! j))) \<le> off))"
proof -
  obtain R A' where new: "rtt_new (Some r) xs base A = Inr (R, A')" and h: "holds R A' (placed xs)"
    and R: "R = (rtt_start r (map arg_type xs) base)\<lparr>r_idx := r_idx R, r_volume := r_volume R\<rparr>"
    using rtt_new_holds [OF assms] by blast
  have cap: "unat (r_capacity R) = layout_end 0 (map arg_type xs)"
    using getSize_block [OF assms(3) args_ok_small [OF assms(2)]] by (subst R) (simp add: rtt_start_def)
  have item: "rtt_offset R (of_nat i) A' = Inr (of_nat (layout 0 (map arg_type xs) ! i)) \<and>
      rtt_get (arg_type (xs ! i)) R (of_nat i) A' = Inr (arg_value (xs ! i)) \<and>
      unat (ty_align (arg_type (xs ! i))) dvd unat base + layout 0 (map arg_type xs) ! i \<and>
      layout 0 (map arg_type xs) ! i + unat (ty_size (arg_type (xs ! i))) \<le> layout_end 0 (map arg_type xs)"
    if i: "i < length xs" for i
  proof -
    have mem: "placed xs ! i \<in> set (placed xs)" using i by simp
    have b: "layout 0 (map arg_type xs) ! i + unat (ty_size (arg_type (xs ! i))) \<le> layout_end 0 (map arg_type xs)"
      using holds_bound [OF h mem] i by (simp add: placed_nth cap)
    then have "fst (placed xs ! i) < 2 ^ 64"
      using assms(3) i by (simp add: placed_nth block_ok_def)
    from holds_get [OF h _ this] have g: "rtt_offset R (of_nat i) A' = Inr (of_nat (layout 0 (map arg_type xs) ! i))"
      "rtt_get (arg_type (xs ! i)) R (of_nat i) A' = Inr (arg_value (xs ! i))"
      using i by (simp_all add: placed_nth)
    have "unat (ty_align (arg_type (xs ! i))) dvd layout 0 (map arg_type xs) ! i"
      using h mem i by (fastforce simp: holds_def packed_def placed_nth)
    moreover have "unat (ty_align (arg_type (xs ! i))) dvd unat base"
      using small_align_16 [of "ty_align (arg_type (xs ! i))"] assms(2,3) i
      by (meson arg_ok_def block_ok_def dvd_trans mod_0_imp_dvd nth_mem)
    ultimately show ?thesis using g b by simp
  qed
  have gap: "layout 0 (map arg_type xs) ! j + unat (ty_size (arg_type (xs ! j))) \<le> layout 0 (map arg_type xs) ! i"
    if "i < length xs" "j < i" for i j
    using packed_nth [of _ "placed xs" j i] h that by (fastforce simp: holds_def placed_nth)
  have "rtt_size R = of_nat (length xs)" using h by (simp add: holds_def rtt_size_def)
  with new item gap show ?thesis by blast
qed

theorem rtt_stores_arguments_witness:
  "\<exists>R A'. rtt_new (Some 0) sample_args 0x1000 no_arena = Inr (R, A') \<and> rtt_get double_type R 1 A' = Inr 9"
proof -
  obtain R A' where n: "rtt_new (Some 0) sample_args 0x1000 no_arena = Inr (R, A')"
    and g: "\<forall>i < length sample_args. rtt_get (arg_type (sample_args ! i)) R (of_nat i) A' = Inr (arg_value (sample_args ! i))"
    using rtt_stores_arguments [OF sample_args_ok, of 0 no_arena] by (elim exE conjE) (rule that)
  from g [rule_format, of 1] n show ?thesis by (auto simp: sample_args_def plain_arg_def)
qed

text \<open>C23: Destroying the block undoes building it: every object is destroyed once, in reverse order
  of construction, and the allocation is returned with the size it was made with.\<close>

theorem rtt_lifetime:
  assumes "xs \<noteq> []" and "\<forall>x \<in> set xs. arg_ok x" and "block_ok base (map arg_type xs)"
    and "\<forall>off \<in> set (layout 0 (map arg_type xs)). objs A (base + of_nat off) = None"
  shows "\<exists>R A1 R2 A2. rtt_new (Some r) xs base A = Inr (R, A1) \<and> rtt_clear R A1 = Inr (R2, A2) \<and>
    rtt_is_empty R2 \<and> blocks A2 = blocks A \<and> objs A2 = objs A \<and>
    destroyed A2 = destroyed A @
      rev (map (\<lambda>(off, t, v). (base + of_nat off, t, v)) (placed xs))"
  using rtt_built_and_cleared [OF assms, of r] by (auto simp: rtt_is_empty_def rtt_cleared_def)

theorem rtt_lifetime_witness:
  "\<exists>R A1 R2 A2. rtt_new (Some 0) sample_args 0x1000 no_arena = Inr (R, A1) \<and>
     rtt_clear R A1 = Inr (R2, A2) \<and>
     destroyed A2 = [(0x1008, double_type, 9), (0x1000, int_type, 7)]"
proof -
  have f: "\<forall>off \<in> set (layout 0 (map arg_type sample_args)). objs no_arena (0x1000 + of_nat off) = None"
    by (simp add: no_arena_def)
  have d: "destroyed no_arena @ rev (map (\<lambda>(off, t, v). (0x1000 + of_nat off, t, v)) (placed sample_args))
    = [(0x1008, double_type, 9), (0x1000, int_type, 7)]"
    unfolding placed_def sample_layout by (simp add: sample_args_def plain_arg_def no_arena_def)
  show ?thesis
    using rtt_lifetime [OF sample_args_ok f, of 0] unfolding d by blast
qed

text \<open>Move assignment hands the block over: what the target held is destroyed and returned, the
  target becomes the source, and the source is left empty, so destroying it does nothing.\<close>

theorem rtt_move_assign_owns:
  assumes "holds R A ys" and "r_allocation R \<noteq> 0" and "r_resource R = Some r" and "r_resource R' = Some r"
    and "(r, r_allocation R, align_up (r_capacity R) alignof_objects_t + r_idx R * sizeof_objects_t)
      \<in> set (blocks A)"
  shows "\<exists>gone A'. rtt_move_assign R R' A = Inr (R', gone, A') \<and>
    objs A' = (\<lambda>p. if p \<in> obj_addr R ` set ys then None else objs A p) \<and>
    length (destroyed A') = length (destroyed A) + length ys \<and>
    length (blocks A') + 1 = length (blocks A) \<and> rtt_clear gone A' = Inr (rtt_cleared gone, A')"
proof -
  obtain A' where c: "rtt_clear R A = Inr (rtt_cleared R, A')"
    "blocks A' = remove1 (r, r_allocation R,
      align_up (r_capacity R) alignof_objects_t + r_idx R * sizeof_objects_t) (blocks A)"
    "objs A' = (\<lambda>p. if p \<in> obj_addr R ` set ys then None else objs A p)"
    "destroyed A' = destroyed A @ rev (map (\<lambda>y. (obj_addr R y, snd y)) ys)"
    using clear_holds [OF assms(1-3,5)] by blast
  have "length (blocks A') + 1 = length (blocks A)"
    using assms(5) length_pos_if_in_set [OF assms(5)] by (simp add: c(2) length_remove1)
  moreover have "rtt_clear rtt_moved_from A' = Inr (rtt_cleared rtt_moved_from, A')"
    by (simp add: rtt_clear_def rtt_moved_from_def rtt_empty_def)
  ultimately show ?thesis
    using c(1,3,4) assms(3,4) by (simp add: rtt_move_assign_def)
qed

definition held_rtt :: rtt where
  "held_rtt = \<lparr>r_resource = Some 0, r_capacity = 4, r_volume = 4, r_allocation = 0x1000,
    r_data = 0x1000, r_objects = 0x1008, r_idx = 1\<rparr>"

definition held_arena :: "nat arena" where
  "held_arena = \<lparr>objs = [0x1000 \<mapsto> (int_type, 7)],
    table = [0x1008 \<mapsto> \<lparr>obj_offset = 0, obj_destroyer = int_type\<rparr>], blocks = [(0, 0x1000, 24)], destroyed = []\<rparr>"

theorem rtt_move_assign_owns_witness:
  "\<exists>gone A'. rtt_move_assign held_rtt (rtt_empty (Some 0)) held_arena = Inr (rtt_empty (Some 0), gone, A') \<and>
     length (destroyed A') = 1"
proof -
  have h: "holds held_rtt held_arena [(0, int_type, 7)]"
    by (simp add: holds_def packed_def stored_def held_rtt_def held_arena_def obj_addr_def
        entry_addr_def int_type_def)
  then show ?thesis
    using rtt_move_assign_owns [OF h, of 0 "rtt_empty (Some 0)"]
    by (auto simp: held_rtt_def held_arena_def rtt_empty_def align_up_def alignof_objects_t_def
        sizeof_objects_t_def)
qed

text \<open>A throwing argument leaks. When constructing a stored object throws, the constructor
  leaves the block allocated and the objects before it alive, and nobody is left to destroy them.\<close>

theorem rtt_throw_leaks:
  assumes "\<forall>y \<in> set xs. arg_ok y" and "arg_throws x" and "arg_ok (x\<lparr>arg_throws := False\<rparr>)"
    and "block_ok base (map arg_type (xs @ [x]))"
  shows "\<exists>A'. rtt_new (Some r) (xs @ [x]) base A = Inl (Thrown, A') \<and>
    (r, base, rtt_block_size (map arg_type (xs @ [x]))) \<in> set (blocks A') \<and>
    destroyed A' = destroyed A \<and>
    (\<forall>i < length xs. objs A' (base + of_nat (layout 0 (map arg_type xs) ! i))
       = Some (arg_type (xs ! i), arg_value (xs ! i)))"
proof -
  let ?ts = "map arg_type (xs @ [x])"
  let ?R = "rtt_start r ?ts base" and ?A = "allocate_block r base (rtt_block_size ?ts) A"
  have sm: "list_all (\<lambda>t. small_align (ty_align t)) ?ts"
    using assms(1,3) by (auto simp: list_all_iff arg_ok_def)
  have cap: "unat (r_capacity ?R) = layout_end (layout_end 0 (map arg_type xs)) [arg_type x]"
    using getSize_block [OF assms(4) sm] by (simp add: rtt_start_def layout_end_append)
  have len: "length [] + length xs < 2 ^ 59" using assms(4) by (simp add: block_ok_def)
  have "layout_end (unat (r_volume ?R)) (map arg_type xs) \<le> unat (r_capacity ?R)"
    unfolding cap using sm layout_end_ge [of "[arg_type x]" "layout_end 0 (map arg_type xs)"]
    by (simp add: rtt_start_def)
  from push_args_holds [OF rtt_start_holds [OF assms(4) sm, of r ?A] assms(1) len this]
  obtain R' A' where p: "push_args xs (?R, ?A) = Inr (R', A')" and h: "holds R' A' (placed xs)"
    and R': "R' = ?R\<lparr>r_idx := r_idx R', r_volume := r_volume R'\<rparr>"
    and b: "blocks A' = blocks ?A" and d: "destroyed A' = destroyed ?A"
    and v: "unat (r_volume R') = layout_end 0 (map arg_type xs)"
    by (auto simp: placed_def rtt_start_def)
  have al: "small_align (ty_align (arg_type x))" and raw: "raw_type x = arg_type x"
    using assms(3) by (simp_all add: arg_ok_def)
  have f: "r_capacity R' = r_capacity ?R" "r_data R' = base"
    by (subst R', simp add: rtt_start_def)+
  have "force_align R' (arg_type x) = Inr (r_data R' + of_nat (roundup (unat (r_volume R')) (unat (ty_align (arg_type x)))))"
    by (rule force_align_holds [OF h al]) (use cap in \<open>simp add: f v\<close>)
  then have t: "rtt_new (Some r) (xs @ [x]) base A = Inl (Thrown, A')"
    using rtt_new_push [OF _ assms(4), of r A] p assms(2)
    by (simp add: push_args_append push_back_no_realloc_def raw)
  have "objs A' (base + of_nat (layout 0 (map arg_type xs) ! i)) = Some (arg_type (xs ! i), arg_value (xs ! i))"
    if i: "i < length xs" for i
  proof -
    have "placed xs ! i \<in> set (placed xs)" using i by simp
    then have "objs A' (obj_addr R' (placed xs ! i)) = Some (snd (placed xs ! i))"
      using h by (simp add: holds_def stored_def)
    then show ?thesis by (simp add: obj_addr_def f placed_nth i)
  qed
  with t b d show ?thesis by (simp add: allocate_block_def)
qed

theorem rtt_throw_leaks_witness:
  "\<exists>A'. rtt_new (Some 0) [plain_arg int_type (7 :: nat), (plain_arg double_type 9)\<lparr>arg_throws := True\<rparr>]
     0x1000 no_arena = Inl (Thrown, A') \<and> objs A' 0x1000 = Some (int_type, 7) \<and> blocks A' \<noteq> []"
proof -
  have "\<exists>A'. rtt_new (Some 0) [plain_arg int_type (7 :: nat), (plain_arg double_type 9)\<lparr>arg_throws := True\<rparr>]
     0x1000 no_arena = Inl (Thrown, A') \<and>
     (0, 0x1000, rtt_block_size [int_type, double_type]) \<in> set (blocks A') \<and>
     objs A' 0x1000 = Some (int_type, 7)"
    using rtt_throw_leaks [of "[plain_arg int_type (7 :: nat)]" "(plain_arg double_type 9)\<lparr>arg_throws := True\<rparr>"
        "0x1000" 0 no_arena]
    by (simp add: rtt_sample) blast
  then show ?thesis by fastforce
qed

text \<open>What the block cannot place aborts. An argument aligned beyond 16 aborts the process on a
  block the allocator aligned to 16 only, and so does an array, which is measured as the array but
  stored as a pointer.\<close>

theorem rtt_unplaceable_aborts:
  "rtt_new (Some r) [\<lparr>arg_type = \<lparr>ty_id = 1, ty_align = 32, ty_size = 32\<rparr>,
      raw_type = \<lparr>ty_id = 1, ty_align = 32, ty_size = 32\<rparr>, arg_value = v, arg_throws = False\<rparr>]
      0x1010 A = Inl (No_capacity, allocate_block r 0x1010 48 A) \<and>
   rtt_new (Some r) [\<lparr>arg_type = \<lparr>ty_id = 2, ty_align = 1, ty_size = 3\<rparr>,
      raw_type = \<lparr>ty_id = 3, ty_align = 8, ty_size = 8\<rparr>, arg_value = v, arg_throws = False\<rparr>]
      0x1000 A = Inl (No_capacity, allocate_block r 0x1000 24 A)"
  by (simp_all add: rtt_new_def check_resource_def Let_def push_back_no_realloc_def force_align_def
      try_to_align_def std_align_def align_up_def rtt_block_size_def alignof_objects_t_def
      sizeof_objects_t_def)


end
