(* ===== verification/Scheduler.thy ===== *)
theory Scheduler
  imports Linked_List Resumable
begin

text \<open>
  The work-sharing scheduler: \<open>scheduler_t\<close> and \<open>worker\<close> (\<open>scheduler/scheduler.hpp\<close>,
  \<open>scheduler/worker.hpp\<close>), the policy with the central queue, its lock and condition variable
  (\<open>scheduler/policy/work_sharing.hpp\<close>) and the queue's nodes (\<open>scheduler/job_ptr.hpp\<close>). One
  step is one critical section of the lock, one \<open>notify_one\<close>, or one \<open>resume\<close> call of a job,
  whose verdict the environment chooses. A thread in \<open>cv.wait\<close> is either evaluating the
  predicate (\<open>W_wait\<close>) or blocked until a notification or a spurious wake-up.
\<close>

section \<open>Jobs\<close>

datatype resume_fn = Null_fn | Actor_fn | Helper_fn

record job_ptr =
  j_ptr :: nat
  j_fn :: resume_fn

definition job_null :: job_ptr where
  "job_null = \<lparr>j_ptr = 0, j_fn = Null_fn\<rparr>"

definition job_ptr_new :: "nat \<Rightarrow> resume_fn \<Rightarrow> job_ptr outcome" where
  "job_ptr_new p fn =
     (if \<not> (p \<noteq> 0 \<or> fn = Null_fn) then Inl Assertion_failed
      else if \<not> (fn \<noteq> Null_fn \<or> p = 0) then Inl Assertion_failed
      else Inr \<lparr>j_ptr = p, j_fn = fn\<rparr>)"

text \<open>\<open>verdict\<close> is what the actor's own \<open>resume\<close> returns; the shutdown helper's is fixed.\<close>

definition job_resume :: "resume_info \<Rightarrow> job_ptr \<Rightarrow> resume_info outcome" where
  "job_resume verdict j =
     (if j_ptr j = 0 then Inl Assertion_failed
      else case j_fn j of
        Null_fn \<Rightarrow> Inl Assertion_failed
      | Actor_fn \<Rightarrow> Inr verdict
      | Helper_fn \<Rightarrow> Inr \<lparr>ri_result = Shutdown, ri_messages = 0\<rparr>)"

section \<open>State\<close>

datatype worker_pc =
  W_wait | W_blocked | W_job nat | W_done nat resume_info | W_later nat | W_notify
| W_stopped | W_fault

text \<open>The number is \<open>alive_workers.size()\<close>.\<close>

datatype stop_pc = S_running | S_send nat | S_notify nat | S_wait nat | S_join | S_drain | S_finished

text \<open>
  \<open>live\<close> are the allocated nodes, \<open>callers\<close> counts the threads between releasing the lock in
  \<open>enqueue\<close> and their \<open>notify_one\<close>; \<open>pushed\<close> and \<open>popped\<close> are ghost logs of the queue.
\<close>

record sched =
  queue :: linked_list
  memory :: mem
  nodes :: "nat \<Rightarrow> job_ptr"
  live :: "nat list"
  workers :: "worker_pc list"
  callers :: nat
  stopper :: stop_pc
  completed_count :: nat
  pushed :: "nat list"
  popped :: "nat list"

definition sched_new :: "nat \<Rightarrow> nat \<Rightarrow> mem \<Rightarrow> sched" where
  "sched_new h t m =
     (let (q, m') = ll_new h t m
      in \<lparr>queue = q, memory = m', nodes = (\<lambda>_. job_null), live = [], workers = [], callers = 0,
          stopper = S_running, completed_count = 0, pushed = [], popped = []\<rparr>)"

definition sched_start :: "nat \<Rightarrow> sched \<Rightarrow> sched" where
  "sched_start num s = s\<lparr>workers := workers s @ replicate num W_wait\<rparr>"

section \<open>The policy\<close>

definition queue_push :: "nat \<Rightarrow> sched \<Rightarrow> sched" where
  "queue_push p s =
     (let (q, m) = ll_push_back p (queue s, memory s)
      in s\<lparr>queue := q, memory := m, pushed := pushed s @ [p]\<rparr>)"

definition queue_pop :: "sched \<Rightarrow> nat \<times> sched" where
  "queue_pop s =
     (let (p, q, m) = ll_pop_front (queue s, memory s)
      in (p, s\<lparr>queue := q, memory := m, popped := popped s @ [p]\<rparr>))"

definition delete_job :: "nat \<Rightarrow> sched \<Rightarrow> sched" where
  "delete_job p s = s\<lparr>memory := delete_node p (memory s), live := remove1 p (live s)\<rparr>"

text \<open>\<open>p\<close> is the address \<open>make_unique\<close> returns.\<close>

definition new_job :: "nat \<Rightarrow> resume_fn \<Rightarrow> nat \<Rightarrow> sched \<Rightarrow> sched outcome" where
  "new_job resumable fn p s =
     (case job_ptr_new resumable fn of
        Inl f \<Rightarrow> Inl f
      | Inr j \<Rightarrow> Inr (s\<lparr>nodes := (nodes s)(p := j), live := p # live s\<rparr>))"

text \<open>The part of \<open>central_enqueue\<close> and \<open>external_enqueue\<close> up to the release of the lock.\<close>

definition central_enqueue :: "nat \<Rightarrow> resume_fn \<Rightarrow> nat \<Rightarrow> sched \<Rightarrow> sched outcome" where
  "central_enqueue resumable fn p s =
     (case new_job resumable fn p s of Inl f \<Rightarrow> Inl f | Inr s' \<Rightarrow> Inr (queue_push p s'))"

text \<open>\<open>notify_one\<close> wakes a blocked thread, here \<open>k\<close>, if there is one.\<close>

definition notify_one :: "nat \<Rightarrow> sched \<Rightarrow> sched" where
  "notify_one k s =
     (if k < length (workers s) \<and> workers s ! k = W_blocked
      then s\<lparr>workers := (workers s)[k := W_wait]\<rparr> else s)"

definition may_wake :: "nat \<Rightarrow> sched \<Rightarrow> bool" where
  "may_wake k s \<longleftrightarrow> (W_blocked \<in> set (workers s) \<longrightarrow> k < length (workers s) \<and> workers s ! k = W_blocked)"

definition set_worker :: "nat \<Rightarrow> worker_pc \<Rightarrow> sched \<Rightarrow> sched" where
  "set_worker i pc s = s\<lparr>workers := (workers s)[i := pc]\<rparr>"

text \<open>One evaluation of the predicate of \<open>cv.wait\<close> and, if it holds, the pop.\<close>

definition dequeue :: "nat \<Rightarrow> sched \<Rightarrow> sched" where
  "dequeue i s =
     (if ll_empty (queue s) then set_worker i W_blocked s
      else let (p, s') = queue_pop s in set_worker i (W_job p) s')"

section \<open>The worker\<close>

definition worker_resume :: "resume_info \<Rightarrow> nat \<Rightarrow> nat \<Rightarrow> sched \<Rightarrow> sched" where
  "worker_resume verdict i node s =
     (if node = 0 then set_worker i W_fault s
      else case job_resume verdict (nodes s node) of
        Inl f \<Rightarrow> set_worker i W_fault s
      | Inr res \<Rightarrow>
          set_worker i (W_done node res)
            (if j_fn (nodes s node) = Helper_fn
             then s\<lparr>completed_count := completed_count s + 1\<rparr> else s))"

definition worker_switch :: "nat \<Rightarrow> nat \<Rightarrow> resume_info \<Rightarrow> sched \<Rightarrow> sched" where
  "worker_switch i node res s =
     (case ri_result res of
        Resume \<Rightarrow> set_worker i (W_later node) s
      | Done \<Rightarrow> set_worker i W_wait (delete_job node s)
      | Awaiting \<Rightarrow> set_worker i W_wait (delete_job node s)
      | Shutdown \<Rightarrow> set_worker i W_stopped (delete_job node s))"

fun worker_step :: "resume_info \<Rightarrow> nat \<Rightarrow> nat \<Rightarrow> worker_pc \<Rightarrow> sched \<Rightarrow> sched" where
  "worker_step verdict k i W_wait s = dequeue i s"
| "worker_step verdict k i (W_job node) s = worker_resume verdict i node s"
| "worker_step verdict k i (W_done node res) s = worker_switch i node res s"
| "worker_step verdict k i (W_later node) s = set_worker i W_notify (queue_push node s)"
| "worker_step verdict k i W_notify s = set_worker i W_wait (notify_one k s)"
| "worker_step verdict k i pc s = s"

section \<open>Stopping\<close>

function drain_jobs :: "sched \<Rightarrow> sched" where
  "drain_jobs s =
     (if ll_empty (queue s) then s
      else let (p, s') = queue_pop s
           in if j_ptr (nodes s' p) = 0 then delete_job p s' else drain_jobs (delete_job p s'))"
  by auto
termination
  by (relation "measure (\<lambda>s. size_of (queue s))")
    (auto simp: queue_pop_def ll_pop_front_def delete_job_def ll_empty_def ll_size_def Let_def
      split: prod.splits if_splits)

text \<open>
  \<open>stop\<close>: \<open>sh\<close> is the address of the helper on its stack, \<open>p\<close> the next node, \<open>k\<close> whom the
  notification wakes. Waiting on the helper and joining are steps that do not move until they can.
\<close>

fun stop_step :: "nat \<Rightarrow> nat \<Rightarrow> nat \<Rightarrow> stop_pc \<Rightarrow> sched \<Rightarrow> sched" where
  "stop_step sh p k S_running s = s\<lparr>stopper := S_send (length (workers s))\<rparr>"
| "stop_step sh p k (S_send 0) s = s\<lparr>stopper := S_join\<rparr>"
| "stop_step sh p k (S_send (Suc n)) s =
     (case central_enqueue sh Helper_fn p s of
        Inl f \<Rightarrow> s
      | Inr s' \<Rightarrow> s'\<lparr>stopper := S_notify (Suc n)\<rparr>)"
| "stop_step sh p k (S_notify n) s = (notify_one k s)\<lparr>stopper := S_wait n\<rparr>"
| "stop_step sh p k (S_wait n) s =
     (if completed_count s > 0
      then s\<lparr>completed_count := completed_count s - 1, stopper := S_send (n - 1)\<rparr> else s)"
| "stop_step sh p k S_join s =
     (if \<forall>w \<in> set (workers s). w = W_stopped then s\<lparr>stopper := S_drain\<rparr> else s)"
| "stop_step sh p k S_drain s = (drain_jobs s)\<lparr>stopper := S_finished\<rparr>"
| "stop_step sh p k S_finished s = s"

section \<open>Runs\<close>

definition fresh_node :: "nat \<Rightarrow> sched \<Rightarrow> bool" where
  "fresh_node p s \<longleftrightarrow> p \<noteq> 0 \<and> p \<noteq> head (queue s) \<and> p \<noteq> tail (queue s) \<and> p \<notin> set (live s)"

text \<open>\<open>sh\<close> is the helper's address. An actor's own verdict is never \<open>shutdown\<close>.\<close>

inductive sched_step :: "nat \<Rightarrow> sched \<Rightarrow> sched \<Rightarrow> bool" for sh where
  submit: "fresh_node p s \<Longrightarrow> central_enqueue a Actor_fn p s = Inr s' \<Longrightarrow>
     sched_step sh s (s'\<lparr>callers := callers s' + 1\<rparr>)"
| notify: "callers s > 0 \<Longrightarrow> may_wake k s \<Longrightarrow>
     sched_step sh s ((notify_one k s)\<lparr>callers := callers s - 1\<rparr>)"
| wake: "i < length (workers s) \<Longrightarrow> workers s ! i = W_blocked \<Longrightarrow>
     sched_step sh s (set_worker i W_wait s)"
| work: "i < length (workers s) \<Longrightarrow> workers s ! i = pc \<Longrightarrow> may_wake k s \<Longrightarrow>
     ri_result verdict \<noteq> Shutdown \<Longrightarrow> sched_step sh s (worker_step verdict k i pc s)"
| stop: "stopper s = pc \<Longrightarrow> fresh_node p s \<Longrightarrow> may_wake k s \<Longrightarrow>
     sched_step sh s (stop_step sh p k pc s)"

inductive sched_reachable :: "nat \<Rightarrow> nat \<Rightarrow> sched \<Rightarrow> sched \<Rightarrow> bool" for sh num s0 where
  init: "sched_reachable sh num s0 (sched_start num s0)"
| step: "sched_reachable sh num s0 s \<Longrightarrow> sched_step sh s s' \<Longrightarrow> sched_reachable sh num s0 s'"

section \<open>The queue and the nodes\<close>

text \<open>The nodes in the queue, and those in the hands of the workers.\<close>

definition queued :: "sched \<Rightarrow> nat list" where
  "queued s = drop (length (popped s)) (pushed s)"

lemma queued_update [simp]:
  "queued (s\<lparr>callers := n\<rparr>) = queued s" "queued (s\<lparr>stopper := t\<rparr>) = queued s"
  "queued (s\<lparr>completed_count := c\<rparr>) = queued s" "queued (s\<lparr>workers := ws\<rparr>) = queued s"
  by (simp_all add: queued_def)

fun held :: "worker_pc \<Rightarrow> nat multiset" where
  "held (W_job p) = {#p#}"
| "held (W_done p r) = {#p#}"
| "held (W_later p) = {#p#}"
| "held _ = {#}"

definition handed :: "sched \<Rightarrow> nat multiset" where
  "handed s = sum_list (map held (workers s))"

definition job_ok :: "job_ptr \<Rightarrow> bool" where
  "job_ok j \<longleftrightarrow> j_ptr j \<noteq> 0 \<and> j_fn j \<noteq> Null_fn"

definition nodes_ok :: "sched \<Rightarrow> bool" where
  "nodes_ok s \<longleftrightarrow> lq_rep (queue s, memory s) (queued s) \<and> pushed s = popped s @ queued s \<and>
     mset (live s) = mset (queued s) + handed s \<and> distinct (live s) \<and>
     (\<forall>p \<in> set (live s). lq_usable (queue s, memory s) p \<and> job_ok (nodes s p))"

lemma lq_delete [simp]:
  "lq_rep (q, delete_node p m) xs = lq_rep (q, m) xs" "lq_usable (q, delete_node p m) = lq_usable (q, m)"
  by (simp_all add: lq_rep_def lq_usable_def fun_eq_iff)

lemma queued_live: "nodes_ok s \<Longrightarrow> p \<in> set (queued s) \<Longrightarrow> p \<in> set (live s)"
  by (metis Un_iff nodes_ok_def set_mset_mset set_mset_union)

lemma queued_distinct: "nodes_ok s \<Longrightarrow> distinct (queued s)"
  by (metis distinct_append mset_append nodes_ok_def ex_mset mset_eq_imp_distinct_iff)

lemma held_handed:
  assumes "i < length (workers s)" and "p \<in># held (workers s ! i)"
  shows "p \<in># handed s"
proof -
  have "held (workers s ! i) \<in> set (map held (workers s))" using assms(1) by simp
  then show ?thesis
    using assms(2) unfolding handed_def by (metis in_Union_mset_iff set_mset_mset sum_mset_sum_list)
qed

lemma held_live:
  assumes "nodes_ok s" and "i < length (workers s)" and "p \<in># held (workers s ! i)"
  shows "p \<in> set (live s)" and "p \<notin> set (queued s)"
proof -
  have m: "mset (live s) = mset (queued s) + handed s" and d: "distinct (live s)"
    using assms(1) by (simp_all add: nodes_ok_def)
  have h: "p \<in># handed s" using held_handed [OF assms(2,3)] .
  then have "p \<in># mset (live s)" unfolding m by simp
  then show "p \<in> set (live s)" by simp
  show "p \<notin> set (queued s)"
  proof
    assume "p \<in> set (queued s)"
    then have "1 \<le> count (mset (queued s)) p" "1 \<le> count (handed s) p"
      using h by (simp_all add: Suc_le_eq)
    then have "2 \<le> count (mset (live s)) p" unfolding m count_union by linarith
    then show False using d by (simp add: distinct_count_atmost_1 split: if_splits)
  qed
qed

lemma handed_set:
  "i < length (workers s) \<Longrightarrow>
     handed (s\<lparr>workers := (workers s)[i := pc]\<rparr>) + held (workers s ! i) = handed s + held pc"
  unfolding handed_def by (simp add: sum_list_update_add)

lemma nodes_ok_same_hands:
  assumes "nodes_ok s" and "handed s' = handed s" and "queue s' = queue s" and "memory s' = memory s"
    and "nodes s' = nodes s" and "live s' = live s" and "pushed s' = pushed s" and "popped s' = popped s"
  shows "nodes_ok s'"
  using assms by (simp add: nodes_ok_def queued_def)

lemma nodes_ok_set_worker:
  assumes "nodes_ok s" and "i < length (workers s)" and "held pc = held (workers s ! i)"
  shows "nodes_ok (set_worker i pc s)"
  by (rule nodes_ok_same_hands [OF assms(1)])
    (use handed_set [OF assms(2), of pc] assms(3) in \<open>simp_all add: set_worker_def\<close>)

lemma queue_push_ok:
  assumes "lq_rep (queue s, memory s) xs" and "lq_usable (queue s, memory s) p" and "p \<notin> set xs"
  shows "lq_rep (queue (queue_push p s), memory (queue_push p s)) (xs @ [p])"
    and "lq_usable (queue (queue_push p s), memory (queue_push p s)) = lq_usable (queue s, memory s)"
  using lq.push_rep [OF assms]
  by (cases "ll_push_back p (queue s, memory s)"; simp add: queue_push_def)+

lemma queue_pop_ok:
  assumes "lq_rep (queue s, memory s) (p # xs)" and "queue_pop s = (p', s')"
  shows "p' = p" and "lq_rep (queue s', memory s') xs"
    and "lq_usable (queue s', memory s') = lq_usable (queue s, memory s)"
    and "s' = s\<lparr>queue := queue s', memory := memory s', popped := popped s @ [p]\<rparr>"
  using lq.pop_rep [OF assms(1)] assms(2) by (auto simp: queue_pop_def split: prod.splits)

lemma queued_push: "pushed s = popped s @ queued s \<Longrightarrow> queued (queue_push p s) = queued s @ [p]"
proof -
  assume "pushed s = popped s @ queued s"
  then have "length (popped s) \<le> length (pushed s)" by (metis length_append le_add1)
  then show ?thesis by (simp add: queued_def queue_push_def split: prod.splits)
qed

lemma queue_push_fields [simp]:
  "nodes (queue_push p s) = nodes s" "live (queue_push p s) = live s"
  "workers (queue_push p s) = workers s" "callers (queue_push p s) = callers s"
  "stopper (queue_push p s) = stopper s" "completed_count (queue_push p s) = completed_count s"
  "popped (queue_push p s) = popped s" "pushed (queue_push p s) = pushed s @ [p]"
  "handed (queue_push p s) = handed s"
  by (simp_all add: queue_push_def handed_def split: prod.splits)

lemma job_ptr_new_ok: "job_ptr_new a fn = Inr j \<Longrightarrow> fn \<noteq> Null_fn \<Longrightarrow> job_ok j \<and> j_fn j = fn"
  by (auto simp: job_ptr_new_def job_ok_def split: if_splits)

lemma enqueue_nodes_ok:
  assumes ok: "nodes_ok s" and f: "fresh_node p s" and fn: "fn \<noteq> Null_fn"
    and st: "central_enqueue a fn p s = Inr s'"
  shows "nodes_ok s'" and "queued s' = queued s @ [p]" and "workers s' = workers s"
    and "callers s' = callers s" and "stopper s' = stopper s" and "completed_count s' = completed_count s"
    and "j_fn (nodes s' p) = fn" and "x \<in> set (live s) \<Longrightarrow> nodes s' x = nodes s x"
    and "pushed s' = pushed s @ [p]" and "popped s' = popped s"
proof -
  obtain j where j: "job_ptr_new a fn = Inr j"
    and s': "s' = queue_push p (s\<lparr>nodes := (nodes s)(p := j), live := p # live s\<rparr>)" (is "_ = queue_push p ?t")
    using st by (auto simp: central_enqueue_def new_job_def split: sum.splits)
  have rep: "lq_rep (queue s, memory s) (queued s)" and pq: "pushed s = popped s @ queued s"
    using ok by (simp_all add: nodes_ok_def)
  have us: "lq_usable (queue s, memory s) p" and nl: "p \<notin> set (live s)"
    using f by (simp_all add: fresh_node_def lq_usable_def)
  have nq: "p \<notin> set (queued s)" using queued_live [OF ok] nl by blast
  have qt: "queued ?t = queued s" by (simp add: queued_def)
  have t: "lq_rep (queue ?t, memory ?t) (queued s)" "lq_usable (queue ?t, memory ?t) p"
    "pushed ?t = popped ?t @ queued ?t" "queued ?t = queued s"
    unfolding qt using rep us pq by simp_all
  note push = queue_push_ok [OF t(1,2) nq]
  show q: "queued s' = queued s @ [p]" unfolding s' using queued_push [OF t(3)] t(4) by simp
  show "workers s' = workers s" "callers s' = callers s" "stopper s' = stopper s"
    "completed_count s' = completed_count s" "pushed s' = pushed s @ [p]" "popped s' = popped s"
    by (simp_all add: s')
  show "j_fn (nodes s' p) = fn" using job_ptr_new_ok [OF j fn] by (simp add: s')
  show "nodes s' x = nodes s x" if "x \<in> set (live s)" using that nl by (auto simp: s')
  have "handed s' = handed s" by (simp add: s' handed_def)
  moreover have "lq_rep (queue s', memory s') (queued s')" unfolding q using push(1) by (simp add: s')
  moreover have "lq_usable (queue s', memory s') = lq_usable (queue s, memory s)"
    using push(2) by (simp add: s')
  moreover have "live s' = p # live s" "nodes s' = (nodes s)(p := j)"
    "pushed s' = popped s' @ queued s'"
    by (simp_all add: s' q [unfolded s'] pq)
  moreover have "mset (live s) = mset (queued s) + handed s" "distinct (live s)"
    "\<forall>x \<in> set (live s). lq_usable (queue s, memory s) x \<and> job_ok (nodes s x)"
    using ok by (simp_all add: nodes_ok_def)
  ultimately show "nodes_ok s'"
    using us nl job_ptr_new_ok [OF j fn] by (simp add: nodes_ok_def q)
qed

lemma later_nodes_ok:
  assumes ok: "nodes_ok s" and i: "i < length (workers s)" and pc: "workers s ! i = W_later p"
  shows "nodes_ok (set_worker i W_notify (queue_push p s))"
    and "queued (set_worker i W_notify (queue_push p s)) = queued s @ [p]"
proof -
  have live: "p \<in> set (live s)" "p \<notin> set (queued s)" using held_live [OF ok i] pc by auto
  have rep: "lq_rep (queue s, memory s) (queued s)" and pq: "pushed s = popped s @ queued s"
    and us: "lq_usable (queue s, memory s) p"
    using ok live(1) by (simp_all add: nodes_ok_def)
  note push = queue_push_ok [OF rep us live(2)]
  have "handed (queue_push p s\<lparr>workers := (workers s)[i := W_notify]\<rparr>) + {#p#} = handed s"
    using handed_set [of i "queue_push p s" W_notify] i pc by simp
  then have h: "handed s = handed (set_worker i W_notify (queue_push p s)) + {#p#}"
    by (simp add: set_worker_def)
  show q: "queued (set_worker i W_notify (queue_push p s)) = queued s @ [p]"
    using queued_push [OF pq, of p] by (simp add: queued_def set_worker_def)
  show "nodes_ok (set_worker i W_notify (queue_push p s))"
    using ok push q h pq unfolding nodes_ok_def by (simp add: set_worker_def)
qed

lemma delete_nodes_ok:
  assumes ok: "nodes_ok s" and i: "i < length (workers s)" and pc: "workers s ! i = W_done p r"
    and pc': "held pc' = {#}"
  shows "nodes_ok (set_worker i pc' (delete_job p s))"
    and "queued (set_worker i pc' (delete_job p s)) = queued s"
proof -
  have live: "p \<in> set (live s)" using held_live [OF ok i] pc by auto
  have "handed (delete_job p s\<lparr>workers := (workers s)[i := pc']\<rparr>) + {#p#} = handed (delete_job p s)"
    using handed_set [of i "delete_job p s" pc'] i pc pc' by (simp add: delete_job_def)
  then have h: "handed s = handed (set_worker i pc' (delete_job p s)) + {#p#}"
    by (simp add: set_worker_def delete_job_def handed_def)
  show q: "queued (set_worker i pc' (delete_job p s)) = queued s"
    by (simp add: queued_def set_worker_def delete_job_def)
  have "mset (remove1 p (live s)) + {#p#} = mset (live s)" using live by simp
  then show "nodes_ok (set_worker i pc' (delete_job p s))"
    using ok q h set_remove1_subset [of p "live s"]
    unfolding nodes_ok_def by (auto simp: set_worker_def delete_job_def)
qed

lemma dequeue_nodes_ok:
  assumes ok: "nodes_ok s" and i: "i < length (workers s)" and pc: "workers s ! i = W_wait"
  shows "nodes_ok (dequeue i s)"
    and "queued s = [] \<Longrightarrow> dequeue i s = set_worker i W_blocked s"
    and "queued s = p # xs \<Longrightarrow> queued (dequeue i s) = xs \<and>
      dequeue i s = set_worker i (W_job p) (s\<lparr>queue := queue (dequeue i s), memory := memory (dequeue i s),
        popped := popped s @ [p]\<rparr>)"
proof -
  have rep: "lq_rep (queue s, memory s) (queued s)" and pq: "pushed s = popped s @ queued s"
    using ok by (simp_all add: nodes_ok_def)
  have e: "ll_empty (queue s) \<longleftrightarrow> queued s = []" using lq.empty_iff [OF rep] by simp
  show B: "dequeue i s = set_worker i W_blocked s" if "queued s = []"
    using e that by (simp add: dequeue_def)
  have P: "queued (dequeue i s) = xs \<and> nodes_ok (dequeue i s) \<and>
      dequeue i s = set_worker i (W_job p) (s\<lparr>queue := queue (dequeue i s), memory := memory (dequeue i s),
        popped := popped s @ [p]\<rparr>)"
    if q: "queued s = p # xs" for p xs
  proof -
    obtain p' s1 where s1: "queue_pop s = (p', s1)" by (metis surj_pair)
    note pop = queue_pop_ok [OF rep [unfolded q] s1]
    have d: "dequeue i s = set_worker i (W_job p) s1"
      using e q s1 pop(1) by (simp add: dequeue_def)
    have eq: "dequeue i s = set_worker i (W_job p) (s\<lparr>queue := queue (dequeue i s),
        memory := memory (dequeue i s), popped := popped s @ [p]\<rparr>)"
      unfolding d by (subst pop(4)) (simp add: set_worker_def)
    have f: "queue (dequeue i s) = queue s1" "memory (dequeue i s) = memory s1"
      by (simp_all add: d set_worker_def)
    have "pushed s = popped s @ p # xs" using pq unfolding q .
    then have q1: "queued (dequeue i s) = xs"
      unfolding d by (subst pop(4)) (simp add: queued_def set_worker_def)
    have "handed (set_worker i (W_job p) s) = handed s + {#p#}"
      using handed_set [OF i, of "W_job p"] pc by (simp add: set_worker_def)
    then have h: "handed (dequeue i s) = handed s + {#p#}"
      by (subst eq) (simp add: handed_def set_worker_def)
    have "live (dequeue i s) = live s" "nodes (dequeue i s) = nodes s"
      "pushed (dequeue i s) = pushed s" "popped (dequeue i s) = popped s @ [p]"
      by (subst eq, simp add: set_worker_def)+
    moreover have "mset (live s) = mset (queued s) + handed s" "distinct (live s)"
      "\<forall>x \<in> set (live s). lq_usable (queue s, memory s) x \<and> job_ok (nodes s x)"
      using ok by (simp_all add: nodes_ok_def)
    ultimately have "nodes_ok (dequeue i s)"
      using pop(2,3) pq unfolding nodes_ok_def q1 f h by (simp add: q)
    with q1 eq show ?thesis by blast
  qed
  show "nodes_ok (dequeue i s)"
  proof (cases "queued s")
    case Nil
    then show ?thesis unfolding B [OF Nil] by (intro nodes_ok_set_worker [OF ok i]) (simp add: pc)
  qed (use P in blast)
  show "queued s = p # xs \<Longrightarrow> queued (dequeue i s) = xs \<and>
      dequeue i s = set_worker i (W_job p) (s\<lparr>queue := queue (dequeue i s), memory := memory (dequeue i s),
        popped := popped s @ [p]\<rparr>)"
    using P by blast
qed

section \<open>The invariant\<close>

abbreviation is_helper :: "sched \<Rightarrow> nat \<Rightarrow> bool" where
  "is_helper s p \<equiv> j_fn (nodes s p) = Helper_fn"

text \<open>A worker's verdict is \<open>shutdown\<close> exactly for the helper, and nothing faults.\<close>

fun worker_ok :: "(nat \<Rightarrow> job_ptr) \<Rightarrow> worker_pc \<Rightarrow> bool" where
  "worker_ok nd (W_done p r) \<longleftrightarrow> (ri_result r = Shutdown \<longleftrightarrow> j_fn (nd p) = Helper_fn)"
| "worker_ok nd (W_later p) \<longleftrightarrow> j_fn (nd p) \<noteq> Helper_fn"
| "worker_ok nd W_fault \<longleftrightarrow> False"
| "worker_ok nd _ \<longleftrightarrow> True"

fun carries_helper :: "(nat \<Rightarrow> job_ptr) \<Rightarrow> worker_pc \<Rightarrow> bool" where
  "carries_helper nd (W_job p) \<longleftrightarrow> j_fn (nd p) = Helper_fn"
| "carries_helper nd _ \<longleftrightarrow> False"

fun leaving :: "worker_pc \<Rightarrow> bool" where
  "leaving W_stopped \<longleftrightarrow> True"
| "leaving (W_done p r) \<longleftrightarrow> ri_result r = Shutdown"
| "leaving _ \<longleftrightarrow> False"

fun will_look :: "worker_pc \<Rightarrow> bool" where
  "will_look W_wait \<longleftrightarrow> True"
| "will_look W_notify \<longleftrightarrow> True"
| "will_look _ \<longleftrightarrow> False"

definition in_flight :: "sched \<Rightarrow> nat" where
  "in_flight s = count_if (is_helper s) (queued s) + count_if (carries_helper (nodes s)) (workers s)"

text \<open>
  Whoever waits on the condition variable need not worry: as many notifications are under way, or
  threads about to look at the queue, as there are jobs in it.
\<close>

definition wake_ok :: "sched \<Rightarrow> bool" where
  "wake_ok s \<longleftrightarrow> W_blocked \<in> set (workers s) \<longrightarrow>
     length (queued s) \<le> callers s + count_if will_look (workers s) +
       (case stopper s of S_notify _ \<Rightarrow> 1 | _ \<Rightarrow> 0)"

text \<open>The helper is in flight or has reported once for every worker that is leaving.\<close>

definition stop_ok :: "sched \<Rightarrow> bool" where
  "stop_ok s \<longleftrightarrow>
     (let h = in_flight s; c = completed_count s; d = count_if leaving (workers s); n = length (workers s) in
      case stopper s of
        S_running \<Rightarrow> h = 0 \<and> c = 0 \<and> d = 0
      | S_send k \<Rightarrow> h = 0 \<and> c = 0 \<and> d + k = n
      | S_notify k \<Rightarrow> h + c = 1 \<and> d + k = n + c \<and> 0 < k
      | S_wait k \<Rightarrow> h + c = 1 \<and> d + k = n + c \<and> 0 < k
      | S_join \<Rightarrow> h = 0 \<and> c = 0 \<and> d = n
      | S_drain \<Rightarrow> h = 0 \<and> c = 0 \<and> d = n \<and> (\<forall>w \<in> set (workers s). w = W_stopped)
      | S_finished \<Rightarrow> h = 0 \<and> c = 0 \<and> d = n \<and> (\<forall>w \<in> set (workers s). w = W_stopped))"

definition sched_inv :: "sched \<Rightarrow> bool" where
  "sched_inv s \<longleftrightarrow> nodes_ok s \<and> (\<forall>w \<in> set (workers s). worker_ok (nodes s) w) \<and> wake_ok s \<and> stop_ok s"

lemma worker_ok_cong: "(\<And>p. p \<in># held w \<Longrightarrow> nd' p = nd p) \<Longrightarrow> worker_ok nd' w = worker_ok nd w"
  by (cases w) auto

lemma carries_helper_cong:
  "(\<And>p. p \<in># held w \<Longrightarrow> nd' p = nd p) \<Longrightarrow> carries_helper nd' w = carries_helper nd w"
  by (cases w) auto

lemma count_if_cong: "(\<And>x. x \<in> set xs \<Longrightarrow> P x = Q x) \<Longrightarrow> count_if P xs = count_if Q xs"
  by (induction xs) auto

lemma notify_one_fields [simp]:
  "queue (notify_one k s) = queue s" "memory (notify_one k s) = memory s"
  "nodes (notify_one k s) = nodes s" "live (notify_one k s) = live s"
  "callers (notify_one k s) = callers s" "stopper (notify_one k s) = stopper s"
  "completed_count (notify_one k s) = completed_count s" "pushed (notify_one k s) = pushed s"
  "popped (notify_one k s) = popped s" "length (workers (notify_one k s)) = length (workers s)"
  "queued (notify_one k s) = queued s"
  by (simp_all add: notify_one_def queued_def)

lemma notify_one_hands [simp]: "handed (notify_one k s) = handed s"
  using handed_set [of k s W_wait] by (auto simp: notify_one_def)

lemma notify_one_pool:
  "count_if (carries_helper nd) (workers (notify_one k s)) = count_if (carries_helper nd) (workers s)"
  "count_if leaving (workers (notify_one k s)) = count_if leaving (workers s)"
  "(\<forall>w \<in> set (workers s). worker_ok nd w) \<Longrightarrow> (\<forall>w \<in> set (workers (notify_one k s)). worker_ok nd w)"
  by (auto simp: notify_one_def count_if_update_eq dest!: set_update_subset_insert [THEN subsetD])

lemma notify_one_look:
  assumes "may_wake k s" and "W_blocked \<in> set (workers (notify_one k s))"
  shows "count_if will_look (workers (notify_one k s)) = Suc (count_if will_look (workers s))"
    and "W_blocked \<in> set (workers s)"
proof -
  show "W_blocked \<in> set (workers s)"
    using assms(2) by (auto simp: notify_one_def dest!: set_update_subset_insert [THEN subsetD] split: if_splits)
  with assms(1) show "count_if will_look (workers (notify_one k s)) = Suc (count_if will_look (workers s))"
    by (simp add: may_wake_def notify_one_def count_if_update_eq)
qed

lemma notify_one_stopped:
  "(\<forall>w \<in> set (workers s). w = W_stopped) \<Longrightarrow> notify_one k s = s"
  using nth_mem by (fastforce simp: notify_one_def)

lemma enqueue_inv:
  assumes inv: "sched_inv s" and f: "fresh_node p s" and fn: "fn \<noteq> Null_fn"
    and st: "central_enqueue a fn p s = Inr s'"
  shows "in_flight s' = in_flight s + of_bool (fn = Helper_fn)"
    and "\<forall>w \<in> set (workers s'). worker_ok (nodes s') w"
proof -
  have ok: "nodes_ok s" using inv by (simp add: sched_inv_def)
  note e = enqueue_nodes_ok [OF ok f fn st]
  have same: "nodes s' x = nodes s x" if "x \<in> set (live s)" for x using e(8) [OF that] .
  have q: "count_if (is_helper s') (queued s) = count_if (is_helper s) (queued s)"
    by (rule count_if_cong) (simp add: same queued_live [OF ok])
  have w: "nodes s' x = nodes s x" if "w \<in> set (workers s)" "x \<in># held w" for w x
    using that held_live(1) [OF ok] same by (metis in_set_conv_nth)
  have c: "count_if (carries_helper (nodes s')) (workers s) = count_if (carries_helper (nodes s)) (workers s)"
    by (intro count_if_cong carries_helper_cong w)
  show "in_flight s' = in_flight s + of_bool (fn = Helper_fn)"
    by (simp add: in_flight_def e(2,3,7) q c)
  show "\<forall>w \<in> set (workers s'). worker_ok (nodes s') w"
    using inv worker_ok_cong [OF w] unfolding e(3) by (simp add: sched_inv_def)
qed

lemma submit_inv:
  assumes inv: "sched_inv s" and f: "fresh_node p s" and st: "central_enqueue a Actor_fn p s = Inr s'"
  shows "sched_inv (s'\<lparr>callers := callers s' + 1\<rparr>)"
proof -
  have ok: "nodes_ok s" and wk: "wake_ok s" and sp: "stop_ok s" using inv by (simp_all add: sched_inv_def)
  let ?s = "s'\<lparr>callers := callers s' + 1\<rparr>"
  note e = enqueue_nodes_ok [OF ok f _ st, simplified] and i = enqueue_inv [OF inv f _ st, simplified]
  have q: "queued ?s = queued s @ [p]" using e(2) by simp
  have "nodes_ok ?s" by (rule nodes_ok_same_hands [OF e(1)]) (simp_all add: handed_def)
  moreover have "wake_ok ?s" using wk e(2) by (simp add: wake_ok_def e)
  moreover have "in_flight ?s = in_flight s" using i(1) by (simp add: in_flight_def queued_def)
  then have "stop_ok ?s" using sp by (simp add: stop_ok_def Let_def e split: stop_pc.splits)
  ultimately show ?thesis using i(2) by (simp add: sched_inv_def)
qed

lemma notify_nodes_ok: "nodes_ok s \<Longrightarrow> nodes_ok (notify_one k s)"
  by (rule nodes_ok_same_hands) simp_all

lemma notify_inv:
  assumes inv: "sched_inv s" and c: "callers s > 0" and k: "may_wake k s"
  shows "sched_inv ((notify_one k s)\<lparr>callers := callers s - 1\<rparr>)"
proof -
  have ok: "nodes_ok s" and wk: "wake_ok s" and sp: "stop_ok s"
    and w: "\<forall>w \<in> set (workers s). worker_ok (nodes s) w"
    using inv by (simp_all add: sched_inv_def)
  let ?s = "(notify_one k s)\<lparr>callers := callers s - 1\<rparr>"
  have q: "queued ?s = queued s" by (simp add: queued_def)
  have "nodes_ok ?s"
    by (rule nodes_ok_same_hands [OF notify_nodes_ok [OF ok, of k]]) (simp_all add: handed_def)
  moreover have "wake_ok ?s"
    using wk c notify_one_look [OF k] by (auto simp: wake_ok_def)
  moreover have "in_flight ?s = in_flight s"
    using notify_one_pool(1) by (simp add: in_flight_def q)
  then have "stop_ok ?s"
    using sp notify_one_stopped [of s k] by (simp add: stop_ok_def Let_def notify_one_pool split: stop_pc.splits)
  ultimately show ?thesis using notify_one_pool(3) [OF w, of k] by (simp add: sched_inv_def)
qed

text \<open>
  What a worker's move must satisfy: the helper is passed on or reports, a verdict of
  \<open>shutdown\<close> comes with the report, and a job added to the queue has a thread that will look.
\<close>

lemma pool_inv:
  assumes inv: "sched_inv s" and i: "i < length (workers s)" and ok': "nodes_ok s'"
    and f: "workers s' = (workers s)[i := pc]" "nodes s' = nodes s" "callers s' = callers s" "stopper s' = stopper s"
    and ns: "workers s ! i \<noteq> W_stopped" and w: "worker_ok (nodes s) pc"
    and h: "in_flight s' + completed_count s' = in_flight s + completed_count s"
    and c: "completed_count s' + of_bool (leaving (workers s ! i)) = completed_count s + of_bool (leaving pc)"
    and cc: "completed_count s \<le> completed_count s'"
    and look: "queued s' = [] \<or> pc \<noteq> W_blocked \<and>
      length (queued s') + of_bool (will_look (workers s ! i)) \<le> length (queued s) + of_bool (will_look pc)"
  shows "sched_inv s'"
proof -
  have wk: "wake_ok s" and sp: "stop_ok s" and ws: "\<forall>w \<in> set (workers s). worker_ok (nodes s) w"
    using inv by (simp_all add: sched_inv_def)
  have "workers s ! i \<in> set (workers s)" using i by simp
  then have nall: "\<not> (\<forall>w \<in> set (workers s). w = W_stopped)" using ns by blast
  have d: "count_if leaving (workers s') + completed_count s = count_if leaving (workers s) + completed_count s'"
    using count_if_update [OF i, of leaving pc] c by (auto simp: f split: if_splits)
  have len: "length (workers s') = length (workers s)" by (simp add: f)
  have "stop_ok s'"
    using sp nall h c cc d len unfolding stop_ok_def Let_def f(4)
    by (cases "stopper s") auto
  moreover have "wake_ok s'"
  proof (cases "queued s' = []")
    case False
    with look have l: "pc \<noteq> W_blocked"
      "length (queued s') + of_bool (will_look (workers s ! i)) \<le> length (queued s) + of_bool (will_look pc)"
      by simp_all
    have "W_blocked \<in> set (workers s') \<Longrightarrow> W_blocked \<in> set (workers s)"
      using l(1) set_update_subset_insert [of "workers s" i pc] by (auto simp: f)
    moreover have "length (queued s') + count_if will_look (workers s) \<le> length (queued s) + count_if will_look (workers s')"
      using l(2) count_if_update [OF i, of will_look pc] by (auto simp: f split: if_splits)
    ultimately show ?thesis using wk by (auto simp: wake_ok_def f(3,4))
  qed (simp add: wake_ok_def)
  moreover have "\<forall>v \<in> set (workers s'). worker_ok (nodes s') v"
    using ws w set_update_subset_insert [of "workers s" i pc] by (auto simp: f(1,2))
  ultimately show ?thesis using ok' by (simp add: sched_inv_def)
qed

lemma in_flight_move:
  assumes "i < length (workers s)" and "workers s' = (workers s)[i := pc]" and "nodes s' = nodes s"
  shows "in_flight s' + count_if (is_helper s) (queued s) + of_bool (carries_helper (nodes s) (workers s ! i))
    = in_flight s + count_if (is_helper s) (queued s') + of_bool (carries_helper (nodes s) pc)"
  using count_if_update [OF assms(1), of "carries_helper (nodes s)" pc]
  by (simp add: in_flight_def assms(2,3) split: if_splits)

lemma set_worker_fields [simp]:
  "nodes (set_worker i pc s) = nodes s" "callers (set_worker i pc s) = callers s"
  "stopper (set_worker i pc s) = stopper s" "completed_count (set_worker i pc s) = completed_count s"
  "workers (set_worker i pc s) = (workers s)[i := pc]" "queued (set_worker i pc s) = queued s"
  by (simp_all add: set_worker_def)

lemma set_worker_inv:
  assumes inv: "sched_inv s" and i: "i < length (workers s)" and h: "held pc = held (workers s ! i)"
    and w: "worker_ok (nodes s) pc" and c: "carries_helper (nodes s) pc = carries_helper (nodes s) (workers s ! i)"
    and l: "leaving pc = leaving (workers s ! i)" and ns: "workers s ! i \<noteq> W_stopped"
    and look: "queued s = [] \<or> pc \<noteq> W_blocked \<and> (will_look (workers s ! i) \<longrightarrow> will_look pc)"
  shows "sched_inv (set_worker i pc s)"
proof (rule pool_inv [OF inv i _ _ _ _ _ ns w])
  show "nodes_ok (set_worker i pc s)"
    using inv by (intro nodes_ok_set_worker [OF _ i h]) (simp add: sched_inv_def)
  show "in_flight (set_worker i pc s) + completed_count (set_worker i pc s) = in_flight s + completed_count s"
    using in_flight_move [OF i, of "set_worker i pc s" pc] c by simp
qed (use l look in auto)

lemma wait_inv:
  assumes inv: "sched_inv s" and i: "i < length (workers s)" and pc: "workers s ! i = W_wait"
  shows "sched_inv (dequeue i s)"
proof -
  have ok: "nodes_ok s" using inv by (simp add: sched_inv_def)
  note d = dequeue_nodes_ok [OF ok i pc]
  show ?thesis
  proof (cases "queued s")
    case Nil
    then show ?thesis unfolding d(2) [OF Nil] by (intro set_worker_inv [OF inv i]) (simp_all add: pc)
  next
    case (Cons p xs)
    note D = d(3) [OF Cons]
    let ?s = "dequeue i s"
    have f: "workers ?s = (workers s)[i := W_job p]" "nodes ?s = nodes s" "callers ?s = callers s"
      "stopper ?s = stopper s" "completed_count ?s = completed_count s"
      by (subst conjunct2 [OF D], simp)+
    have "in_flight ?s = in_flight s"
      using in_flight_move [OF i f(1,2)] by (simp add: conjunct1 [OF D] pc Cons split: if_splits)
    then show ?thesis
      by (intro pool_inv [OF inv i d(1) f(1-4)]) (simp_all add: pc f(5) conjunct1 [OF D] Cons)
  qed
qed

lemma resume_inv:
  assumes inv: "sched_inv s" and i: "i < length (workers s)" and pc: "workers s ! i = W_job p"
    and v: "ri_result verdict \<noteq> Shutdown"
  shows "sched_inv (worker_resume verdict i p s)"
proof -
  have ok: "nodes_ok s" using inv by (simp add: sched_inv_def)
  have live: "p \<in> set (live s)" using held_live(1) [OF ok i] pc by simp
  then have p0: "p \<noteq> 0" and j: "j_ptr (nodes s p) \<noteq> 0" "j_fn (nodes s p) \<noteq> Null_fn"
    using ok by (auto simp: nodes_ok_def lq_usable_def job_ok_def)
  show ?thesis
  proof (cases "j_fn (nodes s p)")
    case Actor_fn
    then show ?thesis
      using set_worker_inv [OF inv i, of "W_done p verdict"] p0 j v
      by (simp add: worker_resume_def job_resume_def pc)
  next
    case Helper_fn
    let ?s = "set_worker i (W_done p \<lparr>ri_result = Shutdown, ri_messages = 0\<rparr>)
      (s\<lparr>completed_count := completed_count s + 1\<rparr>)"
    have eq: "worker_resume verdict i p s = ?s"
      using Helper_fn p0 j by (simp add: worker_resume_def job_resume_def)
    have "in_flight ?s + 1 = in_flight s"
      using in_flight_move [OF i, of ?s] Helper_fn by (simp add: pc)
    moreover have "nodes_ok ?s"
      by (rule nodes_ok_same_hands [OF nodes_ok_set_worker [OF ok i, of "W_done p \<lparr>ri_result = Shutdown, ri_messages = 0\<rparr>"]])
        (simp_all add: pc set_worker_def handed_def)
    ultimately show ?thesis
      unfolding eq
      by (intro pool_inv [OF inv i, where pc = "W_done p \<lparr>ri_result = Shutdown, ri_messages = 0\<rparr>"])
        (simp_all add: pc Helper_fn)
  qed (use j in simp)
qed

lemma delete_job_fields [simp]:
  "nodes (delete_job p s) = nodes s" "callers (delete_job p s) = callers s"
  "stopper (delete_job p s) = stopper s" "completed_count (delete_job p s) = completed_count s"
  "workers (delete_job p s) = workers s" "queued (delete_job p s) = queued s"
  "pushed (delete_job p s) = pushed s" "popped (delete_job p s) = popped s"
  by (simp_all add: delete_job_def queued_def)

lemma drop_job_inv:
  assumes inv: "sched_inv s" and i: "i < length (workers s)" and pc: "workers s ! i = W_done p r"
    and pc': "pc' = (if ri_result r = Shutdown then W_stopped else W_wait)"
  shows "sched_inv (set_worker i pc' (delete_job p s))"
proof -
  have ok: "nodes_ok s" using inv by (simp add: sched_inv_def)
  have h: "held pc' = {#}" by (simp add: pc')
  note d = delete_nodes_ok [OF ok i pc h]
  have "in_flight (set_worker i pc' (delete_job p s)) = in_flight s"
    using in_flight_move [OF i, of "set_worker i pc' (delete_job p s)" pc'] by (simp add: pc pc')
  then show ?thesis
    by (intro pool_inv [OF inv i d(1), where pc = pc']) (simp_all add: pc pc')
qed

lemma switch_inv:
  assumes inv: "sched_inv s" and i: "i < length (workers s)" and pc: "workers s ! i = W_done p r"
  shows "sched_inv (worker_switch i p r s)"
proof (cases "ri_result r")
  case Resume
  have "W_done p r \<in> set (workers s)" using i pc by (metis nth_mem)
  then have "worker_ok (nodes s) (W_done p r)" using inv by (auto simp: sched_inv_def)
  with Resume show ?thesis
    unfolding worker_switch_def by (simp, intro set_worker_inv [OF inv i]) (simp_all add: pc)
qed (use drop_job_inv [OF inv i pc] in \<open>simp_all add: worker_switch_def\<close>)

lemma later_inv:
  assumes inv: "sched_inv s" and i: "i < length (workers s)" and pc: "workers s ! i = W_later p"
  shows "sched_inv (set_worker i W_notify (queue_push p s))"
proof -
  let ?s = "set_worker i W_notify (queue_push p s)"
  have ok: "nodes_ok s" using inv by (simp add: sched_inv_def)
  note l = later_nodes_ok [OF ok i pc]
  have "W_later p \<in> set (workers s)" using i pc by (metis nth_mem)
  then have "worker_ok (nodes s) (W_later p)" using inv by (auto simp: sched_inv_def)
  then have "in_flight ?s = in_flight s"
    using in_flight_move [OF i, of ?s W_notify] l(2) by (simp add: pc)
  then show ?thesis
    using l by (intro pool_inv [OF inv i, where pc = W_notify]) (simp_all add: pc)
qed

lemma worker_notify_inv:
  assumes inv: "sched_inv s" and i: "i < length (workers s)" and pc: "workers s ! i = W_notify"
    and k: "may_wake k s"
  shows "sched_inv (set_worker i W_wait (notify_one k s))"
proof -
  have c: "sched_inv ((notify_one k (s\<lparr>callers := callers s + 1\<rparr>))\<lparr>callers := callers s\<rparr>)"
  proof -
    have "nodes_ok (s\<lparr>callers := callers s + 1\<rparr>)"
      by (rule nodes_ok_same_hands [of s]) (use inv in \<open>simp_all add: sched_inv_def handed_def\<close>)
    moreover have "stop_ok (s\<lparr>callers := callers s + 1\<rparr>) = stop_ok s"
      by (cases "stopper s") (simp_all add: stop_ok_def Let_def in_flight_def)
    moreover have "wake_ok s \<Longrightarrow> wake_ok (s\<lparr>callers := callers s + 1\<rparr>)"
      by (auto simp: wake_ok_def)
    ultimately have "sched_inv (s\<lparr>callers := callers s + 1\<rparr>)"
      using inv by (simp add: sched_inv_def)
    from notify_inv [OF this, of k] k show ?thesis by (simp add: may_wake_def)
  qed
  moreover have "(notify_one k (s\<lparr>callers := callers s + 1\<rparr>))\<lparr>callers := callers s\<rparr> = notify_one k s"
    by (simp add: notify_one_def)
  ultimately have n: "sched_inv (notify_one k s)" by simp
  have "workers (notify_one k s) ! i = W_notify"
    using pc by (cases "k = i") (simp_all add: notify_one_def)
  then show ?thesis using i by (intro set_worker_inv [OF n]) simp_all
qed

lemma worker_step_inv:
  assumes inv: "sched_inv s" and i: "i < length (workers s)" and k: "may_wake k s"
    and v: "ri_result verdict \<noteq> Shutdown"
  shows "sched_inv (worker_step verdict k i (workers s ! i) s)"
  using wait_inv [OF inv i] resume_inv [OF inv i _ v] switch_inv [OF inv i] later_inv [OF inv i]
    worker_notify_inv [OF inv i _ k] inv
  by (cases "workers s ! i") simp_all

text \<open>Draining: every node still queued is popped and freed, in order.\<close>

declare drain_jobs.simps [simp del]

lemma drain_nodes_ok:
  assumes "nodes_ok s" and "handed s = {#}" and "queued s = xs"
  shows "nodes_ok (drain_jobs s) \<and> queued (drain_jobs s) = [] \<and> live (drain_jobs s) = [] \<and>
    freed (memory (drain_jobs s)) = freed (memory s) @ xs \<and>
    popped (drain_jobs s) = pushed s \<and> pushed (drain_jobs s) = pushed s \<and>
    workers (drain_jobs s) = workers s \<and> nodes (drain_jobs s) = nodes s \<and>
    completed_count (drain_jobs s) = completed_count s"
  using assms
proof (induction xs arbitrary: s)
  case Nil
  have rep: "lq_rep (queue s, memory s) (queued s)" and pq: "pushed s = popped s @ queued s"
    and m: "mset (live s) = mset (queued s) + handed s"
    using Nil.prems(1) by (simp_all add: nodes_ok_def)
  have "drain_jobs s = s"
    using lq.empty_iff [OF rep] Nil.prems(3) by (subst drain_jobs.simps) simp
  moreover have "live s = []" "popped s = pushed s" using m pq Nil.prems by simp_all
  ultimately show ?case using Nil.prems by simp
next
  case (Cons p xs)
  note ok = Cons.prems(1) and h = Cons.prems(2) and q = Cons.prems(3)
  have rep: "lq_rep (queue s, memory s) (p # xs)" and pq: "pushed s = popped s @ p # xs"
    and m: "mset (live s) = mset (p # xs)" and d: "distinct (live s)"
    and live: "\<forall>x \<in> set (live s). lq_usable (queue s, memory s) x \<and> job_ok (nodes s x)"
    using ok h unfolding nodes_ok_def q by simp_all
  obtain p' s1 where s1: "queue_pop s = (p', s1)" by (metis surj_pair)
  note pop = queue_pop_ok [OF rep s1]
  have fr: "freed (memory s1) = freed (memory s)"
    using s1 ll_pop_front_rep [of "queue s" "memory s" "p # xs"] rep
    by (auto simp: queue_pop_def lq_rep_def split: prod.splits)
  let ?s = "delete_job p s1"
  have "p \<in># mset (live s)" unfolding m by simp
  then have pl: "p \<in> set (live s)" by simp
  have f: "nodes s1 = nodes s" "live s1 = live s" "workers s1 = workers s" "pushed s1 = pushed s"
    "popped s1 = popped s @ [p]"
    by (subst pop(4), simp)+
  have q1: "queued ?s = xs" by (simp add: queued_def f pq)
  have h1: "handed ?s = {#}" using h by (simp add: handed_def f)
  have m1: "mset (remove1 p (live s)) = mset xs" using m by simp
  have rep1: "lq_rep (queue ?s, memory ?s) xs"
    and us1: "lq_usable (queue ?s, memory ?s) = lq_usable (queue s, memory s)"
    using pop(2,3) by (simp_all add: delete_job_def)
  have l1: "live ?s = remove1 p (live s)" by (simp add: delete_job_def f)
  have "nodes_ok ?s"
    unfolding nodes_ok_def q1 h1 us1 l1 using rep1 m1 d live pq
    by (auto simp: f dest: notin_set_remove1 [THEN contrapos_nn] set_remove1_subset [THEN subsetD])
  note IH = Cons.IH [OF this h1 q1]
  have step: "drain_jobs s = drain_jobs ?s"
    using lq.empty_iff [OF rep] bspec [OF live pl] s1 pop(1)
    by (subst drain_jobs.simps) (simp add: f job_ok_def)
  have "completed_count s1 = completed_count s" by (subst pop(4)) simp
  then show ?case
    using IH unfolding step by (simp add: delete_job_def fr f)
qed

lemma in_flight_update [simp]:
  "in_flight (s\<lparr>stopper := t\<rparr>) = in_flight s" "in_flight (s\<lparr>completed_count := c\<rparr>) = in_flight s"
  by (simp_all add: in_flight_def)

lemma handed_update [simp]:
  "handed (s\<lparr>stopper := t\<rparr>) = handed s" "handed (s\<lparr>completed_count := c\<rparr>) = handed s"
  by (simp_all add: handed_def)

lemma stopper_inv:
  assumes "nodes_ok s" and "\<forall>w \<in> set (workers s). worker_ok (nodes s) w"
    and "wake_ok (s\<lparr>stopper := t\<rparr>)" and "stop_ok (s\<lparr>stopper := t\<rparr>)"
  shows "sched_inv (s\<lparr>stopper := t\<rparr>)"
proof -
  have "nodes_ok (s\<lparr>stopper := t\<rparr>)" by (rule nodes_ok_same_hands [OF assms(1)]) simp_all
  then show ?thesis using assms(2-4) by (simp add: sched_inv_def)
qed

lemma stop_send_inv:
  assumes inv: "sched_inv s" and st: "stopper s = S_send (Suc n)" and f: "fresh_node p s"
    and e: "central_enqueue sh Helper_fn p s = Inr s'"
  shows "sched_inv (s'\<lparr>stopper := S_notify (Suc n)\<rparr>)"
proof (rule stopper_inv)
  have ok: "nodes_ok s" and wk: "wake_ok s" and sp: "stop_ok s" using inv by (simp_all add: sched_inv_def)
  note en = enqueue_nodes_ok [OF ok f _ e, simplified] and i = enqueue_inv [OF inv f _ e, simplified]
  show "nodes_ok s'" by (rule en(1))
  show "\<forall>w \<in> set (workers s'). worker_ok (nodes s') w" by (rule i(2))
  show "wake_ok (s'\<lparr>stopper := S_notify (Suc n)\<rparr>)" using wk st by (simp add: wake_ok_def en)
  show "stop_ok (s'\<lparr>stopper := S_notify (Suc n)\<rparr>)" using sp st i(1) by (simp add: stop_ok_def Let_def en)
qed

lemma stop_notify_inv:
  assumes inv: "sched_inv s" and st: "stopper s = S_notify n" and k: "may_wake k s"
  shows "sched_inv ((notify_one k s)\<lparr>stopper := S_wait n\<rparr>)"
proof (rule stopper_inv)
  have ok: "nodes_ok s" and wk: "wake_ok s" and sp: "stop_ok s"
    and w: "\<forall>w \<in> set (workers s). worker_ok (nodes s) w"
    using inv by (simp_all add: sched_inv_def)
  show "nodes_ok (notify_one k s)" by (rule notify_nodes_ok [OF ok])
  show "\<forall>w \<in> set (workers (notify_one k s)). worker_ok (nodes (notify_one k s)) w"
    using notify_one_pool(3) [OF w] by simp
  show "wake_ok ((notify_one k s)\<lparr>stopper := S_wait n\<rparr>)"
    using wk st notify_one_look [OF k] by (auto simp: wake_ok_def)
  show "stop_ok ((notify_one k s)\<lparr>stopper := S_wait n\<rparr>)"
    using sp st by (simp add: stop_ok_def Let_def notify_one_pool in_flight_def)
qed

lemma held_none: "\<forall>w \<in> set ws. held w = {#} \<Longrightarrow> sum_list (map held ws) = {#}"
  by (induction ws) simp_all

lemma drain_hands_empty:
  assumes "sched_inv s" and "stopper s = S_drain"
  shows "handed s = {#}"
proof -
  have "\<forall>w \<in> set (workers s). w = W_stopped"
    using assms by (simp add: sched_inv_def stop_ok_def Let_def)
  then show ?thesis unfolding handed_def by (intro held_none ballI) (metis held.simps(7))
qed

lemma drain_inv:
  assumes inv: "sched_inv s" and st: "stopper s = S_drain"
  shows "sched_inv ((drain_jobs s)\<lparr>stopper := S_finished\<rparr>)"
proof (rule stopper_inv)
  have ok: "nodes_ok s" and sp: "stop_ok s" and w: "\<forall>w \<in> set (workers s). worker_ok (nodes s) w"
    using inv by (simp_all add: sched_inv_def)
  have all: "\<forall>w \<in> set (workers s). w = W_stopped" and d: "count_if leaving (workers s) = length (workers s)"
    "completed_count s = 0"
    using sp st by (simp_all add: stop_ok_def Let_def)
  have "handed s = {#}" by (rule drain_hands_empty [OF inv st])
  note D = drain_nodes_ok [OF ok this refl]
  show "nodes_ok (drain_jobs s)" using D by simp
  show "\<forall>w \<in> set (workers (drain_jobs s)). worker_ok (nodes (drain_jobs s)) w" using D w by simp
  show "wake_ok ((drain_jobs s)\<lparr>stopper := S_finished\<rparr>)" using D by (simp add: wake_ok_def)
  have "count_if (carries_helper (nodes s)) (workers s) = 0" using all by (auto simp: count_if_0_iff)
  then show "stop_ok ((drain_jobs s)\<lparr>stopper := S_finished\<rparr>)"
    using D all d by (simp add: stop_ok_def Let_def in_flight_def)
qed

lemma stop_step_inv:
  assumes inv: "sched_inv s" and f: "fresh_node p s" and k: "may_wake k s"
  shows "sched_inv (stop_step sh p k (stopper s) s)"
proof -
  have ok: "nodes_ok s" and wk: "wake_ok s" and sp: "stop_ok s"
    and w: "\<forall>w \<in> set (workers s). worker_ok (nodes s) w"
    using inv by (simp_all add: sched_inv_def)
  show ?thesis
  proof (cases "stopper s")
    case S_running
    then show ?thesis using wk sp
      by simp (rule stopper_inv [OF ok w]; auto simp: wake_ok_def stop_ok_def Let_def)
  next
    case (S_send n)
    then show ?thesis
    proof (cases n)
      case 0
      with S_send show ?thesis using wk sp
        by simp (rule stopper_inv [OF ok w]; auto simp: wake_ok_def stop_ok_def Let_def)
    next
      case (Suc m)
      with S_send show ?thesis
        using stop_send_inv [OF inv _ f, of m sh] inv by (simp split: sum.splits)
    qed
  next
    case (S_notify n)
    then show ?thesis using stop_notify_inv [OF inv S_notify k] by simp
  next
    case (S_wait n)
    have "nodes_ok (s\<lparr>completed_count := 0\<rparr>)" by (rule nodes_ok_same_hands [OF ok]) simp_all
    then have "sched_inv ((s\<lparr>completed_count := 0\<rparr>)\<lparr>stopper := S_send (n - 1)\<rparr>)" if "completed_count s > 0"
      using wk sp w S_wait that
      by (intro stopper_inv) (auto simp: wake_ok_def stop_ok_def Let_def)
    moreover have "completed_count s > 0 \<Longrightarrow> completed_count s - 1 = 0"
      using sp S_wait by (simp add: stop_ok_def Let_def)
    ultimately show ?thesis using S_wait inv by simp
  next
    case S_join
    then show ?thesis using wk sp inv
      by (simp, intro impI, intro stopper_inv [OF ok w]) (auto simp: wake_ok_def stop_ok_def Let_def)
  next
    case S_drain
    then show ?thesis using drain_inv [OF inv S_drain] by simp
  qed (use inv in simp)
qed

lemma sched_step_inv: "sched_step sh s s' \<Longrightarrow> sched_inv s \<Longrightarrow> sched_inv s'"
proof (induction rule: sched_step.induct)
  case (submit p s a s')
  then show ?case by (intro submit_inv)
next
  case (wake i s)
  then show ?case by (intro set_worker_inv) simp_all
next
  case (work i s pc k verdict)
  then show ?case using worker_step_inv by blast
next
  case (stop s pc p k)
  then show ?case using stop_step_inv by blast
qed (rule notify_inv)

lemma sched_start_inv:
  assumes "h \<noteq> t"
  shows "sched_inv (sched_start num (sched_new h t m))"
proof -
  obtain q m' where new: "ll_new h t m = (q, m')" by (metis surj_pair)
  have "lq_rep (q, m') []" using ll_new_rep(1) [OF assms new] by (simp add: lq_rep_def)
  moreover have "sum_list (map held (replicate num W_wait)) = {#}" by (induction num) simp_all
  ultimately show ?thesis
    by (simp add: sched_inv_def sched_start_def sched_new_def new nodes_ok_def queued_def handed_def
        wake_ok_def stop_ok_def in_flight_def)
qed

lemma sched_reachable_inv:
  assumes "sched_reachable sh num (sched_new h t m) s" and "h \<noteq> t"
  shows "sched_inv s"
  using assms by (induction rule: sched_reachable.induct) (simp_all add: sched_start_inv sched_step_inv)

lemma leaving_cases: "leaving w \<Longrightarrow> w = W_stopped \<or> (\<exists>p r. w = W_done p r)"
  by (cases w) auto

text \<open>Who can move: a caller that owes a notification, a worker that is not blocked, or \<open>stop\<close>.\<close>

definition movable :: "worker_pc \<Rightarrow> bool" where
  "movable w \<longleftrightarrow> w \<noteq> W_blocked \<and> w \<noteq> W_stopped \<and> w \<noteq> W_fault"

definition stop_can_move :: "sched \<Rightarrow> bool" where
  "stop_can_move s \<longleftrightarrow>
     (case stopper s of
        S_wait _ \<Rightarrow> 0 < completed_count s
      | S_join \<Rightarrow> \<forall>w \<in> set (workers s). w = W_stopped
      | S_finished \<Rightarrow> False
      | _ \<Rightarrow> True)"

lemma stop_progress:
  assumes inv: "sched_inv s" and st: "stopper s \<noteq> S_finished"
  shows "0 < callers s \<or> (\<exists>w \<in> set (workers s). movable w) \<or> stop_can_move s"
proof (rule ccontr)
  assume no: "\<not> ?thesis"
  have wk: "wake_ok s" and sp: "stop_ok s" and ok: "\<forall>w \<in> set (workers s). worker_ok (nodes s) w"
    using inv by (simp_all add: sched_inv_def)
  have stuck: "w = W_blocked \<or> w = W_stopped" if "w \<in> set (workers s)" for w
    using no ok that by (cases w) (auto simp: movable_def)
  have "\<not> carries_helper (nodes s) w" "\<not> will_look w" if "w \<in> set (workers s)" for w
    using stuck [OF that] by auto
  then have z: "count_if (carries_helper (nodes s)) (workers s) = 0" "count_if will_look (workers s) = 0"
    by (auto simp: count_if_0_iff)
  from no st consider k where "stopper s = S_wait k" "completed_count s = 0"
    | w where "stopper s = S_join" "w \<in> set (workers s)" "w \<noteq> W_stopped"
    by (auto simp: stop_can_move_def split: stop_pc.splits)
  then show False
  proof cases
    case (1 k)
    then have h: "in_flight s = 1" "count_if leaving (workers s) + k = length (workers s)" "0 < k"
      using sp by (simp_all add: stop_ok_def Let_def)
    then have q: "queued s \<noteq> []" using z(1) by (auto simp: in_flight_def)
    have "\<exists>w \<in> set (workers s). \<not> leaving w"
    proof (rule ccontr)
      assume "\<not> ?thesis"
      then have "filter leaving (workers s) = workers s" by (simp add: filter_id_conv)
      then show False using h(2,3) by (simp add: count_if_def)
    qed
    then have "W_blocked \<in> set (workers s)" using stuck by (metis leaving.simps(1))
    then show False using wk q z(2) no 1(1) by (simp add: wake_ok_def)
  next
    case (2 w)
    then have "count_if leaving (workers s) = length (workers s)"
      using sp by (simp add: stop_ok_def Let_def)
    then have "leaving w" using 2(2) by (metis count_if_def filter_True length_filter_less less_irrefl)
    then show False using stuck [OF 2(2)] 2(3) by auto
  qed
qed

section \<open>A sample run\<close>

text \<open>One worker goes to sleep, a job is submitted, and \<open>stop\<close> runs to the draining.\<close>

definition demo_new :: sched where
  "demo_new = sched_new 1 2 \<lparr>nxt = (\<lambda>_. 0), freed = []\<rparr>"

definition demo_verdict :: resume_info where
  "demo_verdict = \<lparr>ri_result = Done, ri_messages = 1\<rparr>"

definition demo_sleep :: sched where
  "demo_sleep = worker_step demo_verdict 0 0 W_wait (sched_start 1 demo_new)"

definition demo_submit :: sched where
  "demo_submit = (case central_enqueue 7 Actor_fn 10 demo_sleep of
     Inl _ \<Rightarrow> demo_sleep | Inr s \<Rightarrow> s\<lparr>callers := callers s + 1\<rparr>)"

lemmas demo_simps = demo_new_def demo_verdict_def demo_sleep_def demo_submit_def sched_new_def ll_new_def
  sched_start_def dequeue_def ll_empty_def ll_size_def set_worker_def central_enqueue_def new_job_def
  job_ptr_new_def queue_push_def ll_push_back_def Let_def

lemma demo_sleep_reachable: "sched_reachable 9 1 demo_new demo_sleep"
  unfolding demo_sleep_def
  by (intro sched_reachable.step [OF sched_reachable.init] sched_step.work)
    (simp_all add: may_wake_def demo_new_def demo_verdict_def sched_new_def ll_new_def sched_start_def)

lemma demo_submit_reachable: "sched_reachable 9 1 demo_new demo_submit"
proof (rule sched_reachable.step [OF demo_sleep_reachable])
  have f: "fresh_node 10 demo_sleep" by (simp add: fresh_node_def demo_simps)
  obtain s where s: "central_enqueue 7 Actor_fn 10 demo_sleep = Inr s"
    by (simp add: central_enqueue_def new_job_def job_ptr_new_def)
  show "sched_step 9 demo_sleep demo_submit"
    using sched_step.submit [OF f s] by (simp add: demo_submit_def s)
qed

lemma demo_submit_state:
  "workers demo_submit = [W_blocked]" "queued demo_submit = [10]" "callers demo_submit = 1"
  "stopper demo_submit = S_running"
  by (simp_all add: queued_def demo_simps)

text \<open>Without workers \<open>stop\<close> sends no helper, joins nobody and drains.\<close>

definition demo_join :: sched where
  "demo_join = (sched_start 0 demo_new)\<lparr>stopper := S_drain\<rparr>"

lemma demo_join_reachable: "sched_reachable 9 0 demo_new demo_join"
proof -
  let ?s0 = "sched_start 0 demo_new"
  have f: "fresh_node 10 (?s0\<lparr>stopper := t\<rparr>)" "may_wake 0 (?s0\<lparr>stopper := t\<rparr>)" for t
    by (simp_all add: fresh_node_def may_wake_def demo_simps)
  have s0: "?s0\<lparr>stopper := S_running\<rparr> = ?s0" by (simp add: demo_simps)
  have st: "sched_step 9 (?s0\<lparr>stopper := t\<rparr>) (stop_step 9 10 0 t (?s0\<lparr>stopper := t\<rparr>))" for t
    using f by (intro sched_step.stop) simp_all
  have "sched_step 9 (?s0\<lparr>stopper := S_running\<rparr>) (?s0\<lparr>stopper := S_send 0\<rparr>)"
    using st [of S_running] by (simp add: demo_simps)
  moreover have "sched_step 9 (?s0\<lparr>stopper := S_send 0\<rparr>) (?s0\<lparr>stopper := S_join\<rparr>)"
    using st [of "S_send 0"] by (simp add: demo_simps)
  moreover have "sched_step 9 (?s0\<lparr>stopper := S_join\<rparr>) demo_join"
    using st [of S_join] by (simp add: demo_simps demo_join_def)
  ultimately show ?thesis
    using sched_reachable.init [of 9 0 demo_new] unfolding s0 by (blast intro: sched_reachable.step)
qed

section \<open>Properties\<close>

text \<open>C12: One place per job. In every interleaving each allocated job node is either queued once or in
  the hands of exactly one worker, the pointer structure holds the queued ones, and jobs leave the
  queue in the order they entered it.\<close>

theorem sched_jobs_owned:
  assumes "sched_reachable sh num (sched_new h t m) s" and "h \<noteq> t"
  shows "mset (live s) = mset (queued s) + handed s \<and> distinct (live s) \<and>
    lq_rep (queue s, memory s) (queued s) \<and> pushed s = popped s @ queued s"
  using sched_reachable_inv [OF assms] by (simp add: sched_inv_def nodes_ok_def)

theorem sched_jobs_owned_witness: "pushed demo_submit = popped demo_submit @ [10] \<and> live demo_submit = [10]"
  using sched_jobs_owned [OF demo_submit_reachable [unfolded demo_new_def]]
  by (simp add: demo_submit_state handed_def)

text \<open>C13: No lost wake-up at the condition variable. While a worker sleeps, every queued job is
  covered by a notification still to come or by a thread that will look at the queue.\<close>

theorem sched_no_lost_wakeup:
  assumes "sched_reachable sh num (sched_new h t m) s" and "h \<noteq> t" and "W_blocked \<in> set (workers s)"
  shows "length (queued s) \<le> callers s + count_if will_look (workers s) +
    (case stopper s of S_notify _ \<Rightarrow> 1 | _ \<Rightarrow> 0)"
  using sched_reachable_inv [OF assms(1,2)] assms(3) by (simp add: sched_inv_def wake_ok_def)

theorem sched_no_lost_wakeup_witness: "length (queued demo_submit) \<le> callers demo_submit"
  using sched_no_lost_wakeup [OF demo_submit_reachable [unfolded demo_new_def]]
  by (simp add: demo_submit_state)

text \<open>C24: Stopping never deadlocks. Until \<open>stop\<close> has returned somebody can always move: the helper it
  waits for is never stranded in the queue with all workers asleep or gone.\<close>

theorem stop_never_deadlocks:
  assumes "sched_reachable sh num (sched_new h t m) s" and "h \<noteq> t" and "stopper s \<noteq> S_finished"
  shows "0 < callers s \<or> (\<exists>w \<in> set (workers s). movable w) \<or> stop_can_move s"
  by (rule stop_progress [OF sched_reachable_inv [OF assms(1,2)] assms(3)])

theorem stop_never_deadlocks_witness:
  "0 < callers demo_submit \<or> (\<exists>w \<in> set (workers demo_submit). movable w) \<or> stop_can_move demo_submit"
  using stop_never_deadlocks [OF demo_submit_reachable [unfolded demo_new_def]]
  by (simp add: demo_submit_state)

text \<open>Stopping is clean. When \<open>stop\<close> reaches the draining of the queue every worker has ended,
  and the draining frees exactly the nodes still queued, in order, leaving no job node allocated.\<close>

theorem stop_drains_clean:
  assumes "sched_reachable sh num (sched_new h t m) s" and "h \<noteq> t" and "stopper s = S_drain"
  shows "let s' = stop_step sh' p k S_drain s in
    stopper s' = S_finished \<and> (\<forall>w \<in> set (workers s'). w = W_stopped) \<and> live s' = [] \<and>
    ll_empty (queue s') \<and> freed (memory s') = freed (memory s) @ queued s"
proof -
  have inv: "sched_inv s" by (rule sched_reachable_inv [OF assms(1,2)])
  then have ok: "nodes_ok s" and all: "\<forall>w \<in> set (workers s). w = W_stopped"
    using assms(3) by (simp_all add: sched_inv_def stop_ok_def Let_def)
  have "handed s = {#}" by (rule drain_hands_empty [OF inv assms(3)])
  note D = drain_nodes_ok [OF ok this refl]
  then have "lq_rep (queue (drain_jobs s), memory (drain_jobs s)) []" by (metis nodes_ok_def)
  then have "ll_empty (queue (drain_jobs s))" using lq.empty_iff by fastforce
  with D all show ?thesis by (simp add: Let_def)
qed

theorem stop_drains_clean_witness: "stopper (stop_step 9 0 0 S_drain demo_join) = S_finished"
  using stop_drains_clean [OF demo_join_reachable [unfolded demo_new_def], of 9 0 0]
  by (simp add: demo_join_def Let_def)

end
