(* ===== verification/Runtime.thy ===== *)
theory Runtime
  imports Actor_Protocol Scheduler
begin

text \<open>
  Actors on a scheduler: any number of actors, each with its senders and destructor
  (\<open>Actor_Protocol\<close>), and one scheduler with its workers (\<open>Scheduler\<close>), as one transition
  system. A caller that \<open>send\<close> told so enqueues the actor, which creates a job node; a worker
  with that node in its hands makes the accesses of the actor's \<open>resume\<close>, gets its verdict, and
  keeps or drops the node accordingly. What each part took from its environment is here the
  other part's doing.
\<close>

section \<open>The system\<close>

text \<open>\<open>driver_of\<close> says which call of \<open>resume\<close> belongs to a node.\<close>

record 'm runtime =
  acts :: "nat \<Rightarrow> 'm actor_world"
  pool :: sched
  driver_of :: "nat \<Rightarrow> nat"

definition job_of :: "sched \<Rightarrow> nat \<Rightarrow> nat \<Rightarrow> bool" where
  "job_of s n a \<longleftrightarrow> j_fn (nodes s n) = Actor_fn \<and> j_ptr (nodes s n) = a"

definition runs :: "'m runtime \<Rightarrow> nat \<Rightarrow> nat \<Rightarrow> nat \<Rightarrow> bool" where
  "runs r i n a \<longleftrightarrow> i < length (workers (pool r)) \<and> workers (pool r) ! i = W_job n \<and> job_of (pool r) n a \<and>
     driver_of r n < length (drivers (acts r a))"

definition driver_at :: "'m runtime \<Rightarrow> nat \<Rightarrow> nat \<Rightarrow> 'm driver_pc" where
  "driver_at r n a = drivers (acts r a) ! driver_of r n"

definition set_act :: "nat \<Rightarrow> 'm actor_world \<Rightarrow> 'm runtime \<Rightarrow> 'm runtime" where
  "set_act a y r = r\<lparr>acts := (acts r)(a := y)\<rparr>"

inductive runtime_step ::
  "('m \<Rightarrow> bool) \<Rightarrow> nat \<Rightarrow> nat \<Rightarrow> 'm runtime \<Rightarrow> 'm runtime \<Rightarrow> bool" for hp mx sh where
  others: "actor_step False hp mx (acts r a) y \<Longrightarrow> drivers y = drivers (acts r a) \<Longrightarrow>
     runtime_step hp mx sh r (set_act a y r)"
| enqueue: "i < length (senders (acts r a)) \<Longrightarrow> senders (acts r a) ! i = S_out m True q \<Longrightarrow>
     fresh_node p (pool r) \<Longrightarrow> central_enqueue a Actor_fn p (pool r) = Inr s' \<Longrightarrow>
     runtime_step hp mx sh r (set_act a ((acts r a)\<lparr>senders := (senders (acts r a))[i := S_out m False q],
         drivers := drivers (acts r a) @ [D_start True]\<rparr>)
       (r\<lparr>pool := s'\<lparr>callers := callers s' + 1\<rparr>, driver_of := (driver_of r)(p := length (drivers (acts r a)))\<rparr>))"
| drive: "runs r i n a \<Longrightarrow> \<not> (drained (destroyer (acts r a)) \<and> acquiring (driver_at r n a)) \<Longrightarrow> 0 < mx \<Longrightarrow>
     driver_step hp mx ch (driver_at r n a) (actor (acts r a)) = (pc', a') \<Longrightarrow>
     runtime_step hp mx sh r (set_act a ((acts r a)\<lparr>drivers := (drivers (acts r a))[driver_of r n := pc'], actor := a'\<rparr>) r)"
| finish: "runs r i n a \<Longrightarrow> driver_at r n a = D_out res h \<Longrightarrow> may_wake k (pool r) \<Longrightarrow>
     runtime_step hp mx sh r
       (r\<lparr>pool := worker_step \<lparr>ri_result = res, ri_messages = h\<rparr> k i (W_job n) (pool r)\<rparr>)"
| again: "i < length (workers (pool r)) \<Longrightarrow> workers (pool r) ! i = W_later n \<Longrightarrow> job_of (pool r) n a \<Longrightarrow>
     driver_of r n < length (drivers (acts r a)) \<Longrightarrow> driver_at r n a = D_out Resume h \<Longrightarrow>
     may_wake k (pool r) \<Longrightarrow> ri_result v \<noteq> Shutdown \<Longrightarrow>
     runtime_step hp mx sh r (set_act a ((acts r a)\<lparr>drivers := (drivers (acts r a))[driver_of r n := D_start True]\<rparr>)
       (r\<lparr>pool := worker_step v k i (W_later n) (pool r)\<rparr>))"
| notify: "callers (pool r) > 0 \<Longrightarrow> may_wake k (pool r) \<Longrightarrow>
     runtime_step hp mx sh r (r\<lparr>pool := (notify_one k (pool r))\<lparr>callers := callers (pool r) - 1\<rparr>\<rparr>)"
| wake: "i < length (workers (pool r)) \<Longrightarrow> workers (pool r) ! i = W_blocked \<Longrightarrow>
     runtime_step hp mx sh r (r\<lparr>pool := set_worker i W_wait (pool r)\<rparr>)"
| work: "i < length (workers (pool r)) \<Longrightarrow> workers (pool r) ! i = pc \<Longrightarrow>
     (\<forall>n. pc = W_job n \<or> pc = W_later n \<longrightarrow> j_fn (nodes (pool r) n) \<noteq> Actor_fn) \<Longrightarrow>
     may_wake k (pool r) \<Longrightarrow> ri_result v \<noteq> Shutdown \<Longrightarrow>
     runtime_step hp mx sh r (r\<lparr>pool := worker_step v k i pc (pool r)\<rparr>)"
| stop: "stopper (pool r) = pc \<Longrightarrow> fresh_node p (pool r) \<Longrightarrow> may_wake k (pool r) \<Longrightarrow>
     runtime_step hp mx sh r (r\<lparr>pool := stop_step sh p k pc (pool r)\<rparr>)"

text \<open>All actors are constructed, the queue's sentinels are \<open>h\<close> and \<open>t\<close>, and there are \<open>num\<close> workers.\<close>

definition runtime_init :: "nat \<Rightarrow> nat \<Rightarrow> nat \<Rightarrow> mem \<Rightarrow> 'm runtime" where
  "runtime_init num h t m =
     \<lparr>acts = (\<lambda>_. actor_init), pool = sched_start num (sched_new h t m), driver_of = (\<lambda>_. 0)\<rparr>"

inductive runtime_reachable ::
  "('m \<Rightarrow> bool) \<Rightarrow> nat \<Rightarrow> nat \<Rightarrow> nat \<Rightarrow> nat \<Rightarrow> nat \<Rightarrow> mem \<Rightarrow> 'm runtime \<Rightarrow> bool" for hp mx sh num h t m where
  init: "runtime_reachable hp mx sh num h t m (runtime_init num h t m)"
| step: "runtime_reachable hp mx sh num h t m r \<Longrightarrow> runtime_step hp mx sh r r' \<Longrightarrow>
     runtime_reachable hp mx sh num h t m r'"

inductive_cases runtime_stepE: "runtime_step hp mx sh r r'"

lemma set_act_simps [simp]:
  "pool (set_act a y r) = pool r" "driver_of (set_act a y r) = driver_of r"
  "acts (set_act a y r) = (acts r)(a := y)"
  by (simp_all add: set_act_def)

section \<open>Each part runs its own protocol\<close>

definition parts_ok :: "('m \<Rightarrow> bool) \<Rightarrow> nat \<Rightarrow> nat \<Rightarrow> nat \<Rightarrow> nat \<Rightarrow> nat \<Rightarrow> mem \<Rightarrow> 'm runtime \<Rightarrow> bool" where
  "parts_ok hp mx sh num h t m r \<longleftrightarrow> sched_reachable sh num (sched_new h t m) (pool r) \<and>
     (\<forall>a. actor_reachable False hp mx (acts r a))"

lemma out_not_shutdown:
  assumes "actor_reachable ext hp mx y" and "j < length (drivers y)" and "drivers y ! j = D_out res h"
  shows "res \<noteq> Shutdown"
proof -
  obtain s r d where "protocol_inv ext y s r d"
    using actor_reachable_inv [OF assms(1)] by (auto simp: actor_inv_def)
  then have "drv_ok s d (am_blocked (mbox (actor y))) (wake y s d) (busy (actor y)) (drivers y ! j)"
    using assms(2) by (simp add: protocol_inv_def)
  with assms(3) show ?thesis by simp
qed

lemma runtime_step_parts:
  assumes "parts_ok hp mx sh num h t m r" and "runtime_step hp mx sh r r'"
  shows "parts_ok hp mx sh num h t m r'"
proof -
  have S: "sched_reachable sh num (sched_new h t m) (pool r)" and A: "\<And>a. actor_reachable False hp mx (acts r a)"
    using assms(1) by (simp_all add: parts_ok_def)
  note sst = sched_reachable.step [OF S] and ast = actor_reachable.step [OF A]
  from assms(2) show ?thesis
  proof cases
    case (others a y)
    then show ?thesis using S A ast by (auto simp: parts_ok_def)
  next
    case (enqueue i a x q p s')
    then show ?thesis
      using A sst [OF sched_step.submit [OF enqueue(4,5)]] ast [OF actor_step.redeem_send [OF enqueue(2,3)]]
      by (auto simp: parts_ok_def)
  next
    case (drive i n a ch pc' a')
    then have "actor_step False hp mx (acts r a)
      ((acts r a)\<lparr>drivers := (drivers (acts r a))[driver_of r n := pc'], actor := a'\<rparr>)"
      by (intro actor_step.drive) (simp_all add: runs_def driver_at_def)
    then show ?thesis using drive S A ast by (auto simp: parts_ok_def)
  next
    case (finish i n a res h' k)
    then have "res \<noteq> Shutdown" using out_not_shutdown [OF A] by (auto simp: runs_def driver_at_def)
    then show ?thesis
      using finish A sst [OF sched_step.work, of i "W_job n" k "\<lparr>ri_result = res, ri_messages = h'\<rparr>"]
      by (auto simp: parts_ok_def runs_def)
  next
    case (again i n a h' k v)
    have "actor_step False hp mx (acts r a)
      ((acts r a)\<lparr>drivers := (drivers (acts r a))[driver_of r n := D_start True]\<rparr>)"
      using again by (intro actor_step.redeem_resume) (auto simp: driver_at_def)
    then show ?thesis
      using again A ast sst [OF sched_step.work, of i "W_later n" k v]
      by (auto simp: parts_ok_def)
  next
    case (notify k)
    then show ?thesis using A sst [OF sched_step.notify] by (auto simp: parts_ok_def)
  next
    case (wake i)
    then show ?thesis using A sst [OF sched_step.wake] by (auto simp: parts_ok_def)
  next
    case (work i pc k v)
    then show ?thesis using A sst [OF sched_step.work, of i pc k v] by (auto simp: parts_ok_def)
  next
    case (stop pc p k)
    then show ?thesis using A sst [OF sched_step.stop, of pc p k] by (auto simp: parts_ok_def)
  qed
qed

lemma runtime_reachable_parts: "runtime_reachable hp mx sh num h t m r \<Longrightarrow> parts_ok hp mx sh num h t m r"
proof (induction rule: runtime_reachable.induct)
  case init
  show ?case by (simp add: parts_ok_def runtime_init_def sched_reachable.init actor_reachable.init)
qed (rule runtime_step_parts)

section \<open>Nodes and calls of resume\<close>

definition active :: "'m driver_pc \<Rightarrow> bool" where
  "active p \<longleftrightarrow> d_token p \<or> d_critical p"

text \<open>The verdict a worker has in its hands is the one its call of \<open>resume\<close> ended with.\<close>

fun verdict_ok :: "worker_pc \<Rightarrow> nat \<Rightarrow> 'm driver_pc \<Rightarrow> bool" where
  "verdict_ok (W_done n' v) n p \<longleftrightarrow> (n = n' \<longrightarrow> (\<exists>h. p = D_out (ri_result v) h))"
| "verdict_ok (W_later n') n p \<longleftrightarrow> (n = n' \<longrightarrow> (\<exists>h. p = D_out Resume h))"
| "verdict_ok _ n p \<longleftrightarrow> True"

definition link_ok :: "'m runtime \<Rightarrow> bool" where
  "link_ok r \<longleftrightarrow>
     (\<forall>a. \<forall>n \<in> set (live (pool r)). job_of (pool r) n a \<longrightarrow>
        driver_of r n < length (drivers (acts r a)) \<and>
        (n \<in> set (queued (pool r)) \<longrightarrow> driver_at r n a = D_start True) \<and>
        (\<forall>w \<in> set (workers (pool r)). verdict_ok w n (driver_at r n a)) \<and>
        (\<forall>n' \<in> set (live (pool r)). job_of (pool r) n' a \<and> driver_of r n' = driver_of r n \<longrightarrow> n' = n)) \<and>
     (stopper (pool r) \<noteq> S_finished \<longrightarrow> (\<forall>a. \<forall>j < length (drivers (acts r a)). active (drivers (acts r a) ! j) \<longrightarrow>
        (\<exists>n \<in> set (live (pool r)). job_of (pool r) n a \<and> driver_of r n = j)))"

lemma link_live:
  assumes "link_ok r" and "n \<in> set (live (pool r))" and "job_of (pool r) n a"
  shows "driver_of r n < length (drivers (acts r a))"
    and "n \<in> set (queued (pool r)) \<Longrightarrow> driver_at r n a = D_start True"
    and "w \<in> set (workers (pool r)) \<Longrightarrow> verdict_ok w n (driver_at r n a)"
    and "n' \<in> set (live (pool r)) \<Longrightarrow> job_of (pool r) n' a \<Longrightarrow> driver_of r n' = driver_of r n \<Longrightarrow> n' = n"
  using assms unfolding link_ok_def by blast+

lemma link_bound:
  assumes "link_ok r" and "stopper (pool r) \<noteq> S_finished" and "j < length (drivers (acts r a))"
    and "active (drivers (acts r a) ! j)"
  obtains n where "n \<in> set (live (pool r))" and "job_of (pool r) n a" and "driver_of r n = j"
  using assms unfolding link_ok_def by blast

text \<open>A step of the scheduler alone.\<close>

lemma link_frame:
  assumes "link_ok r"
    and "\<And>n a. n \<in> set (live s') \<Longrightarrow> job_of s' n a \<Longrightarrow> n \<in> set (live (pool r)) \<and> job_of (pool r) n a"
    and "\<And>n a. n \<in> set (live s') \<Longrightarrow> n \<in> set (queued s') \<Longrightarrow> job_of s' n a \<Longrightarrow> n \<in> set (queued (pool r)) \<or> driver_at r n a = D_start True"
    and "\<And>w n a. w \<in> set (workers s') \<Longrightarrow> n \<in> set (live s') \<Longrightarrow> job_of s' n a \<Longrightarrow> w \<in> set (workers (pool r)) \<or> verdict_ok w n (driver_at r n a)"
    and "\<And>n a. stopper s' \<noteq> S_finished \<Longrightarrow> n \<in> set (live (pool r)) \<Longrightarrow> job_of (pool r) n a \<Longrightarrow> active (driver_at r n a) \<Longrightarrow>
      stopper (pool r) \<noteq> S_finished \<and> n \<in> set (live s') \<and> job_of s' n a"
    and "stopper s' \<noteq> S_finished \<Longrightarrow> stopper (pool r) \<noteq> S_finished"
  shows "link_ok (r\<lparr>pool := s'\<rparr>)"
  unfolding link_ok_def
proof (intro conjI allI ballI impI)
  fix a n assume n: "n \<in> set (live (pool (r\<lparr>pool := s'\<rparr>)))" "job_of (pool (r\<lparr>pool := s'\<rparr>)) n a"
  then have l: "n \<in> set (live (pool r))" "job_of (pool r) n a" using assms(2) by auto
  note L = link_live [OF assms(1) l]
  show "driver_of (r\<lparr>pool := s'\<rparr>) n < length (drivers (acts (r\<lparr>pool := s'\<rparr>) a))" using L(1) by simp
  { assume "n \<in> set (queued (pool (r\<lparr>pool := s'\<rparr>)))"
    then show "driver_at (r\<lparr>pool := s'\<rparr>) n a = D_start True"
      using L(2) assms(3) [of n a] n by (auto simp: driver_at_def) }
  { fix w assume "w \<in> set (workers (pool (r\<lparr>pool := s'\<rparr>)))"
    then show "verdict_ok w n (driver_at (r\<lparr>pool := s'\<rparr>) n a)"
      using L(3) assms(4) n by (auto simp: driver_at_def) }
  { fix n' assume "n' \<in> set (live (pool (r\<lparr>pool := s'\<rparr>)))"
      "job_of (pool (r\<lparr>pool := s'\<rparr>)) n' a \<and> driver_of (r\<lparr>pool := s'\<rparr>) n' = driver_of (r\<lparr>pool := s'\<rparr>) n"
    then show "n' = n" using L(4) assms(2) by auto }
next
  fix a j assume a: "stopper (pool (r\<lparr>pool := s'\<rparr>)) \<noteq> S_finished" "j < length (drivers (acts (r\<lparr>pool := s'\<rparr>) a))"
    "active (drivers (acts (r\<lparr>pool := s'\<rparr>) a) ! j)"
  then obtain n where "n \<in> set (live (pool r))" "job_of (pool r) n a" "driver_of r n = j"
    using link_bound [OF assms(1) assms(6), of j a] by auto
  then show "\<exists>n \<in> set (live (pool (r\<lparr>pool := s'\<rparr>))). job_of (pool (r\<lparr>pool := s'\<rparr>)) n a \<and> driver_of (r\<lparr>pool := s'\<rparr>) n = j"
    using a assms(5) by (auto simp: driver_at_def)
qed

text \<open>A step of one call of \<open>resume\<close> whose node a worker holds.\<close>

lemma link_driver:
  assumes ok: "link_ok r" and n: "n \<in> set (live (pool r))" "job_of (pool r) n a" "n \<notin> set (queued (pool r))"
    and v: "\<And>w. w \<in> set (workers (pool r)) \<Longrightarrow> verdict_ok w n pc'"
    and y: "drivers y = (drivers (acts r a))[driver_of r n := pc']"
  shows "link_ok (set_act a y r)"
proof -
  have other: "drivers y ! driver_of r n' = drivers (acts r a) ! driver_of r n'"
    if "n' \<in> set (live (pool r))" "job_of (pool r) n' a" "n' \<noteq> n" for n'
    using link_live(4) [OF ok n(1,2) that(1,2)] that(3) y by (metis nth_list_update_neq)
  have own: "drivers y ! driver_of r n = pc'" using link_live(1) [OF ok n(1,2)] y by simp
  have len: "length (drivers y) = length (drivers (acts r a))" using y by simp
  show ?thesis
    unfolding link_ok_def
  proof (intro conjI allI ballI impI)
    fix b m assume m: "m \<in> set (live (pool (set_act a y r)))" "job_of (pool (set_act a y r)) m b"
    then have l: "m \<in> set (live (pool r))" "job_of (pool r) m b" by simp_all
    note L = link_live [OF ok l]
    show "driver_of (set_act a y r) m < length (drivers (acts (set_act a y r) b))" using L(1) len by auto
    { assume "m \<in> set (queued (pool (set_act a y r)))"
      then show "driver_at (set_act a y r) m b = D_start True"
        using L(2) other [OF l(1)] l(2) n(3) by (cases "b = a") (auto simp: driver_at_def) }
    { fix w assume "w \<in> set (workers (pool (set_act a y r)))"
      then show "verdict_ok w m (driver_at (set_act a y r) m b)"
        using L(3) other [OF l(1)] l(2) v own by (cases "b = a"; cases "m = n") (auto simp: driver_at_def) }
    { fix m' assume "m' \<in> set (live (pool (set_act a y r)))"
        "job_of (pool (set_act a y r)) m' b \<and> driver_of (set_act a y r) m' = driver_of (set_act a y r) m"
      then show "m' = m" using L(4) by simp }
  next
    fix b j assume "stopper (pool (set_act a y r)) \<noteq> S_finished" "j < length (drivers (acts (set_act a y r) b))"
      "active (drivers (acts (set_act a y r) b) ! j)"
    then have j: "stopper (pool r) \<noteq> S_finished" "j < length (drivers (acts r b))"
      and act: "b \<noteq> a \<or> j \<noteq> driver_of r n \<longrightarrow> active (drivers (acts r b) ! j)"
      using len y by (auto split: if_splits)
    show "\<exists>m \<in> set (live (pool (set_act a y r))). job_of (pool (set_act a y r)) m b \<and> driver_of (set_act a y r) m = j"
    proof (cases "b = a \<and> j = driver_of r n")
      case False
      then have "active (drivers (acts r b) ! j)" using act by auto
      then obtain m where "m \<in> set (live (pool r))" "job_of (pool r) m b" "driver_of r m = j"
        by (rule link_bound [OF ok j])
      then show ?thesis by auto
    qed (use n in \<open>auto intro!: bexI [of _ n]\<close>)
  qed
qed

section \<open>Every step keeps the link\<close>

lemma link_same_drivers:
  assumes "link_ok r" and "drivers y = drivers (acts r a)"
  shows "link_ok (set_act a y r)"
proof -
  have d: "drivers (acts (set_act a y r) b) = drivers (acts r b)" for b using assms(2) by simp
  then show ?thesis using assms(1) unfolding link_ok_def driver_at_def by simp
qed

lemma link_push:
  assumes "link_ok r" and "pushed (pool r) = popped (pool r) @ queued (pool r)" and "n \<in> set (live (pool r))"
    and "\<And>a. job_of (pool r) n a \<Longrightarrow> driver_at r n a = D_start True"
  shows "link_ok (r\<lparr>pool := queue_push n (pool r)\<rparr>)"
proof -
  have q: "queued (queue_push n (pool r)) = queued (pool r) @ [n]" by (rule queued_push [OF assms(2)])
  show ?thesis
    by (rule link_frame [OF assms(1)]) (use assms(4) in \<open>auto simp: q job_of_def\<close>)
qed

lemma central_enqueue_fields:
  assumes "central_enqueue a fn p s = Inr s'"
  shows "live s' = p # live s" and "nodes s' = (nodes s)(p := \<lparr>j_ptr = a, j_fn = fn\<rparr>)"
    and "workers s' = workers s" and "stopper s' = stopper s"
  using assms by (auto simp: central_enqueue_def new_job_def job_ptr_new_def split: sum.splits if_splits)

lemma job_of_callers [simp]: "job_of (s\<lparr>callers := c\<rparr>) n a = job_of s n a"
  by (simp add: job_of_def)

lemma link_enqueue:
  assumes ok: "link_ok r" and nok: "nodes_ok (pool r)" and f: "fresh_node p (pool r)"
    and e: "central_enqueue a Actor_fn p (pool r) = Inr s'" and y: "drivers y = drivers (acts r a) @ [D_start True]"
  shows "link_ok (set_act a y (r\<lparr>pool := s'\<lparr>callers := c\<rparr>, driver_of := (driver_of r)(p := length (drivers (acts r a)))\<rparr>))"
    (is "link_ok ?r")
proof -
  note F = central_enqueue_fields [OF e] and N = enqueue_nodes_ok [OF nok f _ e]
  have p: "p \<notin> set (live (pool r))" using f by (simp add: fresh_node_def)
  have q: "queued s' = queued (pool r) @ [p]" using N(2) by simp
  have j: "job_of s' m b = job_of (pool r) m b" if "m \<noteq> p" for m b using that by (simp add: job_of_def F(2))
  have jp: "job_of s' p b \<longleftrightarrow> b = a" for b by (auto simp: job_of_def F(2))
  have d: "driver_at ?r m b = driver_at r m b" if "m \<in> set (live (pool r))" "job_of (pool r) m b" for m b
    using link_live(1) [OF ok that] that(1) p y by (auto simp: driver_at_def nth_append)
  have dp: "driver_at ?r p a = D_start True" using y by (simp add: driver_at_def)
  have held: "verdict_ok w p x" if w: "w \<in> set (workers (pool r))" for w x
  proof -
    obtain i where "i < length (workers (pool r))" "w = workers (pool r) ! i"
      using w by (auto simp: in_set_conv_nth)
    then have "p \<notin># held w" using held_live(1) [OF nok, of i p] p by auto
    then show ?thesis by (cases w) auto
  qed
  show ?thesis
    unfolding link_ok_def
  proof (intro conjI allI ballI impI)
    fix b m assume "m \<in> set (live (pool ?r))" "job_of (pool ?r) m b"
    then have m: "m = p \<and> b = a \<or> m \<noteq> p \<and> m \<in> set (live (pool r)) \<and> job_of (pool r) m b"
      using F(1) j [of m] jp by (cases "m = p") auto
    show "driver_of ?r m < length (drivers (acts ?r b))"
      using m link_live(1) [OF ok, of m b] y by auto
    { assume "m \<in> set (queued (pool ?r))"
      then show "driver_at ?r m b = D_start True"
        using m dp d [of m b] link_live(2) [OF ok, of m b] q by auto }
    { fix w assume "w \<in> set (workers (pool ?r))"
      then show "verdict_ok w m (driver_at ?r m b)"
        using m d [of m b] link_live(3) [OF ok, of m b w] held [of w] F(3) by auto }
    { fix m' assume "m' \<in> set (live (pool ?r))" "job_of (pool ?r) m' b \<and> driver_of ?r m' = driver_of ?r m"
      then have "m' \<in> set (live s')" "job_of s' m' b" and eq: "driver_of ?r m' = driver_of ?r m" by simp_all
      then have m': "m' = p \<and> b = a \<or> m' \<noteq> p \<and> m' \<in> set (live (pool r)) \<and> job_of (pool r) m' b"
        using F(1) j [of m' b] jp [of b] by (cases "m' = p") simp_all
      have lt: "driver_of r x \<noteq> length (drivers (acts r b))" if "x \<in> set (live (pool r))" "job_of (pool r) x b" for x
        using link_live(1) [OF ok that] by simp
      consider "m = p" "m' = p" | "m = p" "m' \<noteq> p" "b = a" | "m' = p" "m \<noteq> p" "b = a" | "m \<noteq> p" "m' \<noteq> p"
        using m m' by blast
      then show "m' = m"
      proof cases
        case 2
        then show ?thesis using m' eq lt [of m'] by simp
      next
        case 3
        then show ?thesis using m eq lt [of m] by simp
      next
        case 4
        have "driver_of r m' = driver_of r m" using 4 eq by simp
        then show ?thesis using 4 m m' link_live(4) [OF ok, of m b m'] by blast
      qed simp }
  next
    fix b i assume s: "stopper (pool ?r) \<noteq> S_finished" "i < length (drivers (acts ?r b))" "active (drivers (acts ?r b) ! i)"
    show "\<exists>m \<in> set (live (pool ?r)). job_of (pool ?r) m b \<and> driver_of ?r m = i"
    proof (cases "b = a \<and> i = length (drivers (acts r a))")
      case True
      then show ?thesis using F(1) jp by (intro bexI [of _ p]) auto
    next
      case False
      then have i: "i < length (drivers (acts r b))" "active (drivers (acts r b) ! i)" "stopper (pool r) \<noteq> S_finished"
        using s y F(4) by (auto simp: nth_append split: if_splits)
      then obtain m where "m \<in> set (live (pool r))" "job_of (pool r) m b" "driver_of r m = i"
        using link_bound [OF ok] by blast
      then show ?thesis using p F(1) j [of m b] by (intro bexI [of _ m]) auto
    qed
  qed
qed

lemma held_unique:
  assumes "nodes_ok s" and "i < length (workers s)" and "i' < length (workers s)"
    and "p \<in># held (workers s ! i)" and "p \<in># held (workers s ! i')"
  shows "i = i'"
proof (rule ccontr)
  assume ne: "i \<noteq> i'"
  let ?t = "s\<lparr>workers := (workers s)[i := W_wait]\<rparr>"
  have "handed ?t + held (workers s ! i) = handed s" using handed_set [OF assms(2), of W_wait] by simp
  moreover have "p \<in># handed ?t" by (rule held_handed [of i']) (use assms(3,5) ne in simp_all)
  moreover have "p \<in># held (workers s ! i)" by (rule assms(4))
  ultimately have "2 \<le> count (handed s) p"
    by (metis (no_types, lifting) Suc_1 add_mono count_greater_eq_one_iff count_union one_add_one)
  moreover have "count (handed s) p \<le> count (mset (live s)) p" using assms(1) by (simp add: nodes_ok_def)
  moreover have "distinct (live s)" using assms(1) by (simp add: nodes_ok_def)
  then have "count (mset (live s)) p = (if p \<in> set (live s) then 1 else 0)"
    by (rule distinct_count_atmost_1 [THEN iffD1, rule_format])
  ultimately show False by (simp split: if_splits)
qed

text \<open>A worker's access that leaves nodes, actors and the rest of the pool alone.\<close>

lemma link_worker:
  assumes "link_ok r" and "live s' = live (pool r)" and "nodes s' = nodes (pool r)" and "stopper s' = stopper (pool r)"
    and "set (queued s') \<subseteq> set (queued (pool r))" and "set (workers s') \<subseteq> insert w (set (workers (pool r)))"
    and "\<And>n a. n \<in> set (live (pool r)) \<Longrightarrow> job_of (pool r) n a \<Longrightarrow> verdict_ok w n (driver_at r n a)"
  shows "link_ok (r\<lparr>pool := s'\<rparr>)"
  by (rule link_frame [OF assms(1)]) (use assms(2-7) in \<open>auto simp: job_of_def\<close>)

lemma notify_one_workers: "set (workers (notify_one k s)) \<subseteq> insert W_wait (set (workers s))"
  by (auto simp: notify_one_def dest: set_update_subset_insert [THEN subsetD])

lemma worker_resume_fields:
  "live (worker_resume v i n s) = live s" "nodes (worker_resume v i n s) = nodes s"
  "stopper (worker_resume v i n s) = stopper s" "queued (worker_resume v i n s) = queued s"
  by (auto simp: worker_resume_def set_worker_def queued_def split: sum.splits)

lemma worker_resume_workers:
  "\<exists>w. set (workers (worker_resume v i n s)) \<subseteq> insert w (set (workers s)) \<and>
     (w = W_fault \<or> (\<exists>res. job_resume v (nodes s n) = Inr res \<and> w = W_done n res))"
  using set_update_subset_insert [of "workers s" i]
  by (fastforce simp: worker_resume_def split: sum.splits)

lemma link_resume:
  assumes "link_ok r" and "\<And>a res. job_of (pool r) n a \<Longrightarrow> job_resume v (nodes (pool r) n) = Inr res \<Longrightarrow>
    \<exists>h. driver_at r n a = D_out (ri_result res) h"
  shows "link_ok (r\<lparr>pool := worker_resume v i n (pool r)\<rparr>)"
proof -
  obtain w where w: "set (workers (worker_resume v i n (pool r))) \<subseteq> insert w (set (workers (pool r)))"
    "w = W_fault \<or> (\<exists>res. job_resume v (nodes (pool r) n) = Inr res \<and> w = W_done n res)"
    using worker_resume_workers by blast
  show ?thesis
    by (rule link_worker [OF assms(1) worker_resume_fields(1-3) _ w(1)])
      (use w(2) assms(2) in \<open>auto simp: worker_resume_fields\<close>)
qed

lemma link_dequeue:
  assumes "link_ok r" and "nodes_ok (pool r)" and "i < length (workers (pool r))" and "workers (pool r) ! i = W_wait"
  shows "link_ok (r\<lparr>pool := dequeue i (pool r)\<rparr>)"
proof (cases "queued (pool r)")
  case Nil
  then show ?thesis
    unfolding dequeue_nodes_ok(2) [OF assms(2-4) Nil]
    by (intro link_worker [OF assms(1), of _ W_blocked])
      (auto simp: set_worker_def dest: set_update_subset_insert [THEN subsetD])
next
  case (Cons p xs)
  note D = dequeue_nodes_ok(3) [OF assms(2-4) Cons]
  have e: "dequeue i (pool r) = set_worker i (W_job p) ((pool r)\<lparr>queue := queue (dequeue i (pool r)),
      memory := memory (dequeue i (pool r)), popped := popped (pool r) @ [p]\<rparr>)" using D by blast
  have q: "queued (dequeue i (pool r)) = xs" using D by blast
  have f: "live (dequeue i (pool r)) = live (pool r)" "nodes (dequeue i (pool r)) = nodes (pool r)"
    "stopper (dequeue i (pool r)) = stopper (pool r)" "workers (dequeue i (pool r)) = (workers (pool r))[i := W_job p]"
    by (subst e, simp add: set_worker_def)+
  show ?thesis
    by (rule link_worker [OF assms(1) f(1-3), of "W_job p"])
      (use q Cons f(4) in \<open>auto dest: set_update_subset_insert [THEN subsetD]\<close>)
qed

lemma link_switch:
  assumes ok: "link_ok r" and i: "i < length (workers (pool r))" "workers (pool r) ! i = W_done n v"
  shows "link_ok (r\<lparr>pool := worker_switch i n v (pool r)\<rparr>)"
proof -
  have w: "W_done n v \<in> set (workers (pool r))" using i by (metis nth_mem)
  then have d: "\<exists>h. driver_at r n a = D_out (ri_result v) h"
    if "n \<in> set (live (pool r))" "job_of (pool r) n a" for a
    using link_live(3) [OF ok that w] by simp
  show ?thesis
  proof (cases "ri_result v = Resume")
    case True
    then show ?thesis
      by (intro link_worker [OF ok, of _ "W_later n"])
        (use d in \<open>auto simp: worker_switch_def set_worker_def dest: set_update_subset_insert [THEN subsetD]\<close>)
  next
    case False
    let ?w = "if ri_result v = Shutdown then W_stopped else W_wait"
    have s: "worker_switch i n v (pool r) = set_worker i ?w (delete_job n (pool r))"
      using False by (cases "ri_result v") (simp_all add: worker_switch_def)
    have l: "live (set_worker i ?w (delete_job n (pool r))) = remove1 n (live (pool r))"
      by (simp add: set_worker_def delete_job_def)
    have na: "m \<noteq> n" if "m \<in> set (live (pool r))" "job_of (pool r) m a" "active (driver_at r m a)" for m a
      using d [of a] that False by (auto simp: active_def)
    have ws: "set (workers (set_worker i ?w (delete_job n (pool r)))) \<subseteq> insert ?w (set (workers (pool r)))"
      by (simp add: set_update_subset_insert)
    have vk: "verdict_ok ?w m x" for m x by simp
    have sub: "m \<in> set (remove1 n (live (pool r))) \<Longrightarrow> m \<in> set (live (pool r))" for m
      by (meson notin_set_remove1)
    have j: "job_of (set_worker i ?w (delete_job n (pool r))) m a = job_of (pool r) m a" for m a
      by (simp add: job_of_def)
    show ?thesis
      unfolding s
    proof (rule link_frame [OF ok], unfold l j)
      fix m a assume "m \<in> set (live (pool r))" "job_of (pool r) m a" "active (driver_at r m a)"
        "stopper (set_worker i ?w (delete_job n (pool r))) \<noteq> S_finished"
      then show "stopper (pool r) \<noteq> S_finished \<and> m \<in> set (remove1 n (live (pool r))) \<and> job_of (pool r) m a"
        using na by auto
    next
      fix w m a assume "w \<in> set (workers (set_worker i ?w (delete_job n (pool r))))"
      then show "w \<in> set (workers (pool r)) \<or> verdict_ok w m (driver_at r m a)" using ws vk by blast
    qed (use sub in simp_all)
  qed
qed

lemma live_set_worker [simp]: "live (set_worker i w s) = live s"
  by (simp add: set_worker_def)

lemma set_act_pool: "set_act a y (r\<lparr>pool := s\<rparr>) = (set_act a y r)\<lparr>pool := s\<rparr>"
  by (cases r) (simp add: set_act_def)

lemma verdict_not_held: "n \<notin># held w \<Longrightarrow> verdict_ok w n x"
  by (cases w) auto

lemma push_set_worker: "queue_push n (set_worker i w s) = set_worker i w (queue_push n s)"
  by (simp add: queue_push_def set_worker_def split: prod.splits)

text \<open>A worker drops back to the queue what its actor asked to be run again.\<close>

lemma link_again:
  assumes ok: "link_ok r" and nok: "nodes_ok (pool r)" and i: "i < length (workers (pool r))"
    and pc: "workers (pool r) ! i = W_later n" and job: "job_of (pool r) n a"
    and y: "drivers y = (drivers (acts r a))[driver_of r n := D_start True]"
  shows "link_ok (set_act a y (r\<lparr>pool := worker_step v k i (W_later n) (pool r)\<rparr>))"
proof -
  let ?r1 = "r\<lparr>pool := set_worker i W_notify (pool r)\<rparr>" and ?r2 = "set_act a y (r\<lparr>pool := set_worker i W_notify (pool r)\<rparr>)"
  have h: "n \<in># held (workers (pool r) ! i)" by (simp add: pc)
  have l: "n \<in> set (live (pool r))" and q: "n \<notin> set (queued (pool r))" by (rule held_live [OF nok i h])+
  have 1: "link_ok ?r1"
    by (rule link_worker [OF ok, of _ W_notify]) (simp_all add: set_worker_def set_update_subset_insert)
  have "n \<notin># held w" if "w \<in> set (workers (pool ?r1))" for w
  proof -
    obtain j where j: "j < length (workers (pool r))" "w = (workers (pool r))[i := W_notify] ! j"
      using \<open>w \<in> _\<close> by (auto simp: in_set_conv_nth)
    show ?thesis
    proof (cases "j = i")
      case False
      then show ?thesis using held_unique [OF nok j(1) i _ h] j(2) by auto
    qed (use j i in simp)
  qed
  then have 2: "link_ok ?r2"
    by (intro link_driver [OF 1, of n a "D_start True"] verdict_not_held) (use l q job y in \<open>simp_all add: job_of_def\<close>)
  have "driver_of r n < length (drivers (acts r a))" by (rule link_live(1) [OF ok l job])
  then have "driver_at ?r2 n b = D_start True" if "job_of (pool ?r2) n b" for b
    using that job y by (auto simp: driver_at_def job_of_def)
  then have "link_ok (?r2\<lparr>pool := queue_push n (pool ?r2)\<rparr>)"
    by (intro link_push [OF 2]) (use l nok in \<open>simp_all add: nodes_ok_def set_worker_def\<close>)
  then show ?thesis by (simp add: push_set_worker set_act_pool)
qed

lemma link_notify:
  assumes "link_ok r"
  shows "link_ok (r\<lparr>pool := (notify_one k (pool r))\<lparr>callers := c\<rparr>\<rparr>)"
  by (rule link_worker [OF assms, of _ W_wait]) (use notify_one_workers [of k "pool r"] in \<open>simp_all add: queued_def\<close>)

lemma link_set_worker:
  assumes "link_ok r" and "held w = {#}"
  shows "link_ok (r\<lparr>pool := set_worker i w (pool r)\<rparr>)"
  by (rule link_worker [OF assms(1), of _ w])
    (simp_all add: assms(2) verdict_not_held set_worker_def set_update_subset_insert)

text \<open>The jobs that are not actors, that is, the helpers of \<open>stop\<close>.\<close>

lemma link_work:
  assumes ok: "link_ok r" and nok: "nodes_ok (pool r)" and i: "i < length (workers (pool r))"
    and pc: "workers (pool r) ! i = pc"
    and no: "\<And>n. pc = W_job n \<or> pc = W_later n \<Longrightarrow> j_fn (nodes (pool r) n) \<noteq> Actor_fn"
  shows "link_ok (r\<lparr>pool := worker_step v k i pc (pool r)\<rparr>)"
proof (cases pc)
  case W_wait
  then show ?thesis using link_dequeue [OF ok nok i] pc by simp
next
  case (W_job n)
  then show ?thesis using no [of n] link_resume [OF ok, of n v i] by (simp add: job_of_def)
next
  case (W_done n res)
  then show ?thesis using link_switch [OF ok i] pc by simp
next
  case (W_later n)
  then have "n \<in> set (live (pool r))" using held_live(1) [OF nok i, of n] pc by simp
  then have "link_ok (r\<lparr>pool := queue_push n (pool r)\<rparr>)"
    using no [of n] nok W_later by (intro link_push [OF ok]) (simp_all add: nodes_ok_def job_of_def)
  from link_set_worker [OF this, of W_notify i] W_later show ?thesis by simp
next
  case W_notify
  have "link_ok (r\<lparr>pool := notify_one k (pool r)\<rparr>)"
    by (rule link_worker [OF ok, of _ W_wait]) (use notify_one_workers [of k "pool r"] in \<open>simp_all add: queued_def\<close>)
  from link_set_worker [OF this, of W_wait i] W_notify show ?thesis by simp
qed (use ok in simp_all)

text \<open>A step of \<open>stop\<close> that allocates no node and comes before the end.\<close>

lemma link_stop_alone:
  assumes "link_ok r" and "live s' = live (pool r)" and "nodes s' = nodes (pool r)" and "queued s' = queued (pool r)"
    and "set (workers s') \<subseteq> insert W_wait (set (workers (pool r)))" and "stopper (pool r) \<noteq> S_finished"
  shows "link_ok (r\<lparr>pool := s'\<rparr>)"
  by (rule link_frame [OF assms(1)]) (use assms(2-6) in \<open>auto simp: job_of_def\<close>)

lemma link_stop_send:
  assumes ok: "link_ok r" and nok: "nodes_ok (pool r)" and f: "fresh_node p (pool r)"
    and e: "central_enqueue sh Helper_fn p (pool r) = Inr s'" and st: "stopper (pool r) \<noteq> S_finished"
  shows "link_ok (r\<lparr>pool := s'\<lparr>stopper := t\<rparr>\<rparr>)"
proof -
  note F = central_enqueue_fields [OF e]
  have q: "queued s' = queued (pool r) @ [p]" using enqueue_nodes_ok(2) [OF nok f _ e] by simp
  have p: "p \<notin> set (live (pool r))" using f by (simp add: fresh_node_def)
  have j: "job_of (s'\<lparr>stopper := t\<rparr>) n a \<longleftrightarrow> n \<noteq> p \<and> job_of (pool r) n a" for n a
    by (simp add: job_of_def F(2))
  show ?thesis
    by (rule link_frame [OF ok], unfold j) (use F(1,3) q p st in auto)
qed

lemma link_stop:
  assumes ok: "link_ok r" and inv: "sched_inv (pool r)" and f: "fresh_node p (pool r)"
  shows "link_ok (r\<lparr>pool := stop_step sh p k (stopper (pool r)) (pool r)\<rparr>)"
proof -
  have nok: "nodes_ok (pool r)" using inv by (simp add: sched_inv_def)
  note alone = link_stop_alone [OF ok]
  show ?thesis
  proof (cases "stopper (pool r)")
    case (S_send n)
    then show ?thesis
      by (cases n; cases "central_enqueue sh Helper_fn p (pool r)")
        (simp_all add: ok alone link_stop_send [OF ok nok f] subset_insertI)
  next
    case (S_notify n)
    then show ?thesis using notify_one_workers [of k "pool r"] by simp (rule alone; simp add: queued_def)
  next
    case S_drain
    note D = drain_nodes_ok [OF nok drain_hands_empty [OF inv S_drain] refl]
    from S_drain show ?thesis
      by simp (rule link_frame [OF ok]; use D in simp)
  next
    case S_finished
    with ok show ?thesis by simp
  qed (use alone ok in \<open>simp_all add: subset_insertI\<close>)
qed

lemma runs_node:
  assumes "nodes_ok (pool r)" and "runs r i n a"
  shows "n \<in> set (live (pool r))" and "n \<notin> set (queued (pool r))" and "job_of (pool r) n a"
    and "w \<in> set (workers (pool r)) \<Longrightarrow> verdict_ok w n x"
proof -
  have i: "i < length (workers (pool r))" and pc: "workers (pool r) ! i = W_job n"
    using assms(2) by (simp_all add: runs_def)
  then have h: "n \<in># held (workers (pool r) ! i)" by simp
  show "n \<in> set (live (pool r))" "n \<notin> set (queued (pool r))" by (rule held_live [OF assms(1) i h])+
  show "job_of (pool r) n a" using assms(2) by (simp add: runs_def)
  show "verdict_ok w n x" if w: "w \<in> set (workers (pool r))"
  proof (cases "n \<in># held w")
    case True
    obtain j where "j < length (workers (pool r))" "w = workers (pool r) ! j"
      using w by (auto simp: in_set_conv_nth)
    then have "w = W_job n" using held_unique [OF assms(1) _ i _ h, of j] True pc by simp
    then show ?thesis by simp
  qed (rule verdict_not_held)
qed

lemma runtime_step_link:
  assumes ok: "link_ok r" and inv: "sched_inv (pool r)" and st: "runtime_step hp mx sh r r'"
  shows "link_ok r'"
proof -
  have nok: "nodes_ok (pool r)" using inv by (simp add: sched_inv_def)
  from st show ?thesis
  proof cases
    case (others a y)
    then show ?thesis using link_same_drivers [OF ok] by simp
  next
    case (enqueue i a x q p s')
    then show ?thesis
      using link_enqueue [OF ok nok enqueue(4,5), of "(acts r a)\<lparr>senders := (senders (acts r a))[i := S_out x False q],
        drivers := drivers (acts r a) @ [D_start True]\<rparr>"] by simp
  next
    case (drive i n a ch pc' a')
    note R = runs_node [OF nok drive(2)]
    show ?thesis unfolding drive(1) by (rule link_driver [OF ok R(1,3,2,4)]) simp_all
  next
    case (finish i n a res h' k)
    have "job_of (pool r) n b \<Longrightarrow> b = a" for b using finish(2) by (simp add: runs_def job_of_def)
    moreover have "job_resume v (nodes (pool r) n) = Inr v' \<Longrightarrow> v' = v" for v v'
      using finish(2) by (auto simp: runs_def job_of_def job_resume_def split: if_splits)
    ultimately show ?thesis using link_resume [OF ok, of n "\<lparr>ri_result = res, ri_messages = h'\<rparr>" i] finish(1,3)
      by fastforce
  next
    case (again i n a h' k v)
    show ?thesis unfolding again(1) by (rule link_again [OF ok nok again(2-4)]) simp
  next
    case (notify k)
    then show ?thesis using link_notify [OF ok] by simp
  next
    case (wake i)
    then show ?thesis using link_set_worker [OF ok, of W_wait i] by simp
  next
    case (work i pc k v)
    then show ?thesis using link_work [OF ok nok, of i pc v k] by blast
  next
    case (stop pc p k)
    then show ?thesis using link_stop [OF ok inv, of p sh k] by simp
  qed
qed

lemma runtime_reachable_link:
  assumes "runtime_reachable hp mx sh num h t m r" and "h \<noteq> t"
  shows "link_ok r"
  using assms(1)
proof (induction rule: runtime_reachable.induct)
  case init
  show ?case
    by (simp add: link_ok_def runtime_init_def sched_start_def sched_new_def actor_init_def split: prod.splits)
next
  case (step r r')
  have "sched_inv (pool r)"
    using runtime_reachable_parts [OF step.hyps(1)] sched_reachable_inv [OF _ assms(2)] by (auto simp: parts_ok_def)
  with step show ?case by (blast intro: runtime_step_link)
qed

lemma runtime_facts:
  assumes "runtime_reachable hp mx sh num h t m r" and "h \<noteq> t"
  shows "link_ok r" and "sched_inv (pool r)" and "actor_reachable False hp mx (acts r a)"
  using runtime_reachable_link [OF assms] runtime_reachable_parts [OF assms(1)] sched_reachable_inv [OF _ assms(2)]
  by (auto simp: parts_ok_def)

section \<open>What the link gives\<close>

lemma count_if_unique:
  assumes "count_if P xs \<le> 1" and "i < length xs" and "j < length xs" and "P (xs ! i)" and "P (xs ! j)"
  shows "i = j"
  using assms
proof (induction xs arbitrary: i j)
  case (Cons x xs)
  have none: "\<not> P (xs ! k)" if "P x" "k < length xs" for k
    using that Cons.prems(1) count_if_pos [of k xs P] by auto
  have "count_if P xs \<le> 1" using Cons.prems(1) by (auto split: if_splits)
  with Cons none show ?case by (cases i; cases j) auto
qed simp

lemma active_unique:
  assumes "actor_reachable False hp mx y" and "i < length (drivers y)" and "j < length (drivers y)"
    and "active (drivers y ! i)" and "active (drivers y ! j)"
  shows "i = j"
proof -
  obtain s r d where "protocol_inv False y s r d"
    using actor_reachable_inv [OF assms(1)] by (auto simp: actor_inv_def)
  then have le: "count_if d_token (drivers y) + count_if d_critical (drivers y) \<le> 1"
    by (auto simp: protocol_inv_def single_token_def tokens_def)
  have "count_if active ps \<le> count_if d_token ps + count_if d_critical ps" for ps :: "'a driver_pc list"
    by (induction ps) (auto simp: active_def)
  from this [of "drivers y"] le have "count_if active (drivers y) \<le> 1" by linarith
  then show ?thesis by (rule count_if_unique [OF _ assms(2-5)])
qed

lemma destroying_begun:
  assumes "actor_reachable ext hp mx y" and "is_destroying (state_word (actor y))"
  shows "destruction_begun (destroyer y)"
proof -
  obtain s r d where "protocol_inv ext y s r d"
    using actor_reachable_inv [OF assms(1)] by (auto simp: actor_inv_def)
  then show ?thesis using assms(2) not_begun by (auto simp: protocol_inv_def)
qed

lemma active_wanted:
  assumes "actor_reachable False hp mx y" and "\<not> is_destroying (state_word (actor y))"
    and "\<not> am_blocked (mbox (actor y))"
  shows "(\<exists>j < length (drivers y). active (drivers y ! j)) \<or> (\<exists>x \<in> set (senders y). s_owes x \<or> s_unblocks x)"
proof (rule ccontr)
  assume no: "\<not> ?thesis"
  have "\<not> active x" if "x \<in> set (drivers y)" for x using no that by (metis in_set_conv_nth)
  then have "count_if d_token (drivers y) = 0" "count_if d_critical (drivers y) = 0"
    by (auto simp: active_def count_if_0_iff)
  moreover have "count_if s_owes (senders y) = 0" "count_if s_unblocks (senders y) = 0"
    using no by (auto simp: count_if_0_iff)
  moreover obtain s r d where "protocol_inv False y s r d"
    using actor_reachable_inv [OF assms(1)] by (auto simp: actor_inv_def)
  ultimately show False using assms(2,3) by (auto simp: protocol_inv_def wake_def tokens_def)
qed

text \<open>A node that is about to run its actor, or is in it.\<close>

definition takes :: "'m runtime \<Rightarrow> nat \<Rightarrow> nat \<Rightarrow> bool" where
  "takes r n a \<longleftrightarrow> job_of (pool r) n a \<and>
     (n \<in> set (queued (pool r)) \<or> (\<exists>i. runs r i n a \<and> d_critical (driver_at r n a)))"

lemma takes_active:
  assumes "link_ok r" and "nodes_ok (pool r)" and "takes r n a"
  shows "n \<in> set (live (pool r)) \<and> active (driver_at r n a)"
  using assms(3) queued_live [OF assms(2), of n] link_live(2) [OF assms(1), of n a] runs_node(1) [OF assms(2), of _ n a]
  by (auto simp: takes_def active_def)

lemma runtime_reachable_wanted:
  assumes "runtime_reachable hp mx sh num h t m r" and "h \<noteq> t" and "stopper (pool r) \<noteq> S_finished"
    and "\<not> am_blocked (mbox (actor (acts r a)))"
  shows "(\<exists>n. job_of (pool r) n a \<and> (n \<in> set (queued (pool r)) \<or> n \<in># handed (pool r))) \<or>
    (\<exists>x \<in> set (senders (acts r a)). s_owes x \<or> s_unblocks x) \<or> destruction_begun (destroyer (acts r a))"
proof -
  note link = runtime_facts(1) [OF assms(1,2)] and P = runtime_facts(3) [OF assms(1,2), of a] runtime_facts(2) [OF assms(1,2)]
  have m: "mset (live (pool r)) = mset (queued (pool r)) + handed (pool r)"
    using P(2) by (simp add: sched_inv_def nodes_ok_def)
  have split: "n \<in> set (live (pool r)) \<longleftrightarrow> n \<in> set (queued (pool r)) \<or> n \<in># handed (pool r)" for n
    unfolding set_mset_mset [symmetric] m by simp
  show ?thesis
  proof (cases "\<exists>j < length (drivers (acts r a)). active (drivers (acts r a) ! j)")
    case True
    then obtain n where "n \<in> set (live (pool r))" "job_of (pool r) n a"
      using link_bound [OF link assms(3)] by blast
    then show ?thesis using split by blast
  qed (use active_wanted [OF P(1) _ assms(4)] destroying_begun [OF P(1)] in blast)
qed

text \<open>Before \<open>stop\<close> a worker that cannot move is asleep.\<close>

lemma running_worker:
  assumes "sched_inv s" and "stopper s = S_running" and "w \<in> set (workers s)"
  shows "w = W_blocked \<or> movable w"
proof -
  have "count_if leaving (workers s) = 0" and ok: "worker_ok (nodes s) w"
    using assms by (simp_all add: sched_inv_def stop_ok_def Let_def)
  then have "\<not> leaving w" using assms(3) by (simp add: count_if_0_iff)
  with ok show ?thesis by (cases w) (auto simp: movable_def)
qed

text \<open>
  A worker's step while there are jobs in the queue: it does not fall asleep, and it takes the first job
  when it looks and leaves them in place otherwise.
\<close>

definition serves :: "resume_info \<Rightarrow> nat \<Rightarrow> nat \<Rightarrow> sched \<Rightarrow> bool" where
  "serves v k i s \<longleftrightarrow>
     (let s' = worker_step v k i (workers s ! i) s
      in workers s' ! i \<noteq> W_blocked \<and>
         (if workers s ! i = W_wait
          then workers s' ! i = W_job (hd (queued s)) \<and> queued s' = tl (queued s)
          else take (length (queued s)) (queued s') = queued s))"

lemma awake_serves:
  assumes inv: "sched_inv s" and i: "i < length (workers s)" and awake: "workers s ! i \<noteq> W_blocked"
    and q: "queued s \<noteq> []"
  shows "serves v k i s"
proof -
  have nok: "nodes_ok s" using inv by (simp add: sched_inv_def)
  then have pq: "pushed s = popped s @ queued s" by (simp add: nodes_ok_def)
  have qs: "queued (set_worker i w s') = queued s'" for w s' by (simp add: set_worker_def)
  have qd: "queued (delete_job n s') = queued s'" for n s' by (simp add: delete_job_def queued_def)
  have qm: "queued (s\<lparr>memory := m, live := l\<rparr>) = queued s" for m l by (simp add: queued_def)
  have qn: "queued (notify_one k s) = queued s" by (simp add: notify_one_def)
  have ln: "length (workers (notify_one k s)) = length (workers s)" by (simp add: notify_one_def)
  obtain p xs where px: "queued s = p # xs" using q by (cases "queued s") auto
  show ?thesis
  proof (cases "workers s ! i")
    case W_wait
    note D = dequeue_nodes_ok(3) [OF nok i W_wait px]
    have "workers (dequeue i s) = (workers s)[i := W_job p]" by (subst conjunct2 [OF D]) (simp add: set_worker_def)
    then show ?thesis using W_wait D i px by (simp add: serves_def)
  next
    case (W_job n)
    then show ?thesis
      using i by (auto simp: serves_def worker_resume_def set_worker_def queued_def split: sum.splits)
  next
    case (W_done n res)
    then show ?thesis
      using i by (cases "ri_result res") (simp_all add: serves_def worker_switch_def qs qd set_worker_def [of _ _ s] set_worker_def [of _ _ "delete_job n s"] delete_job_def qm)
  next
    case (W_later n)
    then show ?thesis using i queued_push [OF pq, of n] by (simp add: serves_def qs set_worker_def [of _ _ "queue_push n s"])
  next
    case W_notify
    then show ?thesis using i ln by (simp add: serves_def qs qn set_worker_def [of _ _ "notify_one k s"])
  qed (use awake in \<open>simp_all add: serves_def\<close>)
qed

lemma queue_moves:
  assumes inv: "sched_inv s" and st: "stopper s = S_running" and ws: "workers s \<noteq> []" and q: "queued s \<noteq> []"
  shows "0 < callers s \<or> (\<exists>w \<in> set (workers s). movable w)"
proof (rule ccontr)
  assume no: "\<not> ?thesis"
  have asleep: "w = W_blocked" if "w \<in> set (workers s)" for w
    using running_worker [OF inv st that] no that by blast
  then have "W_blocked \<in> set (workers s)" using ws by (metis list.set_intros(1) neq_Nil_conv)
  moreover have "count_if will_look (workers s) = 0"
    unfolding count_if_0_iff by (intro ballI) (frule asleep, simp)
  ultimately show False using inv q no st by (simp add: sched_inv_def wake_ok_def)
qed

lemma handed_holder:
  assumes "n \<in># handed s"
  obtains i where "i < length (workers s)" and "n \<in># held (workers s ! i)"
proof -
  have "\<exists>w \<in> set ws. n \<in># held w" if "n \<in># sum_list (map held ws)" for ws
    using that by (induction ws) auto
  from this [of "workers s"] assms obtain w where "w \<in> set (workers s)" "n \<in># held w" by (auto simp: handed_def)
  then show ?thesis using that by (auto simp: in_set_conv_nth)
qed

text \<open>The worker \<open>i\<close> with the node \<open>n\<close> has made a step, of its own or of its call of \<open>resume\<close>.\<close>

definition moved_on :: "nat \<Rightarrow> nat \<Rightarrow> nat \<Rightarrow> 'm runtime \<Rightarrow> 'm runtime \<Rightarrow> bool" where
  "moved_on i n a r r' \<longleftrightarrow>
     workers (pool r') ! i \<noteq> workers (pool r) ! i \<or> driver_at r' n a \<noteq> driver_at r n a"

lemma may_wake_exists: "\<exists>k. may_wake k s"
  by (auto simp: may_wake_def in_set_conv_nth)

lemma driver_advances:
  assumes "\<And>res h. p \<noteq> D_out res h" and "\<And>f. p \<noteq> D_fault f"
  shows "fst (driver_step hp mx calm p a) \<noteq> p"
  using assms by (cases p) (auto simp: calm_def split: if_splits sum.splits bool.splits prod.splits option.splits)

lemma holder_moves:
  assumes reach: "runtime_reachable hp mx sh num h t m r" and ne: "h \<noteq> t" and mx: "0 < mx"
    and st: "stopper (pool r) = S_running" and i: "i < length (workers (pool r))"
    and n: "n \<in># held (workers (pool r) ! i)" and job: "job_of (pool r) n a"
    and nb: "\<not> destruction_begun (destroyer (acts r a))"
  shows "\<exists>r'. runtime_step hp mx sh r r' \<and> moved_on i n a r r'"
proof -
  note link = runtime_facts(1) [OF reach ne] and inv = runtime_facts(2) [OF reach ne]
    and A = runtime_facts(3) [OF reach ne, of a]
  have nok: "nodes_ok (pool r)" using inv by (simp add: sched_inv_def)
  note L = link_live [OF link held_live(1) [OF nok i n] job]
  have d: "driver_at r n a \<in> set (drivers (acts r a))" using L(1) by (simp add: driver_at_def)
  obtain k where k: "may_wake k (pool r)" using may_wake_exists by blast
  have w: "workers (pool r) ! i \<in> set (workers (pool r))" using i by simp
  have fn: "j_fn (nodes (pool r) n) = Actor_fn" using job by (simp add: job_of_def)
  show ?thesis
  proof (cases "workers (pool r) ! i")
    case (W_job n')
    then have pc: "workers (pool r) ! i = W_job n" using n by simp
    then have run: "runs r i n a" using i job L(1) by (simp add: runs_def)
    show ?thesis
    proof (cases "\<exists>res h. driver_at r n a = D_out res h")
      case True
      then obtain res h where o: "driver_at r n a = D_out res h" by blast
      note s = runtime_step.finish [OF run o k, of hp mx sh]
      have "workers (worker_resume v i n (pool r)) ! i \<noteq> W_job n" for v
        using i by (auto simp: worker_resume_def set_worker_def split: sum.splits)
      then show ?thesis using s pc by (auto simp: moved_on_def)
    next
      case False
      obtain pc' a' where s: "driver_step hp mx calm (driver_at r n a) (actor (acts r a)) = (pc', a')" by fastforce
      have "driver_at r n a \<noteq> D_fault f" for f using resume_never_faults_all [OF A, of f] d by auto
      then have "pc' \<noteq> driver_at r n a"
        using driver_advances [of "driver_at r n a" hp mx "actor (acts r a)"] False s by auto
      moreover have "\<not> drained (destroyer (acts r a))" using nb by (cases "destroyer (acts r a)") auto
      ultimately show ?thesis
        using runtime_step.drive [OF run _ mx s, of sh] L(1)
        by (auto simp: moved_on_def driver_at_def mx)
    qed
  next
    case (W_done n' res)
    then have "runtime_step hp mx sh r (r\<lparr>pool := worker_step \<lparr>ri_result = Done, ri_messages = 0\<rparr> k i (W_done n' res) (pool r)\<rparr>)"
      using i k by (intro runtime_step.work) auto
    moreover have "workers (worker_switch i n' res (pool r)) ! i \<noteq> W_done n' res"
      using i by (auto simp: worker_switch_def set_worker_def delete_job_def split: resume_result.splits)
    ultimately show ?thesis using W_done by (auto simp: moved_on_def)
  next
    case (W_later n')
    then have pc: "workers (pool r) ! i = W_later n" using n by simp
    then obtain h where o: "driver_at r n a = D_out Resume h" using L(3) [OF w] by auto
    note s = runtime_step.again [OF i pc job L(1) o k, of "\<lparr>ri_result = Done, ri_messages = 0\<rparr>" hp mx sh]
    have "workers (set_worker i W_notify (queue_push n (pool r))) ! i \<noteq> W_later n"
      using i by (simp add: set_worker_def)
    then show ?thesis using s pc by (auto simp: moved_on_def)
  qed (use n in simp_all)
qed

section \<open>A concrete run\<close>

fun env_move :: "'m move \<Rightarrow> bool" where
  "env_move (M_send x) \<longleftrightarrow> True"
| "env_move (M_sender i) \<longleftrightarrow> True"
| "env_move _ \<longleftrightarrow> False"

lemma env_move_drivers: "env_move mv \<Longrightarrow> drivers (actor_move ext hp mx mv y) = drivers y"
  by (cases mv) (auto simp: actor_move_def split: prod.splits)

lemma set_act_same: "set_act a (acts r a) r = r"
  by (simp add: set_act_def)

lemma set_act_twice: "set_act a z (set_act a y r) = set_act a z r"
  by (simp add: set_act_def)

lemma runtime_others:
  assumes "runtime_reachable hp mx sh num h t m r" and "list_all env_move mvs"
  shows "runtime_reachable hp mx sh num h t m (set_act a (fold (actor_move False hp mx) mvs (acts r a)) r)"
  using assms
proof (induction mvs arbitrary: r)
  case (Cons mv mvs)
  let ?r = "set_act a (actor_move False hp mx mv (acts r a)) r"
  have "?r = r \<or> runtime_step hp mx sh r ?r"
    using actor_move_cases [of False hp mx mv "acts r a"] Cons.prems(2) set_act_same [of a r]
    by (auto intro!: runtime_step.others simp: env_move_drivers)
  then have "runtime_reachable hp mx sh num h t m ?r" using Cons.prems(1) runtime_reachable.step by metis
  from Cons.IH [OF this] Cons.prems(2) show ?case by (simp add: set_act_twice)
qed (simp add: set_act_same)

text \<open>
  The actor 7 has accepted its first message; the caller of \<open>send\<close> has put it into the queue.
\<close>

definition demo_pool :: sched where
  "demo_pool = sched_start 1 demo_new"

definition demo_queued :: sched where
  "demo_queued = (case central_enqueue 7 Actor_fn 10 demo_pool of Inl f \<Rightarrow> demo_pool | Inr s \<Rightarrow> s)"

definition demo_sent :: "nat actor_world" where
  "demo_sent = \<lparr>actor = \<lparr>state_word = 1, mbox = \<lparr>urgent = [], normal = [], arrivals = Open [7]\<rparr>,
                 busy = False, handled_log = [], skipped_log = []\<rparr>,
     senders = [S_out 7 True Unblocked_reader], drivers = [], destroyer = X_alive\<rparr>"

definition demo_runtime :: "nat runtime" where
  "demo_runtime = set_act 7 (demo_sent\<lparr>senders := [S_out 7 False Unblocked_reader], drivers := [D_start True]\<rparr>)
     \<lparr>acts = (\<lambda>_. actor_init)(7 := demo_sent), pool = demo_queued\<lparr>callers := 1\<rparr>, driver_of = (\<lambda>_. 0)(10 := 0)\<rparr>"

lemma demo_sent_run: "fold (actor_move False (\<lambda>_. False) 5) (take 6 busy_schedule) actor_init = demo_sent"
  by (simp add: run_simps busy_schedule_def demo_sent_def)

lemma demo_runtime_reachable: "runtime_reachable (\<lambda>_. False) 5 9 1 1 2 \<lparr>nxt = (\<lambda>_. 0), freed = []\<rparr> demo_runtime"
proof -
  let ?r = "set_act 7 demo_sent (runtime_init 1 1 2 \<lparr>nxt = (\<lambda>_. 0), freed = []\<rparr>)"
  have "list_all env_move (take 6 busy_schedule)" by (simp add: busy_schedule_def)
  from runtime_others [OF runtime_reachable.init this, of "\<lambda>_. False" 5 9 1 1 2 "\<lparr>nxt = (\<lambda>_. 0), freed = []\<rparr>" 7]
  have reach: "runtime_reachable (\<lambda>_. False) 5 9 1 1 2 \<lparr>nxt = (\<lambda>_. 0), freed = []\<rparr> ?r"
    by (simp add: runtime_init_def demo_sent_run)
  have p: "pool ?r = demo_pool" by (simp add: runtime_init_def demo_pool_def demo_new_def)
  have f: "fresh_node 10 (pool ?r)" unfolding p by (simp add: fresh_node_def demo_pool_def demo_simps)
  have e: "central_enqueue 7 Actor_fn 10 (pool ?r) = Inr demo_queued"
    unfolding p by (simp add: demo_queued_def central_enqueue_def new_job_def job_ptr_new_def)
  have c: "callers demo_queued = 0" by (simp add: demo_queued_def demo_pool_def demo_simps)
  have "runtime_step (\<lambda>_. False) 5 9 ?r demo_runtime"
    using runtime_step.enqueue [of 0 ?r 7 7 Unblocked_reader, OF _ _ f e, of "\<lambda>_. False" 5 9]
    by (simp add: demo_sent_def c demo_runtime_def set_act_def runtime_init_def)
  then show ?thesis by (rule runtime_reachable.step [OF reach])
qed

lemma demo_runtime_state:
  "live (pool demo_runtime) = [10]" "queued (pool demo_runtime) = [10]" "stopper (pool demo_runtime) = S_running"
  "workers (pool demo_runtime) = [W_wait]"
  "nodes (pool demo_runtime) 10 = \<lparr>j_ptr = 7, j_fn = Actor_fn\<rparr>" "driver_of demo_runtime 10 = 0"
  "acts demo_runtime 7 = demo_sent\<lparr>senders := [S_out 7 False Unblocked_reader], drivers := [D_start True]\<rparr>"
  by (simp_all add: demo_runtime_def demo_queued_def demo_pool_def demo_simps queued_def)

section \<open>Properties\<close>

text \<open>C2: An actor is scheduled at most once. In every interleaving of senders, destructors, workers
  and \<open>stop\<close> at most one job node of an actor waits in the queue or is in the hands of a worker inside the
  actor, and a node is in the hands of one worker only: no two workers ever run the same actor.\<close>

theorem runtime_single_run:
  assumes "runtime_reachable hp mx sh num h t m r" and "h \<noteq> t" and "takes r n a" and "takes r n' a"
  shows "n = n' \<and> (runs r i n a \<and> runs r i' n' a \<longrightarrow> i = i')"
proof -
  note link = runtime_facts(1) [OF assms(1,2)] and P = runtime_facts(3) [OF assms(1,2), of a] runtime_facts(2) [OF assms(1,2)]
  then have nok: "nodes_ok (pool r)" by (simp add: sched_inv_def)
  note T = takes_active [OF link nok assms(3)] takes_active [OF link nok assms(4)]
  have j: "job_of (pool r) n a" "job_of (pool r) n' a" using assms(3,4) by (simp_all add: takes_def)
  have "driver_of r n = driver_of r n'"
    by (rule active_unique [OF P(1)]) (use T j link_live(1) [OF link] in \<open>simp_all add: driver_at_def\<close>)
  then have n: "n = n'" using link_live(4) [OF link, of n' a n] T j by simp
  moreover have "i = i'" if "runs r i n a" "runs r i' n' a"
    by (rule held_unique [OF nok, of i i' n]) (use that n in \<open>simp_all add: runs_def\<close>)
  ultimately show ?thesis by simp
qed

theorem runtime_single_run_witness: "{n. takes demo_runtime n 7} = {10}"
proof -
  have T: "takes demo_runtime 10 7" by (simp add: takes_def job_of_def demo_runtime_state)
  have "n = 10" if "takes demo_runtime n 7" for n
    using conjunct1 [OF runtime_single_run [OF demo_runtime_reachable _ that T]] by simp
  with T show ?thesis by blast
qed

text \<open>C3: No actor is forgotten. Until \<open>stop\<close> has returned, an actor whose mailbox is not parked has a job
  node that is queued or in the hands of a worker, or a caller of \<open>send\<close> still has to enqueue it, or a
  sender that unparked it has yet to leave, or the actor's destructor has published that it is being
  destroyed, after which its messages are skipped.\<close>

theorem runtime_no_lost_wakeup:
  assumes "runtime_reachable hp mx sh num h t m r" and "h \<noteq> t" and "stopper (pool r) \<noteq> S_finished"
    and "\<not> am_blocked (mbox (actor (acts r a)))"
  shows "(\<exists>n. job_of (pool r) n a \<and> (n \<in> set (queued (pool r)) \<or> n \<in># handed (pool r))) \<or>
    (\<exists>x \<in> set (senders (acts r a)). s_owes x \<or> s_unblocks x) \<or> destruction_begun (destroyer (acts r a))"
  by (rule runtime_reachable_wanted [OF assms])

theorem runtime_no_lost_wakeup_witness:
  "\<exists>n. job_of (pool demo_runtime) n 7 \<and> (n \<in> set (queued (pool demo_runtime)) \<or> n \<in># handed (pool demo_runtime))"
  using runtime_no_lost_wakeup [OF demo_runtime_reachable, of 7]
  by (simp add: demo_runtime_state demo_sent_def am_blocked_def)

text \<open>C37: An actor with work never gets stuck. While \<open>stop\<close> has not been called and there are workers, with
  a positive limit, an actor whose mailbox is not parked is looked after: a sender owes the enqueue or has yet to leave; or a
  worker has a job node of it in its hands and its next step is possible; or a job node of it is in the
  queue, somebody can move, and every worker that is awake stays so and moves the node forward, each look
  at the queue taking the first node out; or the actor's destructor has published that it is being
  destroyed.\<close>

theorem runtime_progress:
  assumes "runtime_reachable hp mx sh num h t m r" and "h \<noteq> t" and "0 < mx" and "stopper (pool r) = S_running"
    and "workers (pool r) \<noteq> []" and "\<not> am_blocked (mbox (actor (acts r a)))"
  shows "(\<exists>x \<in> set (senders (acts r a)). s_owes x \<or> s_unblocks x) \<or>
    (\<exists>i n. i < length (workers (pool r)) \<and> n \<in># held (workers (pool r) ! i) \<and> job_of (pool r) n a \<and>
       (\<exists>r'. runtime_step hp mx sh r r' \<and> moved_on i n a r r')) \<or>
    (\<exists>n \<in> set (queued (pool r)). job_of (pool r) n a \<and>
       (0 < callers (pool r) \<or> (\<exists>w \<in> set (workers (pool r)). movable w)) \<and>
       (\<forall>i v k. i < length (workers (pool r)) \<and> workers (pool r) ! i \<noteq> W_blocked \<longrightarrow> serves v k i (pool r))) \<or>
    destruction_begun (destroyer (acts r a))"
proof -
  note inv = runtime_facts(2) [OF assms(1,2)]
  consider "(\<exists>x \<in> set (senders (acts r a)). s_owes x \<or> s_unblocks x) \<or> destruction_begun (destroyer (acts r a))"
    | n where "n \<in># handed (pool r)" "job_of (pool r) n a" "\<not> destruction_begun (destroyer (acts r a))"
    | n where "n \<in> set (queued (pool r))" "job_of (pool r) n a"
    using runtime_reachable_wanted [OF assms(1,2) _ assms(6)] assms(4) by auto
  then show ?thesis
  proof cases
    case (2 n)
    then obtain i where i: "i < length (workers (pool r))" "n \<in># held (workers (pool r) ! i)"
      using handed_holder by blast
    from holder_moves [OF assms(1-4) i 2(2,3)] i 2(2) show ?thesis by blast
  next
    case (3 n)
    then have "queued (pool r) \<noteq> []" by auto
    from queue_moves [OF inv assms(4,5) this] awake_serves [OF inv _ _ this] 3 show ?thesis by blast
  qed blast
qed

theorem runtime_progress_witness:
  "0 < callers (pool demo_runtime) \<or> (\<exists>w \<in> set (workers (pool demo_runtime)). movable w)"
  using runtime_progress [OF demo_runtime_reachable, of 7]
  by (simp add: demo_runtime_state demo_sent_def am_blocked_def less_Suc_eq)

end
