(* ===== verification/Resume_Run.thy ===== *)
theory Resume_Run
  imports Actor_Protocol
begin

text \<open>
  One call of \<open>resume\<close> (\<open>actor/cooperative_actor.hpp\<close>) from its first access to its verdict: what
  it does when no other thread moves meanwhile, and how many accesses it can make when they do.
\<close>

section \<open>Alone\<close>

text \<open>Behaviors finish at once and no compare-exchange fails.\<close>

definition solo :: "('m \<Rightarrow> bool) \<Rightarrow> nat \<Rightarrow> 'm driver_pc \<times> 'm actor_sys \<Rightarrow> 'm driver_pc \<times> 'm actor_sys" where
  "solo hp mx = (\<lambda>(p, a). driver_step hp mx calm p a)"

definition leads :: "('m \<Rightarrow> bool) \<Rightarrow> nat \<Rightarrow> 'm driver_pc \<times> 'm actor_sys \<Rightarrow> 'm driver_pc \<times> 'm actor_sys \<Rightarrow> bool" where
  "leads hp mx s t \<longleftrightarrow> (\<exists>n. (solo hp mx ^^ n) s = t)"

text \<open>The messages in the order \<open>pop_front\<close> gives them once the inbox has been fetched.\<close>

definition pop_order :: "('m \<Rightarrow> bool) \<Rightarrow> 'm mailbox \<Rightarrow> 'm list" where
  "pop_order hp mb = urgent mb @ rev (filter hp (ib_elems (arrivals mb))) @
     normal mb @ rev (filter (\<lambda>x. \<not> hp x) (ib_elems (arrivals mb)))"

lemma leads_refl: "leads hp mx s s"
  unfolding leads_def by (rule exI [of _ 0]) simp

lemma leads_step: "leads hp mx (driver_step hp mx calm p a) t \<Longrightarrow> leads hp mx (p, a) t"
proof -
  assume "leads hp mx (driver_step hp mx calm p a) t"
  then obtain n where "(solo hp mx ^^ n) (solo hp mx (p, a)) = t" by (auto simp: leads_def solo_def)
  then have "(solo hp mx ^^ Suc n) (p, a) = t" by (simp only: funpow_Suc_right o_apply)
  then show ?thesis unfolding leads_def by blast
qed

lemma calm_simps [simp]:
  "spurious calm = False" "awaited_ready calm = False" "busy_after_behavior calm = False"
  by (simp_all add: calm_def)

text \<open>The actor while it runs, its inbox already fetched.\<close>

definition running_actor :: "bool \<Rightarrow> nat \<Rightarrow> 'm list \<Rightarrow> 'm list \<Rightarrow> 'm list \<Rightarrow> 'm list \<Rightarrow> 'm actor_sys" where
  "running_actor d n sk us ns l =
     \<lparr>state_word = actor_word False True d n, mbox = \<lparr>urgent = us, normal = ns, arrivals = Open []\<rparr>,
      busy = False, handled_log = l, skipped_log = sk\<rparr>"

definition rested_actor :: "nat \<Rightarrow> 'm list \<Rightarrow> 'm list \<Rightarrow> 'm list \<Rightarrow> 'm list \<Rightarrow> 'm actor_sys" where
  "rested_actor n sk us ns l =
     \<lparr>state_word = actor_word (us \<noteq> [] \<or> ns \<noteq> []) False False n,
      mbox = \<lparr>urgent = us, normal = ns, arrivals = if us = [] \<and> ns = [] then Blocked else Open []\<rparr>,
      busy = False, handled_log = l, skipped_log = sk\<rparr>"

lemmas run_defs = running_actor_def rested_actor_def released_result_def am_blocked_def am_closed_def am_pop_def
  am_take_def am_fetch_def am_empty_def am_try_block_def

lemma park_leads:
  "leads hp mx (D_park h, running_actor False n sk us ns l)
     (D_out (if us = [] \<and> ns = [] then Awaiting else Resume) h, rested_actor n sk us ns l)"
proof (cases "us = [] \<and> ns = []")
  case True
  then show ?thesis
    by (intro leads_step) (simp add: run_defs, intro leads_step, simp add: run_defs, intro leads_step,
      simp add: run_defs, intro leads_step, simp add: run_defs leads_refl)
next
  case False
  then have ne: "(us \<noteq> [] \<or> ns \<noteq> []) = True" "(us = [] \<and> ns = []) = False" by auto
  have block: "am_try_block \<lparr>urgent = us, normal = ns, arrivals = Open []\<rparr> =
      (False, \<lparr>urgent = us, normal = ns, arrivals = Open []\<rparr>)"
    using False by (auto simp: am_try_block_def)
  show ?thesis
    unfolding running_actor_def rested_actor_def ne
    by (intro leads_step) (simp add: block, intro leads_step, simp,
      intro leads_step, simp add: released_result_def leads_refl)
qed

text \<open>One round of the loop with a message to pop, and the ways out of it.\<close>

lemma round_leads:
  assumes "h < mx" and "us @ ns = x # rest"
    and "us' = tl us" and "ns' = (if us = [] then rest else ns)"
    and "leads hp mx (D_loop (h + 1), running_actor False n sk us' ns' (l @ [x])) t"
  shows "leads hp mx (D_loop h, running_actor False n sk us ns l) t"
proof -
  have pop: "am_pop hp \<lparr>urgent = us, normal = ns, arrivals = Open []\<rparr> =
      Inr (Some x, \<lparr>urgent = us', normal = ns', arrivals = Open []\<rparr>)"
    using assms(2-4) by (cases us) (auto simp: am_pop_def am_take_def)
  show ?thesis
    using assms(1,5) unfolding running_actor_def
    by (intro leads_step) (simp, intro leads_step, simp add: am_closed_def, intro leads_step, simp add: am_blocked_def,
      intro leads_step, simp, intro leads_step, simp, intro leads_step, simp add: pop, intro leads_step, simp)
qed

lemma empty_leads:
  assumes "leads hp mx (D_park h, running_actor False n sk [] [] l) t"
  shows "leads hp mx (D_loop h, running_actor False n sk [] [] l) t"
proof (cases "h < mx")
  case True
  then show ?thesis
    using assms unfolding running_actor_def
    by (intro leads_step) (simp, intro leads_step, simp add: am_closed_def, intro leads_step, simp add: am_blocked_def,
      intro leads_step, simp, intro leads_step, simp, intro leads_step, simp add: run_defs, intro leads_step,
      simp add: am_closed_def)
next
  case False
  then show ?thesis
    using assms unfolding running_actor_def
    by (intro leads_step) (simp, intro leads_step, simp add: am_closed_def, intro leads_step, simp)
qed

lemma full_leads:
  assumes "leads hp mx (D_park mx, running_actor False n sk us ns l) t"
  shows "leads hp mx (D_loop mx, running_actor False n sk us ns l) t"
  using assms unfolding running_actor_def
  by (intro leads_step) (simp, intro leads_step, simp add: am_closed_def, intro leads_step, simp)

lemma loop_leads:
  assumes "h \<le> mx"
  shows "leads hp mx (D_loop h, running_actor False n sk us ns l)
    (D_out (if h + length (us @ ns) \<le> mx then Awaiting else Resume) (min mx (h + length (us @ ns))),
     rested_actor n sk (drop (mx - h) us) (drop (mx - h - length us) ns) (l @ take (mx - h) (us @ ns)))"
  using assms
proof (induction "mx - h" arbitrary: h us ns l)
  case 0
  then have h: "h = mx" by simp
  have "leads hp mx (D_loop mx, running_actor False n sk us ns l)
      (D_out (if us = [] \<and> ns = [] then Awaiting else Resume) mx, rested_actor n sk us ns l)"
    by (rule full_leads [OF park_leads])
  then show ?case unfolding h by (simp add: min_def)
next
  case (Suc k)
  show ?case
  proof (cases "us @ ns")
    case Nil
    have "leads hp mx (D_loop h, running_actor False n sk [] [] l) (D_out Awaiting h, rested_actor n sk [] [] l)"
      using park_leads [of hp mx h n sk "[]" "[]" l] by (intro empty_leads) simp
    then show ?thesis using Nil Suc.prems by (auto simp: min_def)
  next
    case (Cons x rest)
    let ?us = "tl us" and ?ns = "if us = [] then rest else ns"
    have rest: "?us @ ?ns = rest" using Cons by (cases us) auto
    have k: "k = mx - (h + 1)" "h + 1 \<le> mx" "mx - h = Suc k" "h < mx" using Suc.hyps(2) by auto
    have d: "drop (mx - (h + 1)) ?us = drop (mx - h) us"
      "drop (mx - (h + 1) - length ?us) ?ns = drop (mx - h - length us) ns"
      using Cons k by (cases us; simp)+
    have "leads hp mx (D_loop (h + 1), running_actor False n sk ?us ?ns (l @ [x]))
      (D_out (if h + 1 + length rest \<le> mx then Awaiting else Resume) (min mx (h + 1 + length rest)),
       rested_actor n sk (drop (mx - h) us) (drop (mx - h - length us) ns) (l @ [x] @ take (mx - (h + 1)) rest))"
      using Suc.hyps(1) [OF k(1,2), of ?us ?ns "l @ [x]"] unfolding rest d by simp
    from round_leads [OF k(4) Cons refl refl this] k(3) show ?thesis unfolding Cons k(1) by simp
  qed
qed

text \<open>From the call to the first look at the mailbox.\<close>

definition fetched :: "('m \<Rightarrow> bool) \<Rightarrow> 'm mailbox \<Rightarrow> 'm list \<times> 'm list" where
  "fetched hp mb = (urgent mb @ rev (filter hp (ib_elems (arrivals mb))),
     normal mb @ rev (filter (\<lambda>x. \<not> hp x) (ib_elems (arrivals mb))))"

lemma enter_leads:
  assumes "\<not> is_running (state_word a)" and "\<not> is_destroying (state_word a)" and "arrivals (mbox a) \<noteq> Closed"
    and "\<not> busy a" and "state_word a = actor_word s r d n" and "fetched hp (mbox a) = (us, ns)"
    and "leads hp mx (D_loop 0, running_actor False n (skipped_log a) us ns (handled_log a)) t"
    and "us = [] \<Longrightarrow> ns = [] \<Longrightarrow> leads hp mx (D_park 0, running_actor False n (skipped_log a) us ns (handled_log a)) t"
    and "0 < mx"
  shows "leads hp mx (D_start tok, a) t"
proof -
  have r: "r = False" "d = False" using assms(1,2,5) by simp_all
  obtain xs where un: "arrivals (snd (am_try_unblock (mbox a))) = Open xs" and
    q: "urgent (snd (am_try_unblock (mbox a))) = urgent (mbox a)" "normal (snd (am_try_unblock (mbox a))) = normal (mbox a)"
    and xs: "xs = ib_elems (arrivals (mbox a))"
    using assms(3) by (cases "arrivals (mbox a)") (auto simp: am_try_unblock_def)
  have e: "am_empty hp (snd (am_try_unblock (mbox a))) =
      Inr (us = [] \<and> ns = [], \<lparr>urgent = us, normal = ns, arrivals = Open []\<rparr>)"
    using assms(6) un q xs by (simp add: am_empty_def am_fetch_def fetched_def)
  have b: "a = \<lparr>state_word = actor_word s False False n, mbox = mbox a, busy = False, handled_log = handled_log a, skipped_log = skipped_log a\<rparr>"
    using assms(4,5) r by (cases a) simp
  have nb: "\<not> am_blocked (snd (am_try_unblock (mbox a)))" using un by (simp add: am_blocked_def)
  have nc: "\<not> am_closed (mbox a)" using assms(3) by (simp add: am_closed_def)
  show ?thesis
    apply (subst b)
    apply (rule leads_step, simp add: gr_implies_not0 [OF assms(9)])
    apply (rule leads_step, simp)
    apply (rule leads_step, simp)
    apply (rule leads_step, simp add: nc)
    apply (rule leads_step, simp)
    apply (rule leads_step, simp)
    apply (rule leads_step, simp add: nb)
    apply (rule leads_step, simp add: e)
    using assms(7,8) by (simp add: running_actor_def)
qed

section \<open>However the others move\<close>









section \<open>Properties\<close>

text \<open>C6: What \<open>resume\<close> does. Called with a positive limit on an actor at rest whose behaviors finish at once, with no other
  thread moving, it handles its messages in mailbox order, urgent ones first, up to the limit; it parks
  the mailbox and answers \<open>awaiting\<close> exactly if none is left, and answers \<open>resume\<close> with the scheduled bit
  set otherwise.\<close>

theorem resume_alone:
  assumes "\<not> is_running (state_word a)" and "\<not> is_destroying (state_word a)" and "arrivals (mbox a) \<noteq> Closed"
    and "\<not> busy a" and "0 < mx"
  shows "\<exists>k a'. (solo hp mx ^^ k) (D_start tok, a) =
      (D_out (if length (pop_order hp (mbox a)) \<le> mx then Awaiting else Resume)
        (min mx (length (pop_order hp (mbox a)))), a') \<and>
    handled_log a' = handled_log a @ take mx (pop_order hp (mbox a)) \<and>
    mb_elems (mbox a') = drop mx (pop_order hp (mbox a)) \<and>
    am_blocked (mbox a') = (length (pop_order hp (mbox a)) \<le> mx) \<and>
    is_scheduled (state_word a') = (mx < length (pop_order hp (mbox a))) \<and>
    skipped_log a' = skipped_log a \<and> \<not> is_running (state_word a') \<and> sender_count (state_word a') = sender_count (state_word a)"
proof -
  obtain s r d n where w: "state_word a = actor_word s r d n" and n: "n \<le> max_senders" by (rule actor_word_surj)
  obtain us ns where f: "fetched hp (mbox a) = (us, ns)" by fastforce
  have po: "pop_order hp (mbox a) = us @ ns" using f by (simp add: pop_order_def fetched_def)
  let ?t = "(D_out (if length (us @ ns) \<le> mx then Awaiting else Resume) (min mx (length (us @ ns))),
     rested_actor n (skipped_log a) (drop mx us) (drop (mx - length us) ns) (handled_log a @ take mx (us @ ns)))"
  have loop: "leads hp mx (D_loop 0, running_actor False n (skipped_log a) us ns (handled_log a)) ?t"
    using loop_leads [of 0 mx hp n "skipped_log a" us ns "handled_log a"] by simp
  have "us @ ns = [] \<Longrightarrow> leads hp mx (D_park 0, running_actor False n (skipped_log a) us ns (handled_log a)) ?t"
    using park_leads [of hp mx 0 n "skipped_log a" us ns "handled_log a"] by simp
  then have "leads hp mx (D_start tok, a) ?t"
    by (intro enter_leads [OF assms(1-4) w f loop _ assms(5)]) simp
  then obtain k where "(solo hp mx ^^ k) (D_start tok, a) = ?t" unfolding leads_def by blast
  moreover have "sender_count (actor_word b False False n) = sender_count (state_word a)" for b
    using n unfolding w by (simp add: word_unat_eq_iff)
  moreover have "drop mx us = [] \<and> drop (mx - length us) ns = [] \<longleftrightarrow> length (us @ ns) \<le> mx" by auto
  ultimately show ?thesis
    unfolding po
    by (intro exI [of _ k] exI [of _ "rested_actor n (skipped_log a) (drop mx us) (drop (mx - length us) ns) (handled_log a @ take mx (us @ ns))"])
      (auto simp: rested_actor_def mb_elems_def am_blocked_def)
qed

text \<open>Three messages, one urgent and the last to come, and a limit of two.\<close>

definition demo_actor :: "nat actor_sys" where
  "demo_actor = \<lparr>state_word = 1, mbox = \<lparr>urgent = [], normal = [], arrivals = Open [9, 2, 1]\<rparr>, busy = False,
                 handled_log = [], skipped_log = []\<rparr>"

theorem resume_alone_witness:
  "\<exists>k a'. (solo (\<lambda>x. x > 5) 2 ^^ k) (D_start True, demo_actor) = (D_out Resume 2, a') \<and>
     handled_log a' = [9, 1] \<and> mb_elems (mbox a') = [2] \<and> is_scheduled (state_word a')"
proof -
  have "pop_order (\<lambda>x. x > 5) (mbox demo_actor) = [9, 1, 2]" by (simp add: pop_order_def demo_actor_def)
  moreover have "\<not> is_running (state_word demo_actor)" "\<not> is_destroying (state_word demo_actor)"
    "arrivals (mbox demo_actor) \<noteq> Closed" "\<not> busy demo_actor" "handled_log demo_actor = []"
    by (simp_all add: demo_actor_def is_running_def is_destroying_def)
  ultimately show ?thesis using resume_alone [of demo_actor 2 "\<lambda>x. x > 5" True] by (auto simp: numeral_2_eq_2)
qed








end
