(* ===== verification/Ref_Counted.thy ===== *)
theory Ref_Counted
  imports Prelude
begin

text \<open>
  Shared ownership: \<open>ref_counted\<close> (\<open>detail/ref_counted.hpp\<close>) and \<open>intrusive_ptr\<close>
  (\<open>detail/intrusive_ptr.hpp\<close>). The first half is the pointer's interface on a heap of counts,
  run by one thread; the second is the count itself under threads that copy and drop their own
  handles, one atomic access at a time. A count is a number: every unit of it is a pointer held
  somewhere, so it cannot reach the width of \<open>size_t\<close>.
\<close>

section \<open>The count\<close>

text \<open>\<open>None\<close> is an object that does not exist (any more); touching it is a fault.\<close>

type_synonym counts = "nat \<Rightarrow> nat option"

definition rc_new :: "nat \<Rightarrow> counts \<Rightarrow> counts" where
  "rc_new p h = h(p \<mapsto> 1)"

definition rc_ref :: "nat \<Rightarrow> counts \<Rightarrow> counts outcome" where
  "rc_ref p h = (case h p of
     None \<Rightarrow> Inl Assertion_failed
   | Some rc \<Rightarrow> if rc > 0 then Inr (h(p \<mapsto> rc + 1)) else Inl Assertion_failed)"

definition rc_unique :: "nat \<Rightarrow> counts \<Rightarrow> bool outcome" where
  "rc_unique p h = (case h p of
     None \<Rightarrow> Inl Assertion_failed
   | Some rc \<Rightarrow> if rc > 0 then Inr (rc = 1) else Inl Assertion_failed)"

definition rc_deref :: "nat \<Rightarrow> counts \<Rightarrow> counts outcome" where
  "rc_deref p h = (case h p of
     None \<Rightarrow> Inl Assertion_failed
   | Some rc \<Rightarrow>
       if \<not> rc > 0 then Inl Assertion_failed
       else case rc_unique p h of
         Inl f \<Rightarrow> Inl f
       | Inr True \<Rightarrow> Inr (h(p := None))
       | Inr False \<Rightarrow> (let h' = h(p \<mapsto> rc - 1) in if rc = 1 then Inr (h'(p := None)) else Inr h'))"

section \<open>The pointer\<close>

text \<open>A pointer variable holds an address, 0 is \<open>nullptr\<close>.\<close>

definition set_ptr :: "nat \<Rightarrow> bool \<Rightarrow> counts \<Rightarrow> (nat \<times> counts) outcome" where
  "set_ptr raw_ptr add_ref h =
     (if raw_ptr \<noteq> 0 \<and> add_ref
      then case rc_ref raw_ptr h of Inl f \<Rightarrow> Inl f | Inr h' \<Rightarrow> Inr (raw_ptr, h')
      else Inr (raw_ptr, h))"

definition ip_copy :: "nat \<Rightarrow> counts \<Rightarrow> (nat \<times> counts) outcome" where
  "ip_copy other h = set_ptr other True h"

definition ip_detach :: "nat \<Rightarrow> nat \<times> nat" where
  "ip_detach x = (x, if x \<noteq> 0 then 0 else x)"

definition ip_move :: "nat \<Rightarrow> nat \<times> nat" where
  "ip_move other = ip_detach other"

definition ip_release :: "nat \<Rightarrow> nat \<times> nat" where
  "ip_release x = ip_detach x"

text \<open>The constructor from a raw pointer.\<close>

definition ip_new :: "nat \<Rightarrow> bool \<Rightarrow> counts \<Rightarrow> (nat \<times> counts) outcome" where
  "ip_new raw_ptr add_ref h = set_ptr raw_ptr add_ref h"

text \<open>A cast keeps the object, which is what an address stands for here.\<close>

definition ip_upcast :: "nat \<Rightarrow> counts \<Rightarrow> (nat \<times> counts) outcome" where
  "ip_upcast x h = ip_new (if x \<noteq> 0 then x else 0) True h"

definition static_pointer_cast :: "nat \<Rightarrow> counts \<Rightarrow> (nat \<times> counts) outcome" where
  "static_pointer_cast r h = ip_upcast r h"

text \<open>Reading through a pointer; \<open>nd\<close> for \<open>NDEBUG\<close>.\<close>

definition ip_arrow :: "bool \<Rightarrow> nat \<Rightarrow> nat outcome" where
  "ip_arrow nd x = (if \<not> nd \<and> x = 0 then Inl Assertion_failed else Inr x)"

definition ip_not :: "nat \<Rightarrow> bool" where
  "ip_not x \<longleftrightarrow> \<not> x \<noteq> 0"

definition ip_bool :: "nat \<Rightarrow> bool" where
  "ip_bool x \<longleftrightarrow> x \<noteq> 0"

text \<open>Comparisons, with null and with a raw pointer, on either side.\<close>

definition ip_eq_null :: "nat \<Rightarrow> bool" where
  "ip_eq_null x \<longleftrightarrow> ip_not x"

definition ip_ne_null :: "nat \<Rightarrow> bool" where
  "ip_ne_null x \<longleftrightarrow> ip_bool x"

definition ip_eq :: "nat \<Rightarrow> nat \<Rightarrow> bool" where
  "ip_eq x y \<longleftrightarrow> x = y"

definition ip_ne :: "nat \<Rightarrow> nat \<Rightarrow> bool" where
  "ip_ne x y \<longleftrightarrow> x \<noteq> y"

definition ip_less :: "nat \<Rightarrow> nat \<Rightarrow> bool" where
  "ip_less x y \<longleftrightarrow> x < y"

definition ip_destroy :: "nat \<Rightarrow> counts \<Rightarrow> counts outcome" where
  "ip_destroy x h = (if x \<noteq> 0 then rc_deref x h else Inr h)"

definition ip_reset :: "nat \<Rightarrow> nat \<Rightarrow> bool \<Rightarrow> counts \<Rightarrow> (nat \<times> counts) outcome" where
  "ip_reset x new_value add_ref h =
     (let old = x in
      case set_ptr new_value add_ref h of
        Inl f \<Rightarrow> Inl f
      | Inr (x', h1) \<Rightarrow>
          if old \<noteq> 0
          then (case rc_deref old h1 of Inl f \<Rightarrow> Inl f | Inr h2 \<Rightarrow> Inr (x', h2))
          else Inr (x', h1))"

text \<open>
  \<open>operator=(intrusive_ptr other)\<close> after its by-value parameter \<open>tmp\<close> has been built: swap,
  and destroy what the parameter then holds.
\<close>

definition ip_assign :: "nat \<Rightarrow> nat \<Rightarrow> counts \<Rightarrow> (nat \<times> counts) outcome" where
  "ip_assign x tmp h =
     (let (x', tmp') = (tmp, x) in
      case ip_destroy tmp' h of Inl f \<Rightarrow> Inl f | Inr h' \<Rightarrow> Inr (x', h'))"

text \<open>What a program does with its pointer variables, given by their positions.\<close>

datatype ip_op =
  Make nat nat | Copy_assign nat nat | Move_assign nat nat | Assign_raw nat nat
| Reset_null nat | Swap nat nat | Release nat nat | Adopt nat nat | Cast nat nat

definition make_counted :: "nat \<Rightarrow> counts \<Rightarrow> (nat \<times> counts) outcome" where
  "make_counted fresh h = set_ptr fresh False (rc_new fresh h)"

text \<open>
  \<open>v = make_counted()\<close> at the fresh address \<open>p\<close>, \<open>v = w\<close>, \<open>v = std::move(w)\<close>,
  \<open>v = w.get()\<close>, \<open>v.reset()\<close>, \<open>v.swap(w)\<close>, \<open>raw = w.release()\<close> into a raw pointer \<open>v\<close> that owns
  nothing, \<open>v = intrusive_ptr(raw, false)\<close> of the raw pointer \<open>w\<close>, set to null, and
  \<open>v = static_pointer_cast(w)\<close>.
\<close>

fun ip_run :: "ip_op \<Rightarrow> nat list \<times> counts \<Rightarrow> (nat list \<times> counts) outcome" where
  "ip_run (Make v p) (xs, h) =
     (case make_counted p h of Inl f \<Rightarrow> Inl f
      | Inr (tmp, h1) \<Rightarrow>
         (case ip_assign (xs ! v) tmp h1 of Inl f \<Rightarrow> Inl f | Inr (x, h2) \<Rightarrow> Inr (xs[v := x], h2)))"
| "ip_run (Copy_assign v w) (xs, h) =
     (case ip_copy (xs ! w) h of Inl f \<Rightarrow> Inl f
      | Inr (tmp, h1) \<Rightarrow>
         (case ip_assign (xs ! v) tmp h1 of Inl f \<Rightarrow> Inl f | Inr (x, h2) \<Rightarrow> Inr (xs[v := x], h2)))"
| "ip_run (Move_assign v w) (xs, h) =
     (let (tmp, src) = ip_move (xs ! w); ys = xs[w := src] in
      case ip_assign (ys ! v) tmp h of Inl f \<Rightarrow> Inl f | Inr (x, h2) \<Rightarrow> Inr (ys[v := x], h2))"
| "ip_run (Assign_raw v w) (xs, h) =
     (case ip_reset (xs ! v) (xs ! w) True h of Inl f \<Rightarrow> Inl f | Inr (x, h2) \<Rightarrow> Inr (xs[v := x], h2))"
| "ip_run (Reset_null v) (xs, h) =
     (case ip_reset (xs ! v) 0 True h of Inl f \<Rightarrow> Inl f | Inr (x, h2) \<Rightarrow> Inr (xs[v := x], h2))"
| "ip_run (Swap v w) (xs, h) = Inr (xs[v := xs ! w, w := xs ! v], h)"
| "ip_run (Release v w) (xs, h) = (let (raw, src) = ip_release (xs ! w) in Inr (xs[w := src, v := raw], h))"
| "ip_run (Adopt v w) (xs, h) =
     (case ip_new (xs ! w) False h of Inl f \<Rightarrow> Inl f
      | Inr (tmp, h1) \<Rightarrow>
         (let ys = xs[w := 0] in
          case ip_assign (ys ! v) tmp h1 of Inl f \<Rightarrow> Inl f | Inr (x, h2) \<Rightarrow> Inr (ys[v := x], h2)))"
| "ip_run (Cast v w) (xs, h) =
     (case static_pointer_cast (xs ! w) h of Inl f \<Rightarrow> Inl f
      | Inr (tmp, h1) \<Rightarrow>
         (case ip_assign (xs ! v) tmp h1 of Inl f \<Rightarrow> Inl f | Inr (x, h2) \<Rightarrow> Inr (xs[v := x], h2)))"

fun ip_runs :: "ip_op list \<Rightarrow> nat list \<times> counts \<Rightarrow> (nat list \<times> counts) outcome" where
  "ip_runs [] st = Inr st"
| "ip_runs (a # as) st = (case ip_run a st of Inl f \<Rightarrow> Inl f | Inr st' \<Rightarrow> ip_runs as st')"

section \<open>Counts are exact\<close>

text \<open>The count of every object is the number of variables that point to it.\<close>

definition owners :: "nat list \<Rightarrow> nat \<Rightarrow> nat" where
  "owners xs p = count_if (\<lambda>x. x = p) xs"

definition exact :: "nat list \<Rightarrow> counts \<Rightarrow> bool" where
  "exact xs h \<longleftrightarrow> (\<forall>p. p \<noteq> 0 \<longrightarrow> h p = (if owners xs p = 0 then None else Some (owners xs p)))"

fun op_ok :: "ip_op \<Rightarrow> nat list \<times> counts \<Rightarrow> bool" where
  "op_ok (Make v p) (xs, h) \<longleftrightarrow> v < length xs \<and> p \<noteq> 0 \<and> h p = None"
| "op_ok (Copy_assign v w) (xs, h) \<longleftrightarrow> v < length xs \<and> w < length xs"
| "op_ok (Move_assign v w) (xs, h) \<longleftrightarrow> v < length xs \<and> w < length xs"
| "op_ok (Assign_raw v w) (xs, h) \<longleftrightarrow> v < length xs \<and> w < length xs"
| "op_ok (Reset_null v) (xs, h) \<longleftrightarrow> v < length xs"
| "op_ok (Swap v w) (xs, h) \<longleftrightarrow> v < length xs \<and> w < length xs"
| "op_ok (Release v w) (xs, h) \<longleftrightarrow> v < length xs \<and> w < length xs \<and> v \<noteq> w \<and> xs ! v = 0"
| "op_ok (Adopt v w) (xs, h) \<longleftrightarrow> v < length xs \<and> w < length xs \<and> v \<noteq> w"
| "op_ok (Cast v w) (xs, h) \<longleftrightarrow> v < length xs \<and> w < length xs"

text \<open>Every operation is legal in the state it is run in.\<close>

fun ops_ok :: "ip_op list \<Rightarrow> nat list \<times> counts \<Rightarrow> bool" where
  "ops_ok [] st \<longleftrightarrow> True"
| "ops_ok (a # as) st \<longleftrightarrow>
     op_ok a st \<and> (case ip_run a st of Inl f \<Rightarrow> True | Inr st' \<Rightarrow> ops_ok as st')"

text \<open>Counting one owner more than the variables: a temporary that holds \<open>t\<close>.\<close>

lemma owners_Cons: "owners (t # xs) p = owners xs p + of_bool (t = p)"
  by (simp add: owners_def)

lemma owners_update:
  "i < length xs \<Longrightarrow> owners (xs[i := y]) p + of_bool (xs ! i = p) = owners xs p + of_bool (y = p)"
  using count_if_update [of i xs "\<lambda>x. x = p" y] by (simp add: owners_def split: if_splits)

lemma owners_in: "p \<in> set xs \<longleftrightarrow> 0 < owners xs p"
  using count_if_0_iff [of "\<lambda>x. x = p" xs] by (auto simp: owners_def)

lemma exact_cong: "(\<And>p. p \<noteq> 0 \<Longrightarrow> owners ys p = owners xs p) \<Longrightarrow> exact xs h \<Longrightarrow> exact ys h"
  by (simp add: exact_def)

lemma ref_exact:
  assumes "exact xs h" and "t \<in> set xs"
  shows "\<exists>h'. ip_copy t h = Inr (t, h') \<and> exact (t # xs) h'"
proof (cases "t = 0")
  case True
  then show ?thesis using assms by (auto simp: ip_copy_def set_ptr_def exact_def owners_Cons)
next
  case False
  have o: "0 < owners xs t" using assms(2) by (simp add: owners_in)
  then have "h t = Some (owners xs t)" using assms(1) False by (simp add: exact_def)
  with o False assms(1) show ?thesis
    by (auto simp: ip_copy_def set_ptr_def rc_ref_def exact_def owners_Cons)
qed

lemma destroy_exact:
  assumes "exact (t # xs) h"
  shows "\<exists>h'. ip_destroy t h = Inr h' \<and> exact xs h'"
proof (cases "t = 0")
  case True
  then show ?thesis using assms by (auto simp: ip_destroy_def exact_def owners_Cons)
next
  case False
  then have "h t = Some (Suc (owners xs t))" using assms by (simp add: exact_def owners_Cons)
  with False assms show ?thesis
    by (cases "owners xs t") (auto simp: ip_destroy_def rc_deref_def rc_unique_def exact_def owners_Cons Let_def)
qed

lemma make_exact:
  assumes "exact xs h" and "p \<noteq> 0" and "h p = None"
  shows "\<exists>h'. make_counted p h = Inr (p, h') \<and> exact (p # xs) h'"
proof -
  have "owners xs p = 0" using assms by (auto simp: exact_def split: if_splits)
  then show ?thesis using assms
    by (auto simp: make_counted_def set_ptr_def rc_new_def exact_def owners_Cons)
qed

lemma assign_exact:
  assumes "exact (t # xs) h" and "v < length xs"
  shows "\<exists>h'. ip_assign (xs ! v) t h = Inr (t, h') \<and> exact (xs[v := t]) h'"
proof -
  have "exact (xs ! v # xs[v := t]) h"
    by (rule exact_cong [OF _ assms(1)]) (use owners_update [OF assms(2), of t] in \<open>simp add: owners_Cons\<close>)
  from destroy_exact [OF this] show ?thesis by (auto simp: ip_assign_def)
qed

lemma reset_exact:
  assumes "exact xs h" and "v < length xs" and "t = 0 \<or> t \<in> set xs"
  shows "\<exists>h'. ip_reset (xs ! v) t True h = Inr (t, h') \<and> exact (xs[v := t]) h'"
proof -
  have "\<exists>h1. set_ptr t True h = Inr (t, h1) \<and> exact (t # xs) h1"
  proof (cases "t = 0")
    case True
    then show ?thesis using assms(1) by (auto simp: set_ptr_def exact_def owners_Cons)
  next
    case False
    then show ?thesis using ref_exact [OF assms(1)] assms(3) by (simp add: ip_copy_def)
  qed
  then obtain h1 where h1: "set_ptr t True h = Inr (t, h1)" "exact (t # xs) h1" by blast
  then have "exact (xs ! v # xs[v := t]) h1"
    by (intro exact_cong [OF _ h1(2)]) (use owners_update [OF assms(2), of t] in \<open>simp add: owners_Cons\<close>)
  from destroy_exact [OF this] h1(1) show ?thesis
    by (auto simp: ip_reset_def ip_destroy_def Let_def split: if_splits)
qed

lemma move_exact:
  assumes "exact xs h" and "v < length xs" and "w < length xs"
  shows "\<exists>st. ip_run (Move_assign v w) (xs, h) = Inr st \<and> length (fst st) = length xs \<and> exact (fst st) (snd st)"
proof -
  let ?ys = "xs[w := 0]"
  have mv: "ip_move (xs ! w) = (xs ! w, 0)" by (simp add: ip_move_def ip_detach_def)
  have "exact (xs ! w # ?ys) h"
    by (rule exact_cong [OF _ assms(1)]) (use owners_update [OF assms(3), of 0] in \<open>simp add: owners_Cons\<close>)
  from assign_exact [OF this, of v] assms(2) show ?thesis by (auto simp: mv)
qed

lemma op_exact:
  assumes "exact xs h" and "op_ok a (xs, h)"
  shows "\<exists>st. ip_run a (xs, h) = Inr st \<and> length (fst st) = length xs \<and> exact (fst st) (snd st)"
proof (cases a)
  case (Make v p)
  then obtain h1 where h1: "make_counted p h = Inr (p, h1)" "exact (p # xs) h1"
    using make_exact [OF assms(1)] assms(2) by auto
  from assign_exact [OF h1(2), of v] h1(1) assms(2) Make show ?thesis by auto
next
  case (Copy_assign v w)
  then obtain h1 where h1: "ip_copy (xs ! w) h = Inr (xs ! w, h1)" "exact (xs ! w # xs) h1"
    using ref_exact [OF assms(1), of "xs ! w"] assms(2) by auto
  from assign_exact [OF h1(2), of v] h1(1) assms(2) Copy_assign show ?thesis by auto
next
  case (Move_assign v w)
  then show ?thesis using move_exact [OF assms(1)] assms(2) by simp
next
  case (Assign_raw v w)
  then show ?thesis using reset_exact [OF assms(1), of v "xs ! w"] assms(2) by auto
next
  case (Reset_null v)
  then show ?thesis using reset_exact [OF assms(1), of v 0] assms(2) by auto
next
  case (Swap v w)
  have "owners (xs[v := xs ! w, w := xs ! v]) p = owners xs p" for p
    using owners_update [of w "xs[v := xs ! w]" "xs ! v" p] owners_update [of v xs "xs ! w" p] assms(2) Swap
    by (cases "v = w") auto
  then show ?thesis using exact_cong [OF _ assms(1)] Swap by simp
next
  case (Release v w)
  have "owners (xs[w := 0, v := xs ! w]) p = owners xs p" if "p \<noteq> 0" for p
    using owners_update [of v "xs[w := 0]" "xs ! w" p] owners_update [of w xs 0 p] assms(2) Release that by simp
  then have "exact (xs[w := 0, v := xs ! w]) h" by (rule exact_cong [OF _ assms(1)])
  then show ?thesis using Release by (cases "xs ! w = 0") (simp_all add: ip_release_def ip_detach_def)
next
  case (Adopt v w)
  then have eq: "ip_run a (xs, h) = ip_run (Move_assign v w) (xs, h)"
    by (simp add: ip_new_def set_ptr_def ip_move_def ip_detach_def)
  show ?thesis unfolding eq by (rule move_exact [OF assms(1)]) (use assms(2) Adopt in simp_all)
next
  case (Cast v w)
  have "static_pointer_cast t h = ip_copy t h" for t
    by (simp add: static_pointer_cast_def ip_upcast_def ip_new_def ip_copy_def)
  then obtain h1 where h1: "static_pointer_cast (xs ! w) h = Inr (xs ! w, h1)" "exact (xs ! w # xs) h1"
    using ref_exact [OF assms(1), of "xs ! w"] assms(2) Cast by auto
  from assign_exact [OF h1(2), of v] h1(1) assms(2) Cast show ?thesis by auto
qed

text \<open>Exactly one of \<open><\<close>, \<open>==\<close> and \<open>>\<close> holds, and \<open>!=\<close> and the tests for null agree with them.\<close>

lemma ip_comparisons:
  "ip_ne x y \<longleftrightarrow> ip_less x y \<or> ip_less y x" and "ip_eq x y \<longleftrightarrow> \<not> ip_less x y \<and> \<not> ip_less y x"
  and "ip_eq_null x \<longleftrightarrow> ip_eq x 0" and "ip_ne_null x \<longleftrightarrow> ip_ne x 0"
  by (auto simp: ip_ne_def ip_less_def ip_eq_def ip_eq_null_def ip_not_def ip_ne_null_def ip_bool_def)

text \<open>A pointer that tests true may be followed: its object exists.\<close>

lemma exact_arrow:
  assumes "exact xs h" and "v < length xs" and "ip_bool (xs ! v)"
  shows "ip_arrow nd (xs ! v) = Inr (xs ! v) \<and> h (xs ! v) \<noteq> None"
proof -
  have "0 < owners xs (xs ! v)" using assms(2) owners_in nth_mem by blast
  then show ?thesis using assms by (simp add: ip_bool_def ip_arrow_def exact_def)
qed

lemma runs_exact:
  assumes "exact (fst st) (snd st)" and "ops_ok as st"
  shows "\<exists>st'. ip_runs as st = Inr st' \<and> length (fst st') = length (fst st) \<and> exact (fst st') (snd st')"
  using assms
proof (induction as arbitrary: st)
  case (Cons a as)
  then obtain st1 where st1: "ip_run a st = Inr st1" "length (fst st1) = length (fst st)"
    "exact (fst st1) (snd st1)"
    using op_exact [of "fst st" "snd st" a] by auto
  moreover have "ops_ok as st1" using Cons.prems(2) st1(1) by simp
  ultimately show ?case using Cons.IH [of st1] by simp
qed simp

section \<open>The count under threads\<close>

text \<open>
  One object and the handles its threads hold. A held handle may be copied (\<open>ref\<close>: the debug
  load, then the \<open>fetch_add\<close>) or dropped (\<open>deref\<close>: its load, \<open>unique\<close>'s load and test, the
  \<open>fetch_sub\<close>, the \<open>delete\<close>). The number of \<open>H_delete\<close> is what its thread left in the count.
\<close>

datatype handle_pc =
  H_held | H_ref_check | H_ref_add | H_deref_check | H_unique_check | H_unique_load | H_sub
| H_delete nat | H_gone | H_fault

record counted =
  rc :: nat
  alive :: bool
  deletes :: nat

fun handle_step :: "bool \<Rightarrow> handle_pc \<Rightarrow> counted \<Rightarrow> handle_pc list \<times> counted" where
  "handle_step copy H_held c = ([if copy then H_ref_check else H_deref_check], c)"
| "handle_step copy H_ref_check c = ([if rc c > 0 \<and> alive c then H_ref_add else H_fault], c)"
| "handle_step copy H_ref_add c =
     (if alive c then ([H_held, H_held], c\<lparr>rc := rc c + 1\<rparr>) else ([H_fault], c))"
| "handle_step copy H_deref_check c = ([if rc c > 0 \<and> alive c then H_unique_check else H_fault], c)"
| "handle_step copy H_unique_check c = ([if rc c > 0 \<and> alive c then H_unique_load else H_fault], c)"
| "handle_step copy H_unique_load c =
     ([if \<not> alive c then H_fault else if rc c = 1 then H_delete 1 else H_sub], c)"
| "handle_step copy H_sub c =
     (if \<not> alive c then ([H_fault], c)
      else ([if rc c = 1 then H_delete 0 else H_gone], c\<lparr>rc := rc c - 1\<rparr>))"
| "handle_step copy (H_delete k) c =
     (if alive c then ([H_gone], c\<lparr>alive := False, deletes := deletes c + 1\<rparr>) else ([H_fault], c))"
| "handle_step copy H_gone c = ([H_gone], c)"
| "handle_step copy H_fault c = ([H_fault], c)"

text \<open>The stepped handle stays in place, a copy it made joins the pool.\<close>

definition pool_step :: "nat \<Rightarrow> bool \<Rightarrow> handle_pc list \<times> counted \<Rightarrow> handle_pc list \<times> counted" where
  "pool_step i copy st =
     (case st of (hs, c) \<Rightarrow> case handle_step copy (hs ! i) c of (new, c') \<Rightarrow> (hs[i := hd new] @ tl new, c'))"

inductive counted_reachable :: "handle_pc list \<times> counted \<Rightarrow> bool" where
  init: "counted_reachable ([H_held], \<lparr>rc = 1, alive = True, deletes = 0\<rparr>)"
| step: "counted_reachable st \<Longrightarrow> i < length (fst st) \<Longrightarrow> counted_reachable (pool_step i copy st)"

fun owning :: "handle_pc \<Rightarrow> bool" where
  "owning (H_delete _) \<longleftrightarrow> False"
| "owning H_gone \<longleftrightarrow> False"
| "owning H_fault \<longleftrightarrow> False"
| "owning _ \<longleftrightarrow> True"

fun deleting :: "handle_pc \<Rightarrow> bool" where
  "deleting (H_delete _) \<longleftrightarrow> True"
| "deleting _ \<longleftrightarrow> False"

text \<open>
  While somebody owns the object the count is the number of owners; the last one out is the only
  one to delete.
\<close>

definition count_ok :: "handle_pc list \<times> counted \<Rightarrow> bool" where
  "count_ok st \<longleftrightarrow>
     (let hs = fst st; c = snd st; n = count_if owning hs; d = count_if deleting hs in
      H_fault \<notin> set hs \<and>
      (if n > 0 then alive c \<and> d = 0 \<and> rc c = n \<and> deletes c = 0
       else if alive c then d = 1 \<and> deletes c = 0 else d = 0 \<and> deletes c = 1))"

lemma pool_step_ok:
  assumes ok: "count_ok (hs, c)" and i: "i < length hs"
  shows "count_ok (pool_step i copy (hs, c))"
proof -
  have mem: "hs ! i \<in> set hs" using i by simp
  have nf: "H_fault \<notin> set hs" using ok by (simp add: count_ok_def Let_def)
  then have nf': "pc \<noteq> H_fault \<Longrightarrow> H_fault \<notin> set (hs[i := pc])" for pc
    using set_update_subset_insert [of hs i pc] by blast
  note up = count_if_update [OF i, of owning] count_if_update [OF i, of deleting]
  have pos: "owning (hs ! i) \<Longrightarrow> 0 < count_if owning hs" "deleting (hs ! i) \<Longrightarrow> 0 < count_if deleting hs"
    using count_if_pos [OF i] by metis+
  show ?thesis
  proof (cases "hs ! i")
    case H_fault
    then show ?thesis using nf mem by simp
  next
    case H_held
    then show ?thesis using ok pos nf' up [of "if copy then H_ref_check else H_deref_check"]
      by (auto simp: pool_step_def count_ok_def Let_def split: if_splits)
  next
    case H_ref_add
    then show ?thesis using ok pos nf' up [of H_held]
      by (auto simp: pool_step_def count_ok_def Let_def split: if_splits)
  next
    case H_unique_load
    then show ?thesis using ok pos nf' up [of H_sub] up [of "H_delete 1"]
      by (auto simp: pool_step_def count_ok_def Let_def split: if_splits)
  next
    case H_sub
    then show ?thesis using ok pos nf' up [of H_gone] up [of "H_delete 0"]
      by (auto simp: pool_step_def count_ok_def Let_def split: if_splits)
  next
    case (H_delete k)
    then show ?thesis using ok pos nf' up [of H_gone]
      by (auto simp: pool_step_def count_ok_def Let_def split: if_splits)
  next
    case H_gone
    then show ?thesis using ok nf' up [of H_gone]
      by (auto simp: pool_step_def count_ok_def Let_def split: if_splits)
  next
    case H_ref_check
    then show ?thesis using ok pos nf' up [of H_ref_add]
      by (auto simp: pool_step_def count_ok_def Let_def split: if_splits)
  next
    case H_deref_check
    then show ?thesis using ok pos nf' up [of H_unique_check]
      by (auto simp: pool_step_def count_ok_def Let_def split: if_splits)
  next
    case H_unique_check
    then show ?thesis using ok pos nf' up [of H_unique_load]
      by (auto simp: pool_step_def count_ok_def Let_def split: if_splits)
  qed
qed

lemma counted_reachable_ok: "counted_reachable st \<Longrightarrow> count_ok st"
proof (induction rule: counted_reachable.induct)
  case init
  then show ?case by (simp add: count_ok_def)
next
  case (step st i copy)
  then show ?case using pool_step_ok [of "fst st" "snd st" i copy] by simp
qed

section \<open>Properties\<close>

text \<open>C25: Exact counts. Whatever a program does with its pointer variables (make, copy, move and raw
  assignment, self-assignment, reset, swap, release to a raw pointer, adoption of one, casts), no dead object is touched and every object's count is
  the number of variables pointing to it; an object with none has been deleted.\<close>

theorem intrusive_ptr_exact:
  assumes "ops_ok as (replicate n 0, \<lambda>_. None)"
  shows "\<exists>xs h. ip_runs as (replicate n 0, \<lambda>_. None) = Inr (xs, h) \<and> length xs = n \<and>
    (\<forall>p. p \<noteq> 0 \<longrightarrow> h p = (let k = owners xs p in if k = 0 then None else Some k))"
proof -
  have "exact (fst (replicate n 0, \<lambda>_. None)) (snd (replicate n 0, \<lambda>_. None))"
    by (simp add: exact_def owners_def)
  from runs_exact [OF this assms] obtain xs h where
    "ip_runs as (replicate n 0, \<lambda>_. None) = Inr (xs, h)" "length xs = n" "exact xs h"
    by auto
  then show ?thesis unfolding exact_def Let_def by blast
qed

theorem intrusive_ptr_exact_witness:
  "\<exists>xs h. ip_runs [Make 0 5, Copy_assign 1 0, Assign_raw 1 1, Move_assign 2 1, Reset_null 0, Release 0 2, Adopt 1 0, Cast 2 1]
     (replicate 3 0, \<lambda>_. None) = Inr (xs, h) \<and> length xs = 3"
  using intrusive_ptr_exact [of "[Make 0 5, Copy_assign 1 0, Assign_raw 1 1, Move_assign 2 1, Reset_null 0, Release 0 2, Adopt 1 0, Cast 2 1]" 3]
  by (simp add: make_counted_def set_ptr_def rc_new_def ip_assign_def ip_destroy_def ip_copy_def rc_ref_def
      ip_reset_def rc_deref_def rc_unique_def ip_move_def ip_detach_def ip_release_def ip_new_def ip_upcast_def
      static_pointer_cast_def eval_nat_numeral Let_def)

text \<open>C26: The last one out deletes. However threads that copy and drop their own handles interleave,
  no access touches a deleted object, the object is deleted at most once, it is deleted once every
  handle is gone, and \<open>unique\<close>'s shortcut past the decrement is sound.\<close>

theorem refcount_deletes_once:
  assumes "counted_reachable st"
  shows "H_fault \<notin> set (fst st) \<and> deletes (snd st) \<le> 1 \<and>
    (alive (snd st) \<longleftrightarrow> (\<exists>h \<in> set (fst st). h \<noteq> H_gone)) \<and>
    ((\<forall>h \<in> set (fst st). h = H_gone) \<longrightarrow> deletes (snd st) = 1)"
proof -
  have ok: "count_ok st" by (rule counted_reachable_ok [OF assms])
  have pc: "h = H_gone \<longleftrightarrow> \<not> owning h \<and> \<not> deleting h" if "h \<in> set (fst st)" for h
  proof -
    have "h \<noteq> H_fault" using that ok by (auto simp: count_ok_def Let_def simp del: in_set_conv_decomp)
    then show ?thesis by (cases h) simp_all
  qed
  then have "(\<exists>h \<in> set (fst st). h \<noteq> H_gone) \<longleftrightarrow> 0 < count_if owning (fst st) \<or> 0 < count_if deleting (fst st)"
    using count_if_0_iff [of owning "fst st"] count_if_0_iff [of deleting "fst st"] by auto
  then show ?thesis using ok unfolding count_ok_def Let_def by (auto split: if_splits)
qed

theorem refcount_deletes_once_witness:
  "H_fault \<notin> set (fst (pool_step 0 False ([H_held], \<lparr>rc = 1, alive = True, deletes = 0\<rparr>)))"
  using refcount_deletes_once [OF counted_reachable.step [OF counted_reachable.init, of 0 False]]
  by simp

end
