(* ===== verification/Frame_Blocks.thy ===== *)
theory Frame_Blocks
  imports Prelude
begin

text \<open>
  Blocks with a header in front: coroutine frames (\<open>detail/coro_frame_header.hpp\<close>) and messages
  (\<open>mailbox/message.hpp\<close>, \<open>pmr_make_message\<close> and \<open>message_deleter\<close>), and the search for the
  memory resource among a coroutine's arguments, which \<open>detail/future.hpp\<close> and
  \<open>detail/behavior_t.hpp\<close> each spell out. Sizes and addresses are 64-bit words; what
  \<open>allocate\<close> returns is an argument, \<open>deallocate\<close> demands the address, size and alignment of
  an allocation.
\<close>

section \<open>Headers\<close>

record block_header =
  hdr_resource :: "nat option"
  hdr_size :: "64 word"

record block_heap =
  headers :: "64 word \<Rightarrow> block_header option"
  allocated :: "(nat \<times> 64 word \<times> 64 word \<times> 64 word) list"

text \<open>\<open>sizeof\<close> of the two headers (a pointer and a size), and \<open>alignof(max_align_t)\<close>.\<close>

definition header_size :: "64 word" where "header_size = 16"
definition max_align :: "64 word" where "max_align = 16"

definition padded_size :: "64 word" where
  "padded_size = (header_size + max_align - 1) AND NOT (max_align - 1)"

definition block_allocate ::
  "nat \<Rightarrow> 64 word \<Rightarrow> 64 word \<Rightarrow> 64 word \<Rightarrow> block_heap \<Rightarrow> block_heap" where
  "block_allocate r p n al h = h\<lparr>allocated := (r, p, n, al) # allocated h\<rparr>"

definition block_deallocate ::
  "nat \<Rightarrow> 64 word \<Rightarrow> 64 word \<Rightarrow> 64 word \<Rightarrow> block_heap \<Rightarrow> block_heap outcome" where
  "block_deallocate r p n al h =
     (if (r, p, n, al) \<in> set (allocated h)
      then Inr (h\<lparr>allocated := remove1 (r, p, n, al) (allocated h), headers := (headers h)(p := None)\<rparr>)
      else Inl Terminated)"

text \<open>\<open>raw\<close> is what the resource returns; a null pointer is passed on.\<close>

definition allocate_coro_frame ::
  "nat option \<Rightarrow> 64 word \<Rightarrow> 64 word \<Rightarrow> block_heap \<Rightarrow> (64 word \<times> block_heap) outcome" where
  "allocate_coro_frame res frame_size raw h =
     (case res of
        None \<Rightarrow> Inl Aborted
      | Some r \<Rightarrow>
          let total_size = padded_size + frame_size in
          if raw = 0 then Inr (0, h)
          else
            let h1 = block_allocate r raw total_size max_align h;
                h2 = h1\<lparr>headers := (headers h1)(raw \<mapsto> \<lparr>hdr_resource = Some r, hdr_size = frame_size\<rparr>)\<rparr>
            in Inr (raw + padded_size, h2))"

definition deallocate_coro_frame ::
  "64 word \<Rightarrow> 64 word \<Rightarrow> block_heap \<Rightarrow> block_heap outcome" where
  "deallocate_coro_frame frame frame_size h =
     (if frame = 0 then Inr h
      else let raw = frame - padded_size; total_size = padded_size + frame_size in
        case headers h raw of
          None \<Rightarrow> Inl Terminated
        | Some hdr \<Rightarrow>
            (case hdr_resource hdr of
               None \<Rightarrow> Inl Assertion_failed
             | Some r \<Rightarrow> block_deallocate r raw total_size max_align h))"

definition deallocate_coro_frame_unsized :: "64 word \<Rightarrow> block_heap \<Rightarrow> block_heap outcome" where
  "deallocate_coro_frame_unsized frame h =
     (if frame = 0 then Inr h
      else let raw = frame - padded_size in
        case headers h raw of
          None \<Rightarrow> Inl Terminated
        | Some hdr \<Rightarrow>
            (case hdr_resource hdr of
               None \<Rightarrow> Inl Assertion_failed
             | Some r \<Rightarrow>
                 (let frame_size = hdr_size hdr; total_size = padded_size + frame_size
                  in block_deallocate r raw total_size max_align h)))"

section \<open>Message blocks\<close>

text \<open>
  \<open>al\<close> is \<open>alignof(message)\<close> and \<open>sz\<close> is \<open>sizeof(message)\<close>; \<open>hdr->total\<close> is the size of
  the whole block here.
\<close>

definition msg_align_up :: "64 word \<Rightarrow> 64 word \<Rightarrow> 64 word" where
  "msg_align_up n a = (n + (a - 1)) AND NOT (a - 1)"

definition kAllocAlign :: "64 word \<Rightarrow> 64 word" where
  "kAllocAlign al = (if max_align < al then al else max_align)"

definition kFront :: "64 word \<Rightarrow> 64 word" where
  "kFront al = msg_align_up header_size al"

definition base_from_message :: "64 word \<Rightarrow> 64 word \<Rightarrow> 64 word" where
  "base_from_message al pmsg = pmsg - kFront al"

definition pmr_make_message ::
  "64 word \<Rightarrow> 64 word \<Rightarrow> nat \<Rightarrow> 64 word \<Rightarrow> block_heap \<Rightarrow> 64 word \<times> block_heap" where
  "pmr_make_message al sz resource raw h =
     (let front = kFront al; total = front + sz;
          h1 = block_allocate resource raw total (kAllocAlign al) h;
          h2 = h1\<lparr>headers := (headers h1)(raw \<mapsto> \<lparr>hdr_resource = Some resource, hdr_size = total\<rparr>)\<rparr>
      in (raw + front, h2))"

text \<open>\<open>~message\<close> itself is run between reading the header and returning the block.\<close>

definition message_deleter :: "64 word \<Rightarrow> 64 word \<Rightarrow> block_heap \<Rightarrow> block_heap outcome" where
  "message_deleter al p h =
     (if p = 0 then Inr h
      else case headers h (base_from_message al p) of
        None \<Rightarrow> Inl Terminated
      | Some hdr \<Rightarrow>
          (case hdr_resource hdr of
             None \<Rightarrow> Inl Terminated
           | Some r \<Rightarrow> block_deallocate r (base_from_message al p) (hdr_size hdr) (kAllocAlign al) h))"

section \<open>Finding the memory resource\<close>

text \<open>
  A coroutine argument: a \<open>memory_resource*\<close>, a pointer to or an object of a type with or
  without a \<open>resource()\<close> method, and what it yields at run time (\<open>None\<close> is null).
\<close>

datatype coro_arg =
  Resource_arg "nat option"
| Pointer_arg bool "nat option"
| Object_arg bool "nat option"

datatype extract_error = Ill_formed | Extract_aborted

definition try_get_resource :: "bool \<Rightarrow> nat option \<Rightarrow> nat option" where
  "try_get_resource has_resource_method resource = (if has_resource_method then resource else None)"

fun extract_resource_impl :: "coro_arg \<Rightarrow> nat option" where
  "extract_resource_impl (Resource_arg res) = res"
| "extract_resource_impl (Pointer_arg m res) = try_get_resource m res"
| "extract_resource_impl (Object_arg m res) = try_get_resource m res"

fun supplies_resource :: "coro_arg \<Rightarrow> bool" where
  "supplies_resource (Resource_arg res) \<longleftrightarrow> True"
| "supplies_resource (Pointer_arg m res) \<longleftrightarrow> m"
| "supplies_resource (Object_arg m res) \<longleftrightarrow> m"

fun extract_resource_from_args :: "coro_arg list \<Rightarrow> nat option" where
  "extract_resource_from_args [] = None"
| "extract_resource_from_args (a # as) =
     (case extract_resource_impl a of Some r \<Rightarrow> Some r | None \<Rightarrow> extract_resource_from_args as)"

text \<open>A failing \<open>static_assert\<close> is a program that does not compile (\<open>Ill_formed\<close>).\<close>

definition extract_resource_or_abort :: "coro_arg list \<Rightarrow> extract_error + nat" where
  "extract_resource_or_abort as =
     (if as = [] then Inl Ill_formed
      else if \<not> (\<exists>a \<in> set as. supplies_resource a) then Inl Ill_formed
      else case extract_resource_from_args as of None \<Rightarrow> Inl Extract_aborted | Some r \<Rightarrow> Inr r)"

text \<open>\<open>promise_type::operator new\<close>, from the arguments to the frame.\<close>

definition promise_operator_new ::
  "coro_arg list \<Rightarrow> 64 word \<Rightarrow> 64 word \<Rightarrow> block_heap \<Rightarrow> (64 word \<times> block_heap) outcome" where
  "promise_operator_new as sz raw h =
     (case extract_resource_or_abort as of
        Inl _ \<Rightarrow> Inl Aborted
      | Inr res \<Rightarrow> allocate_coro_frame (Some res) sz raw h)"

text \<open>
  The promise of a free or static coroutine that names its actor in the traits
  (\<open>actor_promise\<close>): the frame comes from the arguments, the results from the actor.
\<close>

definition actor_promise_new ::
  "nat option \<Rightarrow> coro_arg list \<Rightarrow> 64 word \<Rightarrow> 64 word \<Rightarrow> block_heap
    \<Rightarrow> (nat option \<times> 64 word \<times> block_heap) outcome" where
  "actor_promise_new actor_resource as sz raw h =
     (case promise_operator_new as sz raw h of
        Inl f \<Rightarrow> Inl f
      | Inr (frame, h') \<Rightarrow> Inr (actor_resource, frame, h'))"

text \<open>
  \<open>behavior_t::promise_type\<close> has its own copy of the search. It allocates with all the
  arguments, but takes its own \<open>resource_\<close> from the first one alone.
\<close>

fun behavior_extract_impl :: "coro_arg \<Rightarrow> nat option" where
  "behavior_extract_impl (Resource_arg res) = res"
| "behavior_extract_impl (Pointer_arg m res) = (if m then res else None)"
| "behavior_extract_impl (Object_arg m res) = (if m then res else None)"

fun behavior_supplies_resource :: "coro_arg \<Rightarrow> bool" where
  "behavior_supplies_resource (Resource_arg res) \<longleftrightarrow> True"
| "behavior_supplies_resource (Pointer_arg m res) \<longleftrightarrow> m"
| "behavior_supplies_resource (Object_arg m res) \<longleftrightarrow> m"

fun behavior_extract_from_args :: "coro_arg list \<Rightarrow> nat option" where
  "behavior_extract_from_args [] = None"
| "behavior_extract_from_args (first # rest) =
     (let res = behavior_extract_impl first
      in if res \<noteq> None then res else behavior_extract_from_args rest)"

definition behavior_extract_or_null :: "coro_arg list \<Rightarrow> nat option" where
  "behavior_extract_or_null as = behavior_extract_from_args as"

definition behavior_extract_or_abort :: "coro_arg list \<Rightarrow> extract_error + nat" where
  "behavior_extract_or_abort as =
     (if as = [] \<or> \<not> (\<exists>a \<in> set as. behavior_supplies_resource a) then Inl Ill_formed
      else case behavior_extract_from_args as of None \<Rightarrow> Inl Extract_aborted | Some r \<Rightarrow> Inr r)"

definition behavior_resource :: "coro_arg list \<Rightarrow> nat option" where
  "behavior_resource as = (case as of [] \<Rightarrow> None | first # _ \<Rightarrow> behavior_extract_or_null [first])"

definition behavior_operator_new ::
  "coro_arg list \<Rightarrow> 64 word \<Rightarrow> 64 word \<Rightarrow> block_heap \<Rightarrow> (64 word \<times> block_heap) outcome" where
  "behavior_operator_new as sz raw h =
     (case behavior_extract_or_abort as of
        Inl _ \<Rightarrow> Inl Aborted
      | Inr res \<Rightarrow> allocate_coro_frame (Some res) sz raw h)"

section \<open>Lemmas\<close>

lemma padded_size_16 [simp]: "padded_size = 16"
  by (simp add: padded_size_def header_size_def max_align_def)

lemma block_round:
  "block_deallocate r p n al
     (h\<lparr>allocated := (r, p, n, al) # allocated h, headers := (headers h)(p \<mapsto> hd')\<rparr>)
   = Inr (h\<lparr>headers := (headers h)(p := None)\<rparr>)"
  by (simp add: block_deallocate_def)

lemma extract_impl_supplies: "extract_resource_impl a = Some r \<Longrightarrow> supplies_resource a"
  by (cases a) (auto simp: try_get_resource_def split: if_splits)

lemma extract_first:
  "extract_resource_from_args as = Some r \<longleftrightarrow>
     (\<exists>xs a ys. as = xs @ a # ys \<and> extract_resource_impl a = Some r \<and>
        (\<forall>x \<in> set xs. extract_resource_impl x = None))"
proof (induction as)
  case (Cons a as)
  show ?case
  proof (cases "extract_resource_impl a")
    case None
    then have "extract_resource_from_args (a # as) = Some r \<longleftrightarrow> extract_resource_from_args as = Some r" by simp
    also have "\<dots> \<longleftrightarrow> (\<exists>xs b ys. a # as = xs @ b # ys \<and> extract_resource_impl b = Some r \<and>
        (\<forall>x \<in> set xs. extract_resource_impl x = None))"
      unfolding Cons.IH using None by (auto simp: Cons_eq_append_conv) (metis append_Cons set_ConsD)+
    finally show ?thesis .
  next
    case (Some s)
    show ?thesis
    proof
      assume "extract_resource_from_args (a # as) = Some r"
      with Some show "\<exists>xs b ys. a # as = xs @ b # ys \<and> extract_resource_impl b = Some r \<and>
          (\<forall>x \<in> set xs. extract_resource_impl x = None)"
        by (intro exI [of _ "[]"]) auto
    qed (use Some in \<open>auto simp: Cons_eq_append_conv\<close>)
  qed
qed simp

text \<open>The same argument with what it may yield at run time left open.\<close>

fun same_type :: "coro_arg \<Rightarrow> coro_arg \<Rightarrow> bool" where
  "same_type (Resource_arg _) (Resource_arg _) \<longleftrightarrow> True"
| "same_type (Pointer_arg m _) (Pointer_arg n _) \<longleftrightarrow> m = n"
| "same_type (Object_arg m _) (Object_arg n _) \<longleftrightarrow> m = n"
| "same_type _ _ \<longleftrightarrow> False"

lemma supplies_iff: "supplies_resource a \<longleftrightarrow> (\<exists>b r. same_type a b \<and> extract_resource_impl b = Some r)"
proof (cases a)
  case (Resource_arg res)
  have "same_type a (Resource_arg (Some 0)) \<and> extract_resource_impl (Resource_arg (Some 0)) = Some 0"
    using Resource_arg by simp
  then show ?thesis using Resource_arg by fastforce
next
  case (Pointer_arg m res)
  have "m \<Longrightarrow> same_type a (Pointer_arg m (Some 0)) \<and> extract_resource_impl (Pointer_arg m (Some 0)) = Some 0"
    using Pointer_arg by (simp add: try_get_resource_def)
  moreover have "same_type a b \<Longrightarrow> extract_resource_impl b = Some r \<Longrightarrow> m" for b r
    using Pointer_arg by (cases b) (auto simp: try_get_resource_def split: if_splits)
  ultimately show ?thesis using Pointer_arg by fastforce
next
  case (Object_arg m res)
  have "m \<Longrightarrow> same_type a (Object_arg m (Some 0)) \<and> extract_resource_impl (Object_arg m (Some 0)) = Some 0"
    using Object_arg by (simp add: try_get_resource_def)
  moreover have "same_type a b \<Longrightarrow> extract_resource_impl b = Some r \<Longrightarrow> m" for b r
    using Object_arg by (cases b) (auto simp: try_get_resource_def split: if_splits)
  ultimately show ?thesis using Object_arg by fastforce
qed

text \<open>The two copies of the search agree.\<close>

lemma behavior_extract_impl_eq: "behavior_extract_impl a = extract_resource_impl a"
  by (cases a) (simp_all add: try_get_resource_def)

lemma behavior_supplies_eq: "behavior_supplies_resource a = supplies_resource a"
  by (cases a) simp_all

lemma behavior_from_args_eq: "behavior_extract_from_args as = extract_resource_from_args as"
  by (induction as) (auto simp: behavior_extract_impl_eq Let_def split: option.splits)

lemma behavior_or_abort_eq: "behavior_extract_or_abort as = extract_resource_or_abort as"
  by (simp add: behavior_extract_or_abort_def extract_resource_or_abort_def behavior_supplies_eq
      behavior_from_args_eq)

section \<open>Properties\<close>

text \<open>C27: A frame goes back the way it came. Both forms of \<open>operator delete\<close> return the block with the
  address, size and alignment it was allocated with, to the resource the arguments named.\<close>

theorem frame_roundtrip:
  assumes "extract_resource_or_abort as = Inr r" and "raw \<noteq> 0" and "raw + 16 \<noteq> 0"
  shows "\<exists>frame h1. promise_operator_new as sz raw h = Inr (frame, h1) \<and>
    allocated h1 = (r, raw, 16 + sz, 16) # allocated h \<and>
    deallocate_coro_frame frame sz h1 = Inr (h\<lparr>headers := (headers h)(raw := None)\<rparr>) \<and>
    deallocate_coro_frame_unsized frame h1 = Inr (h\<lparr>headers := (headers h)(raw := None)\<rparr>)"
  using assms
  by (simp add: promise_operator_new_def allocate_coro_frame_def deallocate_coro_frame_def
      deallocate_coro_frame_unsized_def block_allocate_def block_round Let_def max_align_def)

theorem frame_roundtrip_witness:
  "\<exists>frame h1. promise_operator_new [Pointer_arg False None, Object_arg True (Some 3)] 64 0x1000
     \<lparr>headers = (\<lambda>_. None), allocated = []\<rparr> = Inr (frame, h1) \<and> allocated h1 = [(3, 0x1000, 80, 16)]"
proof -
  have "extract_resource_or_abort [Pointer_arg False None, Object_arg True (Some 3)] = Inr 3"
    by (simp add: extract_resource_or_abort_def try_get_resource_def)
  from frame_roundtrip [OF this, of "0x1000" 64 "\<lparr>headers = (\<lambda>_. None), allocated = []\<rparr>"]
  show ?thesis by auto
qed

text \<open>A message block goes back the way it came: the deleter finds the header in front of the
  message and returns the whole block with its size and alignment.\<close>

theorem message_block_roundtrip:
  assumes "al = 8 \<or> al = 16 \<or> al = 32 \<or> al = 64" and "raw + kFront al \<noteq> 0"
  shows "\<exists>p h1. pmr_make_message al sz r raw h = (p, h1) \<and>
    allocated h1 = (r, raw, kFront al + sz, kAllocAlign al) # allocated h \<and>
    header_size \<le> kFront al \<and> al dvd kFront al \<and> al \<le> kAllocAlign al \<and>
    message_deleter al p h1 = Inr (h\<lparr>headers := (headers h)(raw := None)\<rparr>)"
proof -
  have "kFront 8 = 16" "kFront 16 = 16" "kFront 32 = 32" "kFront 64 = 64"
    by (simp_all add: kFront_def msg_align_up_def header_size_def)
  moreover have "(8 :: 64 word) dvd 16" by (rule dvdI [of _ _ 2]) simp
  ultimately have "header_size \<le> kFront al \<and> al dvd kFront al \<and> al \<le> kAllocAlign al"
    using assms(1) by (auto simp: header_size_def kAllocAlign_def max_align_def)
  then show ?thesis
    using assms(2)
    by (simp add: pmr_make_message_def message_deleter_def base_from_message_def block_allocate_def
        block_round Let_def)
qed

theorem message_block_roundtrip_witness:
  "\<exists>p h1. pmr_make_message 64 192 3 0x2000 \<lparr>headers = (\<lambda>_. None), allocated = []\<rparr> = (p, h1) \<and>
     allocated h1 = [(3, 0x2000, 256, 64)]"
  using message_block_roundtrip [of 64 "0x2000" 192 3 "\<lparr>headers = (\<lambda>_. None), allocated = []\<rparr>"]
  by (auto simp: kFront_def msg_align_up_def header_size_def kAllocAlign_def max_align_def)

text \<open>The compile-time test is exact. A coroutine is accepted exactly when some run-time values of
  its argument types would yield a resource; when one is found it is the first in the argument list.\<close>

theorem extract_resource_exact:
  "(extract_resource_or_abort as \<noteq> Inl Ill_formed \<longleftrightarrow>
      (\<exists>a \<in> set as. \<exists>b r. same_type a b \<and> extract_resource_impl b = Some r)) \<and>
   (extract_resource_or_abort as = Inr r \<longleftrightarrow>
      (\<exists>xs a ys. as = xs @ a # ys \<and> extract_resource_impl a = Some r \<and>
         (\<forall>x \<in> set xs. extract_resource_impl x = None)))"
proof -
  have "extract_resource_or_abort as = Inr r \<longleftrightarrow> extract_resource_from_args as = Some r"
  proof
    assume s: "extract_resource_from_args as = Some r"
    then obtain xs a ys where "as = xs @ a # ys" "extract_resource_impl a = Some r"
      by (auto simp: extract_first)
    then have "\<exists>a \<in> set as. supplies_resource a" using extract_impl_supplies by auto
    with s show "extract_resource_or_abort as = Inr r"
      by (auto simp: extract_resource_or_abort_def)
  qed (auto simp: extract_resource_or_abort_def split: if_splits option.splits)
  moreover have "extract_resource_or_abort as \<noteq> Inl Ill_formed \<longleftrightarrow> (\<exists>a \<in> set as. supplies_resource a)"
    by (auto simp: extract_resource_or_abort_def split: option.splits)
  ultimately show ?thesis by (simp only: extract_first supplies_iff)
qed

theorem extract_resource_exact_witness:
  "extract_resource_or_abort [Object_arg False None, Resource_arg (Some 4), Resource_arg (Some 5)] = Inr 4"
proof -
  have "\<exists>xs a ys. [Object_arg False None, Resource_arg (Some 4), Resource_arg (Some 5)] = xs @ a # ys \<and>
      extract_resource_impl a = Some 4 \<and> (\<forall>x \<in> set xs. extract_resource_impl x = None)"
    by (rule exI [of _ "[Object_arg False None]"]) (simp add: try_get_resource_def)
  then show ?thesis
    using extract_resource_exact [of "[Object_arg False None, Resource_arg (Some 4), Resource_arg (Some 5)]" 4]
    by simp
qed

text \<open>The copy is a copy. The behavior's own search finds the resource the method promise's search
  finds, so both kinds of coroutine frame are allocated alike; its \<open>resource_\<close> is what
  the first argument alone yields.\<close>

theorem behavior_search_equivalent:
  "behavior_extract_or_abort as = extract_resource_or_abort as \<and>
   behavior_operator_new as sz raw h = promise_operator_new as sz raw h \<and>
   (behavior_resource as = (case as of [] \<Rightarrow> None | a # _ \<Rightarrow> extract_resource_impl a))"
  by (auto simp: behavior_or_abort_eq behavior_operator_new_def promise_operator_new_def
      behavior_resource_def behavior_extract_or_null_def behavior_extract_impl_eq Let_def split: list.splits)

end
