(* ===== verification/Futures.thy ===== *)
theory Futures
  imports Shared_State
begin

text \<open>
  The handles on a shared state, \<open>detail/future.hpp\<close>: \<open>promise\<close>, \<open>unique_future\<close>,
  \<open>make_error\<close> and \<open>make_ready_future\<close>. Shared states live in a heap by address, 0 is
  \<open>nullptr\<close>; an address without a state is one that has been deallocated, and touching it is
  a fault. A future may also own the frame of the coroutine that produces it. One thread runs
  here; the interleavings of the two sides are the subject of \<open>Settle_Protocol\<close>.
\<close>

section \<open>The heap\<close>

record 'v fheap =
  states :: "nat \<Rightarrow> 'v shared_state option"
  frame_done :: "nat \<Rightarrow> bool option"
  frames_destroyed :: "nat list"

datatype future_fault = Dead_state | Failed fault | Rethrown nat

definition get_state :: "nat \<Rightarrow> 'v fheap \<Rightarrow> future_fault + 'v shared_state" where
  "get_state p h = (case states h p of None \<Rightarrow> Inl Dead_state | Some s \<Rightarrow> Inr s)"

text \<open>A state that has deallocated itself is gone.\<close>

definition put_state :: "nat \<Rightarrow> 'v shared_state \<Rightarrow> 'v fheap \<Rightarrow> 'v fheap" where
  "put_state p s h = h\<lparr>states := (states h)(p := if deallocations s = 0 then Some s else None)\<rparr>"

text \<open>\<open>p\<close> is the address the resource returns.\<close>

definition allocate_shared_state :: "bool \<Rightarrow> nat \<Rightarrow> 'v fheap \<Rightarrow> future_fault + 'v fheap" where
  "allocate_shared_state resource p h =
     (if \<not> resource then Inl (Failed Assertion_failed)
      else Inr (h\<lparr>states := (states h)(p \<mapsto> ss_new)\<rparr>))"

section \<open>The promise\<close>

definition promise_new :: "bool \<Rightarrow> nat \<Rightarrow> 'v fheap \<Rightarrow> future_fault + nat \<times> 'v fheap" where
  "promise_new resource p h =
     (case allocate_shared_state resource p h of Inl f \<Rightarrow> Inl f | Inr h' \<Rightarrow> Inr (p, h'))"

definition promise_view :: "nat \<Rightarrow> nat" where
  "promise_view state = state"

definition promise_move :: "nat \<Rightarrow> nat \<times> nat" where
  "promise_move other = (other, 0)"

text \<open>The private \<open>settle\<close>: the promise's pointer and the heap it leaves.\<close>

definition promise_settle :: "nat \<Rightarrow> 'v fheap \<Rightarrow> future_fault + nat \<times> 'v fheap" where
  "promise_settle st h =
     (if st = 0 then Inl (Failed Assertion_failed)
      else case get_state st h of
        Inl f \<Rightarrow> Inl f
      | Inr s \<Rightarrow> Inr (0, put_state st (settle s) h))"

definition promise_set_value :: "bool \<Rightarrow> 'v \<Rightarrow> nat \<Rightarrow> 'v fheap \<Rightarrow> future_fault + nat \<times> 'v fheap" where
  "promise_set_value nd v st h =
     (if st = 0 then Inl (Failed Assertion_failed)
      else case get_state st h of
        Inl f \<Rightarrow> Inl f
      | Inr s \<Rightarrow>
          (case set_value nd v s of
             Inl f \<Rightarrow> Inl (Failed f)
           | Inr s' \<Rightarrow> promise_settle st (put_state st s' h)))"

definition promise_error :: "error_code \<Rightarrow> nat \<Rightarrow> 'v fheap \<Rightarrow> future_fault + nat \<times> 'v fheap" where
  "promise_error ec st h =
     (if st = 0 then Inl (Failed Assertion_failed)
      else case get_state st h of
        Inl f \<Rightarrow> Inl f
      | Inr s \<Rightarrow> promise_settle st (put_state st (set_error ec s) h))"

definition promise_exception :: "nat option \<Rightarrow> nat \<Rightarrow> 'v fheap \<Rightarrow> future_fault + nat \<times> 'v fheap" where
  "promise_exception ep st h =
     (if st = 0 then Inl (Failed Assertion_failed)
      else case ep of
        None \<Rightarrow> Inl (Failed Assertion_failed)
      | Some e \<Rightarrow>
          (case get_state st h of
             Inl f \<Rightarrow> Inl f
           | Inr s \<Rightarrow> promise_settle st (put_state st (set_exception e s) h)))"

definition release_if_needed :: "nat \<Rightarrow> 'v fheap \<Rightarrow> future_fault + nat \<times> 'v fheap" where
  "release_if_needed st h =
     (if st = 0 then Inr (st, h)
      else case get_state st h of
        Inl f \<Rightarrow> Inl f
      | Inr s \<Rightarrow> promise_settle st (put_state st (set_error Broken_pipe s) h))"

definition promise_destroy :: "nat \<Rightarrow> 'v fheap \<Rightarrow> future_fault + 'v fheap" where
  "promise_destroy st h = (case release_if_needed st h of Inl f \<Rightarrow> Inl f | Inr (_, h') \<Rightarrow> Inr h')"

text \<open>Move assignment between two different promises.\<close>

definition promise_move_assign ::
  "nat \<Rightarrow> nat \<Rightarrow> 'v fheap \<Rightarrow> future_fault + nat \<times> nat \<times> 'v fheap" where
  "promise_move_assign st other h =
     (case release_if_needed st h of Inl f \<Rightarrow> Inl f | Inr (_, h') \<Rightarrow> Inr (other, 0, h'))"

section \<open>The future\<close>

record unique_future =
  fut_state :: nat
  fut_handle :: "nat option"

definition fut_null :: unique_future where
  "fut_null = \<lparr>fut_state = 0, fut_handle = None\<rparr>"

definition fut_of_state :: "nat \<Rightarrow> unique_future" where
  "fut_of_state s = \<lparr>fut_state = s, fut_handle = None\<rparr>"

definition get_future :: "nat \<Rightarrow> future_fault + unique_future" where
  "get_future st = (if st = 0 then Inl (Failed Assertion_failed) else Inr (fut_of_state st))"

definition fut_move :: "unique_future \<Rightarrow> unique_future \<times> unique_future" where
  "fut_move other = (other, fut_null)"

text \<open>A frame parked at its final suspend point belongs to the future; a running one does not.\<close>

definition fut_release :: "unique_future \<Rightarrow> 'v fheap \<Rightarrow> future_fault + unique_future \<times> 'v fheap" where
  "fut_release f h =
     (let h1 = (case fut_handle f of
                  Some fr \<Rightarrow>
                    if frame_done h fr = Some True
                    then h\<lparr>frame_done := (frame_done h)(fr := None), frames_destroyed := frames_destroyed h @ [fr]\<rparr>
                    else h
                | None \<Rightarrow> h)
      in if fut_state f = 0 then Inr (fut_null, h1)
         else case get_state (fut_state f) h1 of
           Inl e \<Rightarrow> Inl e
         | Inr s \<Rightarrow> Inr (fut_null, put_state (fut_state f) (release_future s) h1))"

definition fut_move_assign ::
  "unique_future \<Rightarrow> unique_future \<Rightarrow> 'v fheap \<Rightarrow> future_fault + unique_future \<times> unique_future \<times> 'v fheap" where
  "fut_move_assign f other h =
     (case fut_release f h of Inl e \<Rightarrow> Inl e | Inr (_, h') \<Rightarrow> Inr (other, fut_null, h'))"

definition check_extractable :: "unique_future \<Rightarrow> 'v fheap \<Rightarrow> future_fault + 'v shared_state" where
  "check_extractable f h =
     (if fut_state f = 0 then Inl (Failed Assertion_failed)
      else case get_state (fut_state f) h of
        Inl e \<Rightarrow> Inl e
      | Inr s \<Rightarrow>
          (case rethrow_if_exception s of
             Inl ep \<Rightarrow> Inl (Rethrown ep)
           | Inr _ \<Rightarrow> if \<not> has_result s \<or> has_error s then Inl (Failed Aborted) else Inr s))"

definition take_ready ::
  "bool \<Rightarrow> bool \<Rightarrow> unique_future \<Rightarrow> 'v fheap \<Rightarrow> future_fault + 'v \<times> unique_future \<times> 'v fheap" where
  "take_ready nd trivial f h =
     (case check_extractable f h of
        Inl e \<Rightarrow> Inl e
      | Inr s \<Rightarrow>
          (case take_value nd trivial s of
             Inl e \<Rightarrow> Inl (Failed e)
           | Inr (v, s') \<Rightarrow>
               (case fut_release f (put_state (fut_state f) s' h) of
                  Inl e \<Rightarrow> Inl e
                | Inr (f', h') \<Rightarrow> Inr (v, f', h'))))"

definition fut_is_ready :: "unique_future \<Rightarrow> 'v fheap \<Rightarrow> future_fault + bool" where
  "fut_is_ready f h =
     (if fut_state f = 0 then Inr False else map_sum id is_ready (get_state (fut_state f) h))"

definition fut_failed :: "unique_future \<Rightarrow> 'v fheap \<Rightarrow> future_fault + bool" where
  "fut_failed f h =
     (if fut_state f = 0 then Inr False else map_sum id has_error (get_state (fut_state f) h))"

definition fut_error :: "unique_future \<Rightarrow> 'v fheap \<Rightarrow> future_fault + error_code" where
  "fut_error f h =
     (if fut_state f = 0 then Inr No_error else map_sum id get_error (get_state (fut_state f) h))"

definition fut_detach :: "unique_future \<Rightarrow> 'v fheap \<Rightarrow> future_fault + unique_future \<times> 'v fheap" where
  "fut_detach f h = fut_release f h"

text \<open>The producing coroutine's handle is withheld once the state is ready.\<close>

definition coroutine_handle :: "unique_future \<Rightarrow> 'v fheap \<Rightarrow> future_fault + nat option" where
  "coroutine_handle f h =
     (if fut_state f = 0 then Inr None
      else map_sum id (\<lambda>s. if is_ready s then None else fut_handle f) (get_state (fut_state f) h))"

section \<open>Ready-made futures\<close>

definition make_error ::
  "bool \<Rightarrow> nat \<Rightarrow> error_code \<Rightarrow> 'v fheap \<Rightarrow> future_fault + unique_future \<times> 'v fheap" where
  "make_error res p ec h =
     (case promise_new res p h of
        Inl e \<Rightarrow> Inl e
      | Inr (pr, h1) \<Rightarrow>
          (case get_future pr of
             Inl e \<Rightarrow> Inl e
           | Inr f \<Rightarrow>
               (case promise_error ec pr h1 of
                  Inl e \<Rightarrow> Inl e
                | Inr (pr', h2) \<Rightarrow>
                    (case promise_destroy pr' h2 of Inl e \<Rightarrow> Inl e | Inr h3 \<Rightarrow> Inr (f, h3)))))"

definition make_ready_future ::
  "bool \<Rightarrow> bool \<Rightarrow> nat \<Rightarrow> 'v \<Rightarrow> 'v fheap \<Rightarrow> future_fault + unique_future \<times> 'v fheap" where
  "make_ready_future nd res p value h =
     (if \<not> res then Inl (Failed Assertion_failed)
      else case promise_new res p h of
        Inl e \<Rightarrow> Inl e
      | Inr (pr, h1) \<Rightarrow>
          (case get_future pr of
             Inl e \<Rightarrow> Inl e
           | Inr f \<Rightarrow>
               (case promise_set_value nd value pr h1 of
                  Inl e \<Rightarrow> Inl e
                | Inr (pr', h2) \<Rightarrow>
                    (case promise_destroy pr' h2 of Inl e \<Rightarrow> Inl e | Inr h3 \<Rightarrow> Inr (f, h3)))))"

section \<open>What a settled state looks like\<close>

text \<open>The four ways a promise ends, run on a fresh state.\<close>

fun produce :: "bool \<Rightarrow> ('v + error_code) + (nat + unit) \<Rightarrow> nat \<Rightarrow> 'v fheap \<Rightarrow> future_fault + nat \<times> 'v fheap" where
  "produce nd (Inl (Inl v)) st h = promise_set_value nd v st h"
| "produce nd (Inl (Inr ec)) st h = promise_error ec st h"
| "produce nd (Inr (Inl ep)) st h = promise_exception (Some ep) st h"
| "produce nd (Inr (Inr _)) st h = release_if_needed st h"

lemmas promise_defs = promise_settle_def promise_set_value_def promise_error_def promise_exception_def
  release_if_needed_def get_state_def put_state_def set_value_def set_error_def set_exception_def
  settle_def fetch_or_flags_def fetch_and_flags_def release_promise_def release_repair_def release_bits_def
  try_complete_finalize_def cas_flags_def finalize_expected_def finalize_desired_def deallocate_def
  rs_emplace_def rs_new_def ss_new_def sf_defs Let_def

lemmas future_defs = take_ready_def check_extractable_def rethrow_if_exception_def fut_release_def
  fut_is_ready_def fut_failed_def fut_error_def is_ready_def has_result_def has_error_def get_error_def
  take_value_def rs_take_def move_out_def release_future_def fut_of_state_def fut_null_def

lemma produce_value:
  assumes "st \<noteq> 0" and "states h st = Some ss_new"
  shows "produce nd (Inl (Inl v)) st h = Inr (0, h\<lparr>states := (states h)(st \<mapsto>
    ss_new\<lparr>flags := sf_value_set OR sf_promise_released, result := \<lparr>storage = Some v, has_value = True, was_moved_from = False\<rparr>\<rparr>)\<rparr>)"
  using assms by (simp add: promise_defs)

lemma produce_error:
  assumes "st \<noteq> 0" and "states h st = Some ss_new"
  shows "produce nd (Inl (Inr ec)) st h = Inr (0, h\<lparr>states := (states h)(st \<mapsto>
    ss_new\<lparr>flags := sf_error_set OR sf_promise_released, err := ec\<rparr>)\<rparr>)"
  using assms by (simp add: promise_defs)

lemma produce_exception:
  assumes "st \<noteq> 0" and "states h st = Some ss_new"
  shows "produce nd (Inr (Inl ep)) st h = Inr (0, h\<lparr>states := (states h)(st \<mapsto>
    ss_new\<lparr>flags := sf_error_set OR sf_promise_released, err := Interrupted, exception := Some ep\<rparr>)\<rparr>)"
  using assms by (simp add: promise_defs)

lemma produce_nothing:
  assumes "st \<noteq> 0" and "states h st = Some ss_new"
  shows "produce nd (Inr (Inr u)) st h = Inr (0, h\<lparr>states := (states h)(st \<mapsto>
    ss_new\<lparr>flags := sf_error_set OR sf_promise_released, err := Broken_pipe\<rparr>)\<rparr>)"
  using assms by (simp add: promise_defs)

text \<open>What each way of ending shows the future.\<close>

fun outcome_error :: "('v + error_code) + (nat + unit) \<Rightarrow> error_code" where
  "outcome_error (Inl (Inl v)) = No_error"
| "outcome_error (Inl (Inr ec)) = ec"
| "outcome_error (Inr (Inl ep)) = Interrupted"
| "outcome_error (Inr (Inr u)) = Broken_pipe"

fun outcome_taken ::
  "('v + error_code) + (nat + unit) \<Rightarrow> 'v fheap \<Rightarrow> future_fault + 'v \<times> unique_future \<times> 'v fheap" where
  "outcome_taken (Inl (Inl v)) h = Inr (v, fut_null, h)"
| "outcome_taken (Inr (Inl ep)) h = Inl (Rethrown ep)"
| "outcome_taken _ h = Inl (Failed Aborted)"

lemma outcome_cases:
  obtains v where "x = Inl (Inl v)" | ec where "x = Inl (Inr ec)" | ep where "x = Inr (Inl ep)"
    | u where "x = Inr (Inr u)"
  by (metis old.sum.exhaust)

lemma produced_observed:
  assumes "st \<noteq> 0" and "states h st = Some ss_new"
  shows "\<exists>h'. produce nd x st h = Inr (0, h') \<and> fut_is_ready (fut_of_state st) h' = Inr True \<and>
    fut_failed (fut_of_state st) h' = Inr (\<not> (\<exists>v. x = Inl (Inl v))) \<and>
    fut_error (fut_of_state st) h' = Inr (outcome_error x) \<and>
    take_ready nd trivial (fut_of_state st) h' = outcome_taken x (h\<lparr>states := (states h)(st := None)\<rparr>) \<and>
    fut_release (fut_of_state st) h' = Inr (fut_null, h\<lparr>states := (states h)(st := None)\<rparr>)"
proof (rule outcome_cases [of x])
  fix v assume x: "x = Inl (Inl v)"
  show ?thesis unfolding x produce_value [OF assms]
    using assms by (simp add: future_defs promise_defs)
next
  fix ec assume x: "x = Inl (Inr ec)"
  show ?thesis unfolding x produce_error [OF assms]
    using assms by (simp add: future_defs promise_defs)
next
  fix ep assume x: "x = Inr (Inl ep)"
  show ?thesis unfolding x produce_exception [OF assms]
    using assms by (simp add: future_defs promise_defs)
next
  fix u assume x: "x = Inr (Inr u)"
  show ?thesis unfolding x produce_nothing [OF assms]
    using assms by (simp add: future_defs promise_defs)
qed

lemma detached_produced:
  assumes "st \<noteq> 0" and "states h st = Some ss_new"
  shows "\<exists>h1. fut_release (fut_of_state st) h = Inr (fut_null, h1) \<and>
    produce nd x st h1 = Inr (0, h\<lparr>states := (states h)(st := None)\<rparr>)"
  using assms by (rule_tac outcome_cases [of x]) (simp_all add: future_defs promise_defs)

section \<open>Properties\<close>

text \<open>C28: A promise always answers. However it ends (value, error, exception, or dying without an
  outcome), the future is ready, reports exactly that outcome, extraction yields the value, rethrows
  the exception or refuses, and the state is gone once both sides are through, in either order.\<close>

theorem promise_always_answers:
  assumes "st \<noteq> 0" and "states h st = Some ss_new"
  shows "(\<exists>h'. produce nd x st h = Inr (0, h') \<and> fut_is_ready (fut_of_state st) h' = Inr True \<and>
      fut_failed (fut_of_state st) h' = Inr (\<not> (\<exists>v. x = Inl (Inl v))) \<and>
      fut_error (fut_of_state st) h' = Inr (outcome_error x) \<and>
      take_ready nd trivial (fut_of_state st) h' = outcome_taken x (h\<lparr>states := (states h)(st := None)\<rparr>) \<and>
      fut_release (fut_of_state st) h' = Inr (fut_null, h\<lparr>states := (states h)(st := None)\<rparr>)) \<and>
    (\<exists>h1. fut_release (fut_of_state st) h = Inr (fut_null, h1) \<and>
      produce nd x st h1 = Inr (0, h\<lparr>states := (states h)(st := None)\<rparr>))"
  using produced_observed [OF assms] detached_produced [OF assms] by blast

definition empty_fheap :: "'v fheap" where
  "empty_fheap = \<lparr>states = (\<lambda>_. None), frame_done = (\<lambda>_. None), frames_destroyed = []\<rparr>"

theorem promise_always_answers_witness:
  "\<exists>h'. produce False (Inr (Inr ())) 5 (empty_fheap\<lparr>states := [5 \<mapsto> ss_new]\<rparr> :: nat fheap) = Inr (0, h') \<and>
     fut_error (fut_of_state 5) h' = Inr Broken_pipe"
  using promise_always_answers [of 5 "empty_fheap\<lparr>states := [5 \<mapsto> ss_new]\<rparr> :: nat fheap" False "Inr (Inr ())" True]
  by auto

text \<open>A ready-made future is what it says: ready at once, its value or error is the one given, and
  extracting the value leaves the heap as it was before.\<close>

theorem ready_future_roundtrip:
  assumes "p \<noteq> 0" and "states h p = None"
  shows "(\<exists>f h'. make_ready_future nd True p v h = Inr (f, h') \<and> fut_is_ready f h' = Inr True \<and>
      fut_failed f h' = Inr False \<and> take_ready nd trivial f h' = Inr (v, fut_null, h)) \<and>
    (\<exists>f h'. make_error True p ec h = Inr (f, h') \<and> fut_is_ready f h' = Inr True \<and>
      fut_error f h' = Inr ec \<and> take_ready nd trivial f h' = Inl (Failed Aborted) \<and>
      fut_release f h' = Inr (fut_null, h))"
proof -
  let ?h = "h\<lparr>states := (states h)(p \<mapsto> ss_new)\<rparr>"
  have s: "states ?h p = Some ss_new" by simp
  have undo: "?h\<lparr>states := (states ?h)(p := None)\<rparr> = h" using assms(2) by (simp add: fun_upd_idem)
  note val = produced_observed [OF assms(1) s, of nd "Inl (Inl v)" trivial, unfolded undo]
  note er = produced_observed [OF assms(1) s, of nd "Inl (Inr ec)" trivial, unfolded undo]
  have destroy: "promise_destroy 0 h' = Inr h'" for h'

    by (simp add: promise_destroy_def release_if_needed_def)
  show ?thesis
    using val er assms(1)
    by (auto simp: make_ready_future_def make_error_def promise_new_def allocate_shared_state_def
        get_future_def destroy)
qed

theorem ready_future_roundtrip_witness:
  "\<exists>f h'. make_ready_future False True 3 (42 :: nat) empty_fheap = Inr (f, h') \<and>
     take_ready False True f h' = Inr (42, fut_null, empty_fheap)"
  using ready_future_roundtrip [of 3 "empty_fheap :: nat fheap" False 42 True No_error]
  by (auto simp: empty_fheap_def)

end
