(* ===== verification/Messages.thy ===== *)
theory Messages
  imports Futures Rtt Message_Id Frame_Blocks
begin

text \<open>
  Messages (\<open>mailbox/message.hpp\<close>, \<open>impl/mailbox/message.ipp\<close>) and their construction
  (\<open>mailbox/make_message.hpp\<close>): a command, the argument block, and the result slot, a
  type-erased pointer to the shared state of the sender's future together with the function
  that cancels it. A message that dies with an untransferred slot answers the future itself.
  The world holds what the parts keep elsewhere: the heap of shared states, the arena of the
  argument blocks and the heap of message blocks.
\<close>

section \<open>Messages\<close>

record message =
  m_command :: message_id
  m_body :: rtt
  m_result_slot :: nat
  m_cleanup_fn :: bool
  m_transferred :: bool

record 'v world =
  w_heap :: "'v fheap"
  w_arena :: "'v arena"
  w_blocks :: block_heap

datatype msg_fault = Null_memory | Future_fault future_fault | Body_fault rtt_fault
  | Block_fault fault | Bad_alloc | Empty_body

definition message_named :: "nat option \<Rightarrow> message_id \<Rightarrow> msg_fault + message" where
  "message_named res name =
     (case rtt_new0 res of
        Inl f \<Rightarrow> Inl (Body_fault f)
      | Inr b \<Rightarrow> Inr \<lparr>m_command = name, m_body = b, m_result_slot = 0, m_cleanup_fn = False,
                     m_transferred = False\<rparr>)"

text \<open>The message and what is left of the body it took.\<close>

definition message_with_body :: "nat option \<Rightarrow> message_id \<Rightarrow> rtt \<Rightarrow> msg_fault + message \<times> rtt" where
  "message_with_body res name body =
     (case rtt_move_alloc res body of
        Inl f \<Rightarrow> Inl (Body_fault f)
      | Inr (b, gone) \<Rightarrow> Inr (\<lparr>m_command = name, m_body = b, m_result_slot = 0, m_cleanup_fn = False,
                            m_transferred = False\<rparr>, gone))"

text \<open>\<open>command_\<close> has no initialiser here; \<open>junk\<close> is what the memory holds.\<close>

definition message_bare :: "message_id \<Rightarrow> nat option \<Rightarrow> msg_fault + message" where
  "message_bare junk res = message_named res junk"

definition msg_moved_from :: "message \<Rightarrow> message" where
  "msg_moved_from m = m\<lparr>m_body := rtt_moved_from, m_result_slot := 0, m_cleanup_fn := False,
                        m_transferred := False\<rparr>"

definition message_move :: "message \<Rightarrow> message \<times> message" where
  "message_move other = (other, msg_moved_from other)"

definition message_move_alloc :: "nat option \<Rightarrow> message \<Rightarrow> msg_fault + message \<times> message" where
  "message_move_alloc res other =
     (case rtt_move_alloc res (m_body other) of
        Inl f \<Rightarrow> Inl (Body_fault f)
      | Inr (b, gone) \<Rightarrow> Inr (other\<lparr>m_body := b\<rparr>, (msg_moved_from other)\<lparr>m_body := gone\<rparr>))"

definition cleanup_fn :: "nat \<Rightarrow> 'v fheap \<Rightarrow> msg_fault + 'v fheap" where
  "cleanup_fn p h =
     (case get_state p h of
        Inl f \<Rightarrow> Inl (Future_fault f)
      | Inr s \<Rightarrow> Inr (put_state p (cleanup_slot s) h))"

definition owes :: "message \<Rightarrow> bool" where
  "owes m \<longleftrightarrow> \<not> m_transferred m \<and> m_cleanup_fn m \<and> m_result_slot m \<noteq> 0"

definition run_cleanup :: "message \<Rightarrow> 'v fheap \<Rightarrow> msg_fault + 'v fheap" where
  "run_cleanup m h = (if owes m then cleanup_fn (m_result_slot m) h else Inr h)"

text \<open>The body of the destructor, then the members; only the argument block has work to do.\<close>

definition message_destroy :: "message \<Rightarrow> 'v world \<Rightarrow> msg_fault + 'v world" where
  "message_destroy m w =
     (case run_cleanup m (w_heap w) of
        Inl f \<Rightarrow> Inl f
      | Inr h \<Rightarrow>
          (case rtt_clear (m_body m) (w_arena w) of
             Inl f \<Rightarrow> Inl (Body_fault f)
           | Inr (_, A) \<Rightarrow> Inr (w\<lparr>w_heap := h, w_arena := A\<rparr>)))"

text \<open>Move assignment between two different messages.\<close>

definition message_move_assign ::
  "message \<Rightarrow> message \<Rightarrow> 'v world \<Rightarrow> msg_fault + message \<times> message \<times> 'v world" where
  "message_move_assign m other w =
     (case run_cleanup m (w_heap w) of
        Inl f \<Rightarrow> Inl f
      | Inr h \<Rightarrow>
          (case rtt_move_assign (m_body m) (m_body other) (w_arena w) of
             Inl f \<Rightarrow> Inl (Body_fault f)
           | Inr (b, gone, A) \<Rightarrow>
               Inr (other\<lparr>m_body := b\<rparr>, (msg_moved_from other)\<lparr>m_body := gone\<rparr>,
                    w\<lparr>w_heap := h, w_arena := A\<rparr>)))"

text \<open>\<open>std::swap\<close> of the bodies: a move construction, two move assignments, and the temporary's end.\<close>

definition rtt_swap :: "rtt \<Rightarrow> rtt \<Rightarrow> 'v arena \<Rightarrow> rtt_fault + rtt \<times> rtt \<times> 'v arena" where
  "rtt_swap a b A =
     (let (tmp, a1) = rtt_move_ctor a in
      case rtt_move_assign a1 b A of
        Inl f \<Rightarrow> Inl f
      | Inr (a2, b1, A1) \<Rightarrow>
          (case rtt_move_assign b1 tmp A1 of
             Inl f \<Rightarrow> Inl f
           | Inr (b2, tmp1, A2) \<Rightarrow>
               (case rtt_clear tmp1 A2 of Inl f \<Rightarrow> Inl f | Inr (_, A3) \<Rightarrow> Inr (a2, b2, A3))))"

definition message_swap :: "message \<Rightarrow> message \<Rightarrow> 'v arena \<Rightarrow> msg_fault + message \<times> message \<times> 'v arena" where
  "message_swap m other A =
     (case rtt_swap (m_body m) (m_body other) A of
        Inl f \<Rightarrow> Inl (Body_fault f)
      | Inr (b, b', A') \<Rightarrow> Inr (other\<lparr>m_body := b\<rparr>, m\<lparr>m_body := b'\<rparr>, A'))"

definition set_command :: "message_id \<Rightarrow> message \<Rightarrow> message" where
  "set_command i m = m\<lparr>m_command := i\<rparr>"

definition message_body :: "message \<Rightarrow> msg_fault + rtt" where
  "message_body m = (if rtt_is_empty (m_body m) then Inl Empty_body else Inr (m_body m))"

definition message_bool :: "message \<Rightarrow> bool" where
  "message_bool m \<longleftrightarrow> m_command m \<noteq> 0 \<or> \<not> rtt_is_empty (m_body m)"

definition init_future_slot :: "nat \<Rightarrow> message \<Rightarrow> message" where
  "init_future_slot state m = m\<lparr>m_result_slot := state, m_cleanup_fn := True\<rparr>"

definition get_result_promise :: "message \<Rightarrow> nat" where
  "get_result_promise m = promise_view (m_result_slot m)"

definition transfer_ownership :: "message \<Rightarrow> message" where
  "transfer_ownership m = m\<lparr>m_transferred := True\<rparr>"

definition has_result_slot :: "message \<Rightarrow> bool" where
  "has_result_slot m \<longleftrightarrow> m_result_slot m \<noteq> 0"

text \<open>\<open>message_deleter\<close> around the destructor, for the message at address \<open>p\<close>.\<close>

definition delete_message :: "64 word \<Rightarrow> 64 word \<Rightarrow> message \<Rightarrow> 'v world \<Rightarrow> msg_fault + 'v world" where
  "delete_message al p m w =
     (if p = 0 then Inr w
      else case message_destroy m w of
        Inl f \<Rightarrow> Inl f
      | Inr w1 \<Rightarrow>
          (case message_deleter al p (w_blocks w1) of
             Inl f \<Rightarrow> Inl (Block_fault f)
           | Inr bs \<Rightarrow> Inr (w1\<lparr>w_blocks := bs\<rparr>)))"

section \<open>make_message\<close>

text \<open>
  What the memory resource returns: for the shared state, for the argument block, and for the
  message (\<open>None\<close>: it throws). A failed construction leaves the world it stopped in.
\<close>

record resources =
  sup_state :: nat
  sup_args :: size_t
  sup_msg :: "64 word option"

type_synonym 'v made = "msg_fault \<times> 'v world + (64 word \<times> message) \<times> unique_future \<times> 'v world"

definition make_message0 ::
  "64 word \<Rightarrow> 64 word \<Rightarrow> nat option \<Rightarrow> message_name \<Rightarrow> resources \<Rightarrow> 'v world \<Rightarrow> 'v made" where
  "make_message0 al sz res name sv w =
     (case res of None \<Rightarrow> Inl (Null_memory, w) | Some r \<Rightarrow>
      (case allocate_shared_state True (sup_state sv) (w_heap w) of
         Inl f \<Rightarrow> Inl (Future_fault f, w)
       | Inr h \<Rightarrow>
           (case sup_msg sv of
              None \<Rightarrow> Inl (Bad_alloc, w\<lparr>w_heap := h\<rparr>)
            | Some raw \<Rightarrow>
                (case message_named res (to_message_id name) of
                   Inl f \<Rightarrow> Inl (f, w\<lparr>w_heap := h\<rparr>)
                 | Inr m \<Rightarrow>
                     (let (p, bs) = pmr_make_message al sz r raw (w_blocks w)
                      in Inr ((p, init_future_slot (sup_state sv) m), fut_of_state (sup_state sv),
                              w\<lparr>w_heap := h, w_blocks := bs\<rparr>))))))"

definition make_message ::
  "64 word \<Rightarrow> 64 word \<Rightarrow> nat option \<Rightarrow> message_name \<Rightarrow> 'v argument list \<Rightarrow> resources \<Rightarrow> 'v world \<Rightarrow> 'v made" where
  "make_message al sz res name args sv w =
     (case res of None \<Rightarrow> Inl (Null_memory, w) | Some r \<Rightarrow>
      (case allocate_shared_state True (sup_state sv) (w_heap w) of
         Inl f \<Rightarrow> Inl (Future_fault f, w)
       | Inr h \<Rightarrow>
           (case rtt_new res args (sup_args sv) (w_arena w) of
              Inl (f, A) \<Rightarrow> Inl (Body_fault f, w\<lparr>w_heap := h, w_arena := A\<rparr>)
            | Inr (b, A) \<Rightarrow>
                (case sup_msg sv of
                   None \<Rightarrow>
                     (case rtt_clear b A of
                        Inl f \<Rightarrow> Inl (Body_fault f, w\<lparr>w_heap := h, w_arena := A\<rparr>)
                      | Inr (_, A') \<Rightarrow> Inl (Bad_alloc, w\<lparr>w_heap := h, w_arena := A'\<rparr>))
                 | Some raw \<Rightarrow>
                     (case message_with_body res (to_message_id name) b of
                        Inl f \<Rightarrow> Inl (f, w\<lparr>w_heap := h, w_arena := A\<rparr>)
                      | Inr (m, gone) \<Rightarrow>
                          (case rtt_clear gone A of
                             Inl f \<Rightarrow> Inl (Body_fault f, w\<lparr>w_heap := h, w_arena := A\<rparr>)
                           | Inr (_, A') \<Rightarrow>
                               (let (p, bs) = pmr_make_message al sz r raw (w_blocks w)
                                in Inr ((p, init_future_slot (sup_state sv) m),
                                        fut_of_state (sup_state sv),
                                        w\<lparr>w_heap := h, w_arena := A', w_blocks := bs\<rparr>))))))))"

section \<open>Lemmas\<close>

lemma message_block_returned:
  assumes "headers h raw = None" and "raw + kFront al \<noteq> 0"
  shows "\<exists>h'. pmr_make_message al sz r raw h = (raw + kFront al, h') \<and>
    message_deleter al (raw + kFront al) h' = Inr h"
  using assms by (simp add: pmr_make_message_def message_deleter_def base_from_message_def
      block_allocate_def block_deallocate_def fun_upd_idem Let_def)

lemmas cancel_defs = cleanup_fn_def cleanup_slot_def promise_defs

text \<open>Cancelling an untouched state: the future learns of it, and its release frees the state.\<close>

lemma cancelled_observed:
  assumes "st \<noteq> 0" and "states h st = Some ss_new"
  shows "\<exists>h'. cleanup_fn st h = Inr h' \<and> fut_is_ready (fut_of_state st) h' = Inr True \<and>
    fut_error (fut_of_state st) h' = Inr Operation_canceled \<and>
    take_ready nd trivial (fut_of_state st) h' = Inl (Failed Aborted) \<and>
    fut_release (fut_of_state st) h' = Inr (fut_null, h\<lparr>states := (states h)(st := None)\<rparr>)"
  using assms by (simp add: cancel_defs future_defs)

lemma detached_cancelled:
  assumes "st \<noteq> 0" and "states h st = Some ss_new"
  shows "\<exists>h1. fut_release (fut_of_state st) h = Inr (fut_null, h1) \<and>
    cleanup_fn st h1 = Inr (h\<lparr>states := (states h)(st := None)\<rparr>)"
  using assms by (simp add: cancel_defs future_defs)

text \<open>The message that \<open>make_message\<close> builds when nothing fails.\<close>

definition fresh_message :: "message_name \<Rightarrow> rtt \<Rightarrow> nat \<Rightarrow> message" where
  "fresh_message name b st = \<lparr>m_command = to_message_id name, m_body = b, m_result_slot = st,
     m_cleanup_fn = True, m_transferred = False\<rparr>"

lemma make_message_built:
  assumes "args \<noteq> []" and "rtt_new (Some r) args (sup_args sv) (w_arena w) = Inr (b, A)"
    and "r_resource b = Some r" and "sup_msg sv = Some raw"
    and "pmr_make_message al sz r raw (w_blocks w) = (p, bs)"
  shows "make_message al sz (Some r) name args sv w =
    Inr ((p, fresh_message name b (sup_state sv)), fut_of_state (sup_state sv),
      w\<lparr>w_heap := (w_heap w)\<lparr>states := (states (w_heap w))(sup_state sv \<mapsto> ss_new)\<rparr>,
        w_arena := A, w_blocks := bs\<rparr>)"
proof -
  have b: "b\<lparr>r_resource := Some r\<rparr> = b" using assms(3) by simp
  show ?thesis
    using assms
    by (simp add: make_message_def allocate_shared_state_def message_with_body_def rtt_move_alloc_def
        check_resource_def b rtt_moved_from_def rtt_empty_def rtt_clear_def init_future_slot_def
        fresh_message_def)
qed

lemma owes_fresh [simp]: "owes (fresh_message name b st) \<longleftrightarrow> st \<noteq> 0"
  by (simp add: owes_def fresh_message_def)

section \<open>Obligations\<close>

text \<open>What a program may do to its messages, short of handing the slot to a dispatcher.\<close>

datatype msg_op = Op_move nat | Op_assign nat nat | Op_swap nat nat | Op_command nat message_id | Op_destroy nat

definition live_at :: "message option list \<Rightarrow> nat \<Rightarrow> message option" where
  "live_at ms i = (if i < length ms then ms ! i else None)"

fun apply_op :: "msg_op \<Rightarrow> message option list \<times> 'v world \<Rightarrow> msg_fault + message option list \<times> 'v world" where
  "apply_op (Op_move i) (ms, w) =
     (case live_at ms i of None \<Rightarrow> Inr (ms, w)
      | Some m \<Rightarrow> (let (m1, m0) = message_move m in Inr (ms[i := Some m0] @ [Some m1], w)))"
| "apply_op (Op_assign i j) (ms, w) =
     (case (live_at ms i, live_at ms j) of
        (Some m, Some m') \<Rightarrow>
          if i = j then Inr (ms, w)
          else (case message_move_assign m m' w of
                  Inl f \<Rightarrow> Inl f
                | Inr (n, n', w') \<Rightarrow> Inr (ms[i := Some n, j := Some n'], w'))
      | _ \<Rightarrow> Inr (ms, w))"
| "apply_op (Op_swap i j) (ms, w) =
     (case (live_at ms i, live_at ms j) of
        (Some m, Some m') \<Rightarrow>
          if i = j then Inr (ms, w)
          else (case message_swap m m' (w_arena w) of
                  Inl f \<Rightarrow> Inl f
                | Inr (n, n', A) \<Rightarrow> Inr (ms[i := Some n, j := Some n'], w\<lparr>w_arena := A\<rparr>))
      | _ \<Rightarrow> Inr (ms, w))"
| "apply_op (Op_command i c) (ms, w) =
     (case live_at ms i of None \<Rightarrow> Inr (ms, w) | Some m \<Rightarrow> Inr (ms[i := Some (set_command c m)], w))"
| "apply_op (Op_destroy i) (ms, w) =
     (case live_at ms i of None \<Rightarrow> Inr (ms, w)
      | Some m \<Rightarrow> (case message_destroy m w of Inl f \<Rightarrow> Inl f | Inr w' \<Rightarrow> Inr (ms[i := None], w')))"

fun run_ops :: "msg_op list \<Rightarrow> message option list \<times> 'v world \<Rightarrow> msg_fault + message option list \<times> 'v world" where
  "run_ops [] s = Inr s"
| "run_ops (c # cs) s = (case apply_op c s of Inl f \<Rightarrow> Inl f | Inr s' \<Rightarrow> run_ops cs s')"

definition owes_slot :: "nat \<Rightarrow> message option \<Rightarrow> bool" where
  "owes_slot p x \<longleftrightarrow> (case x of Some m \<Rightarrow> owes m \<and> m_result_slot m = p | None \<Rightarrow> False)"

definition owed :: "nat \<Rightarrow> message option list \<Rightarrow> nat" where
  "owed p ms = count_if (owes_slot p) ms"

definition unanswered :: "nat \<Rightarrow> 'v fheap \<Rightarrow> bool" where
  "unanswered p h \<longleftrightarrow> (\<exists>s. states h p = Some s \<and> deallocations s = 0)"

definition obligations_ok :: "message option list \<Rightarrow> 'v world \<Rightarrow> bool" where
  "obligations_ok ms w \<longleftrightarrow> (\<forall>p. owed p ms \<le> 1 \<and> (owed p ms = 1 \<longrightarrow> unanswered p (w_heap w)))"

text \<open>What cancelling leaves of a state: nothing, if its future is already gone.\<close>

definition cancelled :: "'v shared_state \<Rightarrow> 'v shared_state option" where
  "cancelled s = (if flags s AND sf_future_released \<noteq> 0 then None else Some (cleanup_slot s))"

definition answered_exactly :: "message option list \<Rightarrow> 'v world \<Rightarrow> message option list \<Rightarrow> 'v world \<Rightarrow> bool" where
  "answered_exactly ms w ms' w' \<longleftrightarrow> (\<forall>p. owed p ms' \<le> owed p ms \<and>
     states (w_heap w') p = (if owed p ms' < owed p ms then Option.bind (states (w_heap w) p) cancelled
                             else states (w_heap w) p))"

lemma cleanup_fn_cancels:
  assumes "states h p = Some s" and "deallocations s = 0"
  shows "cleanup_fn p h = Inr (h\<lparr>states := (states h)(p := cancelled s)\<rparr>)"
proof -
  have "deallocations (cleanup_slot s) = (if flags s AND sf_future_released \<noteq> 0 then 1 else 0)"
    using assms(2)
    by (simp add: cleanup_slot_def set_error_def fetch_or_flags_def release_promise_def release_repair_def
        release_bits_def deallocate_def Let_def)
  then show ?thesis
    using assms(1) by (simp add: cleanup_fn_def get_state_def put_state_def cancelled_def)
qed

lemma owed_update:
  assumes "live_at ms i = Some m"
  shows "owed p (ms[i := x]) + (if owes_slot p (Some m) then 1 else 0) = owed p ms + (if owes_slot p x then 1 else 0)"
  using assms count_if_update [of i ms "owes_slot p" x]
  by (simp add: owed_def live_at_def split: if_splits)

lemma live_at_update [simp]: "i \<noteq> j \<Longrightarrow> live_at (ms[i := x]) j = live_at ms j"
  by (simp add: live_at_def)

lemma owed_live: "live_at ms i = Some m \<Longrightarrow> owes m \<Longrightarrow> 0 < owed (m_result_slot m) ms"
  using owed_update [of ms i m "m_result_slot m" None] by (simp add: owes_slot_def)

lemma owes_slot_simps [simp]:
  "\<not> owes_slot p None" "\<not> owes_slot p (Some (msg_moved_from m))"
  "owes_slot p (Some (m\<lparr>m_body := b\<rparr>)) = owes_slot p (Some m)"
  "owes_slot p (Some (set_command c m)) = owes_slot p (Some m)"
  by (simp_all add: owes_slot_def owes_def msg_moved_from_def set_command_def)

lemma answered_refl [simp]: "(\<And>p. owed p ms' = owed p ms) \<Longrightarrow> w_heap w' = w_heap w \<Longrightarrow> answered_exactly ms w ms' w'"
  by (simp add: answered_exactly_def)

lemma answered_trans:
  assumes "obligations_ok ms w" and "answered_exactly ms w ms1 w1" and "answered_exactly ms1 w1 ms2 w2"
  shows "answered_exactly ms w ms2 w2"
  unfolding answered_exactly_def
proof
  fix p
  have "owed p ms \<le> 1" using assms(1) by (simp add: obligations_ok_def)
  then show "owed p ms2 \<le> owed p ms \<and>
     states (w_heap w2) p = (if owed p ms2 < owed p ms then Option.bind (states (w_heap w) p) cancelled
                             else states (w_heap w) p)"
    using assms(2,3) [unfolded answered_exactly_def, THEN spec [of _ p]]
    by (auto split: if_splits)
qed

lemma answered_keeps: "obligations_ok ms w \<Longrightarrow> answered_exactly ms w ms' w' \<Longrightarrow> obligations_ok ms' w'"
  unfolding obligations_ok_def answered_exactly_def unanswered_def
  by (metis le_antisym le_trans less_irrefl)

lemma run_cleanup_ok:
  assumes "obligations_ok ms w" and "live_at ms i = Some m"
  obtains h where "run_cleanup m (w_heap w) = Inr h"
    and "states h = (if owes m then (states (w_heap w))(m_result_slot m :=
           Option.bind (states (w_heap w) (m_result_slot m)) cancelled) else states (w_heap w))"
proof (cases "owes m")
  case True
  let ?p = "m_result_slot m"
  have "owed ?p ms = 1"
    using owed_live [OF assms(2) True] assms(1) unfolding obligations_ok_def by (metis le_neq_implies_less less_one neq0_conv not_less)
  then obtain s where s: "states (w_heap w) ?p = Some s" "deallocations s = 0"
    using assms(1) unfolding obligations_ok_def unanswered_def by blast
  show ?thesis
    using that [of "(w_heap w)\<lparr>states := (states (w_heap w))(?p := cancelled s)\<rparr>"] True s(1)
    by (simp add: run_cleanup_def cleanup_fn_cancels [OF s])
qed (use that [of "w_heap w"] in \<open>simp add: run_cleanup_def\<close>)

text \<open>The two ways a step can change what is owed.\<close>

lemma answered_cleaned:
  assumes "obligations_ok ms w" and "live_at ms i = Some m"
    and "\<And>p. owed p ms' + (if owes_slot p (Some m) then 1 else 0) = owed p ms"
    and "states (w_heap w') = (if owes m then (states (w_heap w))(m_result_slot m :=
           Option.bind (states (w_heap w) (m_result_slot m)) cancelled) else states (w_heap w))"
  shows "answered_exactly ms w ms' w'"
  unfolding answered_exactly_def
proof
  fix p
  show "owed p ms' \<le> owed p ms \<and>
     states (w_heap w') p = (if owed p ms' < owed p ms then Option.bind (states (w_heap w) p) cancelled
                             else states (w_heap w) p)"
    using assms(3) [of p] unfolding assms(4) by (auto simp: owes_slot_def split: if_splits)
qed

lemma apply_op_destroy:
  assumes ok: "obligations_ok ms w"
  shows "apply_op (Op_destroy i) (ms, w) \<noteq> Inl (Future_fault f) \<and>
    (\<forall>ms' w'. apply_op (Op_destroy i) (ms, w) = Inr (ms', w') \<longrightarrow> answered_exactly ms w ms' w')"
proof (cases "live_at ms i")
  case (Some m)
  obtain h where h: "run_cleanup m (w_heap w) = Inr h"
    and st: "states h = (if owes m then (states (w_heap w))(m_result_slot m :=
           Option.bind (states (w_heap w) (m_result_slot m)) cancelled) else states (w_heap w))"
    by (rule run_cleanup_ok [OF ok Some])
  have o: "owed p (ms[i := None]) + (if owes_slot p (Some m) then 1 else 0) = owed p ms" for p
    using owed_update [OF Some, of p None] by simp
  show ?thesis
    using answered_cleaned [OF ok Some o] st h Some
    by (auto simp: message_destroy_def split: sum.splits prod.splits)
qed simp

lemma apply_op_assign:
  assumes ok: "obligations_ok ms w"
  shows "apply_op (Op_assign i j) (ms, w) \<noteq> Inl (Future_fault f) \<and>
    (\<forall>ms' w'. apply_op (Op_assign i j) (ms, w) = Inr (ms', w') \<longrightarrow> answered_exactly ms w ms' w')"
proof (cases "live_at ms i = None \<or> live_at ms j = None \<or> i = j")
  case False
  then obtain m m' where m: "live_at ms i = Some m" and m': "live_at ms j = Some m'" and ij: "i \<noteq> j" by auto
  obtain h where h: "run_cleanup m (w_heap w) = Inr h"
    and st: "states h = (if owes m then (states (w_heap w))(m_result_slot m :=
           Option.bind (states (w_heap w) (m_result_slot m)) cancelled) else states (w_heap w))"
    by (rule run_cleanup_ok [OF ok m])
  have o: "owed p (ms[i := Some (m'\<lparr>m_body := b\<rparr>), j := Some ((msg_moved_from m')\<lparr>m_body := b'\<rparr>)])
      + (if owes_slot p (Some m) then 1 else 0) = owed p ms" for p b b'
    using owed_update [OF m, of p "Some (m'\<lparr>m_body := b\<rparr>)"]
      owed_update [of "ms[i := Some (m'\<lparr>m_body := b\<rparr>)]" j m' p "Some ((msg_moved_from m')\<lparr>m_body := b'\<rparr>)"] m' ij
    by (simp split: if_splits)
  show ?thesis
    using answered_cleaned [OF ok m o] st h m m' ij
    by (auto simp: message_move_assign_def split: sum.splits prod.splits)
qed (auto split: option.splits)

lemma apply_op_swap:
  "apply_op (Op_swap i j) (ms, w) \<noteq> Inl (Future_fault f) \<and>
    (\<forall>ms' w'. apply_op (Op_swap i j) (ms, w) = Inr (ms', w') \<longrightarrow> answered_exactly ms w ms' w')"
proof (cases "live_at ms i = None \<or> live_at ms j = None \<or> i = j")
  case False
  then obtain m m' where m: "live_at ms i = Some m" and m': "live_at ms j = Some m'" and ij: "i \<noteq> j" by auto
  have o: "owed p (ms[i := Some (m'\<lparr>m_body := b\<rparr>), j := Some (m\<lparr>m_body := b'\<rparr>)]) = owed p ms" for p b b'
    using owed_update [OF m, of p "Some (m'\<lparr>m_body := b\<rparr>)"]
      owed_update [of "ms[i := Some (m'\<lparr>m_body := b\<rparr>)]" j m' p "Some (m\<lparr>m_body := b'\<rparr>)"] m' ij
    by (simp split: if_splits)
  show ?thesis
    using m m' ij by (auto simp: message_swap_def o split: sum.splits prod.splits)
qed (auto split: option.splits)

lemma owed_append [simp]: "owed p (ms @ [x]) = owed p ms + (if owes_slot p x then 1 else 0)"
  by (simp add: owed_def)

lemma apply_op_move:
  "\<exists>ms' w'. apply_op (Op_move i) (ms, w) = Inr (ms', w') \<and> answered_exactly ms w ms' w'"
proof (cases "live_at ms i")
  case (Some m)
  have "owed p (ms[i := Some (msg_moved_from m)] @ [Some m]) = owed p ms" for p
    using owed_update [OF Some, of p "Some (msg_moved_from m)"] by simp
  then show ?thesis using Some by (simp add: message_move_def)
qed simp

lemma apply_op_command:
  "\<exists>ms' w'. apply_op (Op_command i c) (ms, w) = Inr (ms', w') \<and> answered_exactly ms w ms' w'"
proof (cases "live_at ms i")
  case (Some m)
  have "owed p (ms[i := Some (set_command c m)]) = owed p ms" for p
    using owed_update [OF Some, of p "Some (set_command c m)"] by simp
  then show ?thesis using Some by simp
qed simp

lemma apply_op_ok:
  assumes "obligations_ok ms w"
  shows "apply_op c (ms, w) \<noteq> Inl (Future_fault f) \<and>
    (\<forall>ms' w'. apply_op c (ms, w) = Inr (ms', w') \<longrightarrow> answered_exactly ms w ms' w')"
proof (cases c)
  case (Op_move i) then show ?thesis using apply_op_move [of i ms w] by auto
next
  case (Op_command i d) then show ?thesis using apply_op_command [of i d ms w] by auto
qed (use apply_op_destroy [OF assms] apply_op_assign [OF assms] apply_op_swap in \<open>simp_all del: apply_op.simps\<close>)

lemma run_ops_ok:
  assumes "obligations_ok ms w"
  shows "run_ops cs (ms, w) \<noteq> Inl (Future_fault f) \<and>
    (\<forall>ms' w'. run_ops cs (ms, w) = Inr (ms', w') \<longrightarrow> answered_exactly ms w ms' w')"
  using assms
proof (induction cs arbitrary: ms w)
  case (Cons c cs)
  show ?case
  proof (cases "apply_op c (ms, w)")
    case (Inl g)
    with apply_op_ok [OF Cons.prems, of c f] show ?thesis by simp
  next
    case (Inr s1)
    obtain ms1 w1 where s1: "s1 = (ms1, w1)" by (cases s1)
    have a: "answered_exactly ms w ms1 w1" using apply_op_ok [OF Cons.prems, of c f] Inr s1 by simp
    show ?thesis
      using Cons.IH [OF answered_keeps [OF Cons.prems a]] answered_trans [OF Cons.prems a] Inr s1 by simp
  qed
qed simp

section \<open>Properties\<close>

text \<open>C36: An undelivered message answers its sender and leaves nothing behind. Built from plain
  arguments it carries their values and the id; deleted without having been handled it completes
  the future with \<open>operation_canceled\<close>, destroys the arguments and returns both blocks, and once
  the future is released everything is as it was before the message was made.\<close>

theorem undelivered_message_cancels:
  assumes "args \<noteq> []" and "\<forall>x \<in> set args. arg_ok x" and "block_ok (sup_args sv) (map arg_type args)"
    and "\<forall>off \<in> set (layout 0 (map arg_type args)). objs (w_arena w) (sup_args sv + of_nat off) = None"
    and "sup_state sv \<noteq> 0" and "states (w_heap w) (sup_state sv) = None"
    and "sup_msg sv = Some raw" and "raw + kFront al \<noteq> 0" and "headers (w_blocks w) raw = None"
  shows "\<exists>p m f w1 w2. make_message al sz (Some r) name args sv w = Inr ((p, m), f, w1) \<and>
    m_command m = to_message_id name \<and>
    (\<forall>i < length args. rtt_get (arg_type (args ! i)) (m_body m) (of_nat i) (w_arena w1) = Inr (arg_value (args ! i))) \<and>
    fut_is_ready f (w_heap w1) = Inr False \<and>
    delete_message al p m w1 = Inr w2 \<and>
    fut_is_ready f (w_heap w2) = Inr True \<and> fut_error f (w_heap w2) = Inr Operation_canceled \<and>
    fut_release f (w_heap w2) = Inr (fut_null, w_heap w) \<and> w_blocks w2 = w_blocks w \<and>
    objs (w_arena w2) = objs (w_arena w) \<and> blocks (w_arena w2) = blocks (w_arena w) \<and>
    length (destroyed (w_arena w2)) = length (destroyed (w_arena w)) + length args"
proof -
  let ?st = "sup_state sv" and ?h = "(w_heap w)\<lparr>states := (states (w_heap w))(sup_state sv \<mapsto> ss_new)\<rparr>"
  obtain b A1 A2 where b: "rtt_new (Some r) args (sup_args sv) (w_arena w) = Inr (b, A1)"
    and hold: "holds b A1 (placed args)" and res: "r_resource b = Some r"
    and clr: "rtt_clear b A1 = Inr (rtt_cleared b, A2)" and rest: "blocks A2 = blocks (w_arena w)"
      "objs A2 = objs (w_arena w)"
    and d: "destroyed A2 = destroyed (w_arena w) @
      rev (map (\<lambda>(off, t, v). (sup_args sv + of_nat off, t, v)) (placed args))"
    using rtt_built_and_cleared [OF assms(1-4), of r] by blast
  obtain bs where blk: "pmr_make_message al sz r raw (w_blocks w) = (raw + kFront al, bs)"
    and del: "message_deleter al (raw + kFront al) bs = Inr (w_blocks w)"
    using message_block_returned [OF assms(9,8)] by blast
  note made = make_message_built [OF assms(1) b res assms(7) blk, of name]
  have st: "states ?h ?st = Some ss_new" by simp
  have undo: "?h\<lparr>states := (states ?h)(?st := None)\<rparr> = w_heap w"
    using assms(6) by (simp add: fun_upd_idem)
  obtain h' where c: "cleanup_fn ?st ?h = Inr h'" "fut_is_ready (fut_of_state ?st) h' = Inr True"
    "fut_error (fut_of_state ?st) h' = Inr Operation_canceled"
    "fut_release (fut_of_state ?st) h' = Inr (fut_null, w_heap w)"
    using cancelled_observed [OF assms(5) st, unfolded undo] by blast
  have early: "fut_is_ready (fut_of_state ?st) ?h = Inr False"
    using assms(5) by (simp add: future_defs get_state_def ss_new_def sf_empty_def)
  have n: "length (destroyed A2) = length (destroyed (w_arena w)) + length args"
    using d by simp
  have body: "m_body (fresh_message name b ?st) = b" "m_command (fresh_message name b ?st) = to_message_id name"
    "m_result_slot (fresh_message name b ?st) = ?st"
    by (simp_all add: fresh_message_def)
  have del': "delete_message al (raw + kFront al) (fresh_message name b ?st)
      (w\<lparr>w_heap := ?h, w_arena := A1, w_blocks := bs\<rparr>) = Inr (w\<lparr>w_heap := h', w_arena := A2, w_blocks := w_blocks w\<rparr>)"
    using assms(5,8) c(1) clr del
    by (simp add: delete_message_def message_destroy_def run_cleanup_def body)
  let ?m = "fresh_message name b ?st" and ?w1 = "w\<lparr>w_heap := ?h, w_arena := A1, w_blocks := bs\<rparr>"
    and ?w2 = "w\<lparr>w_heap := h', w_arena := A2, w_blocks := w_blocks w\<rparr>"
  show ?thesis
    by (rule exI [of _ "raw + kFront al"], rule exI [of _ ?m], rule exI [of _ "fut_of_state ?st"],
        rule exI [of _ ?w1], rule exI [of _ ?w2])
      (simp add: made del' body holds_placed_get [OF hold] early c(2-4) rest n)
qed

lemma sample_message_ready:
  "args = sample_args \<Longrightarrow> w = \<lparr>w_heap = empty_fheap, w_arena = no_arena, w_blocks = \<lparr>headers = (\<lambda>_. None), allocated = []\<rparr>\<rparr> \<Longrightarrow>
   sv = \<lparr>sup_state = 5, sup_args = 0x1000, sup_msg = Some 0x2000\<rparr> \<Longrightarrow>
   args \<noteq> [] \<and> (\<forall>x \<in> set args. arg_ok x) \<and> block_ok (sup_args sv) (map arg_type args) \<and>
   (\<forall>off \<in> set (layout 0 (map arg_type args)). objs (w_arena w) (sup_args sv + of_nat off) = None) \<and>
   sup_state sv \<noteq> 0 \<and> states (w_heap w) (sup_state sv) = None \<and>
   sup_msg sv = Some 0x2000 \<and> 0x2000 + kFront 8 \<noteq> 0 \<and> headers (w_blocks w) 0x2000 = None"
  using sample_args_ok
  by (simp add: no_arena_def empty_fheap_def kFront_def msg_align_up_def header_size_def)

theorem undelivered_message_cancels_witness:
  "\<exists>p m f w1 w2. make_message 8 104 (Some 0) (Integral_name 7) sample_args
     \<lparr>sup_state = 5, sup_args = 0x1000, sup_msg = Some 0x2000\<rparr>
     \<lparr>w_heap = empty_fheap, w_arena = no_arena, w_blocks = \<lparr>headers = (\<lambda>_. None), allocated = []\<rparr>\<rparr> = Inr ((p, m), f, w1) \<and>
   delete_message 8 p m w1 = Inr w2 \<and> fut_error f (w_heap w2) = Inr Operation_canceled"
proof -
  note a = sample_message_ready [OF refl refl refl]
  show ?thesis
    by (insert undelivered_message_cancels
      [OF a [THEN conjunct1] a [THEN conjunct2, THEN conjunct1]
        a [THEN conjunct2, THEN conjunct2, THEN conjunct1]
        a [THEN conjunct2, THEN conjunct2, THEN conjunct2, THEN conjunct1],
       where sz = 104 and r = 0 and name = "Integral_name 7"]) (use a in blast)
qed

text \<open>Making a message leaks when it fails midway. The shared state is allocated first and belongs
  to nobody yet, so when storing an argument throws, or when the resource cannot supply the message's
  own block, the state stays allocated with no message, promise or future that could release it.\<close>

theorem make_message_failure_leaks:
  assumes "rtt_new (Some r) args (sup_args sv) (w_arena w) = Inl (Thrown, A')"
  shows "(\<exists>w'. make_message al sz (Some r) name args sv w = Inl (Body_fault Thrown, w') \<and>
      states (w_heap w') (sup_state sv) = Some ss_new \<and> w_arena w' = A' \<and> w_blocks w' = w_blocks w) \<and>
    (\<exists>w'. make_message0 al sz (Some r) name (sv\<lparr>sup_msg := None\<rparr>) w = Inl (Bad_alloc, w') \<and>
      states (w_heap w') (sup_state sv) = Some ss_new \<and> w_arena w' = w_arena w \<and> w_blocks w' = w_blocks w)"
  using assms by (simp add: make_message_def make_message0_def allocate_shared_state_def)

theorem make_message_failure_leaks_witness:
  "\<exists>w'. make_message 8 104 (Some 0) (Integral_name 7) [(plain_arg int_type (1 :: nat))\<lparr>arg_throws := True\<rparr>]
     \<lparr>sup_state = 5, sup_args = 0x1000, sup_msg = Some 0x2000\<rparr>
     \<lparr>w_heap = empty_fheap, w_arena = no_arena, w_blocks = \<lparr>headers = (\<lambda>_. None), allocated = []\<rparr>\<rparr>
     = Inl (Body_fault Thrown, w') \<and> states (w_heap w') 5 = Some ss_new"
proof -
  have "rtt_new (Some 0) [(plain_arg int_type (1 :: nat))\<lparr>arg_throws := True\<rparr>] 0x1000 no_arena
    = Inl (Thrown, allocate_block 0 0x1000 24 no_arena)"
    by (simp add: rtt_new_def check_resource_def Let_def push_back_no_realloc_def force_align_def
        try_to_align_def std_align_def align_up_def rtt_block_size_def alignof_objects_t_def
        sizeof_objects_t_def plain_arg_def int_type_def)
  then show ?thesis
    using make_message_failure_leaks [of 0 "[(plain_arg int_type (1 :: nat))\<lparr>arg_throws := True\<rparr>]"
        "\<lparr>sup_state = 5, sup_args = 0x1000, sup_msg = Some 0x2000\<rparr>"
        "\<lparr>w_heap = empty_fheap, w_arena = no_arena, w_blocks = \<lparr>headers = (\<lambda>_. None), allocated = []\<rparr>\<rparr>"
        _ 8 104 "Integral_name 7"]
    by fastforce
qed

text \<open>C29: A sender is answered exactly once however messages are moved. Whatever a program does by move
  construction, move assignment, swapping, restamping and destruction, starting from messages that
  own distinct live states: no state is touched after it is gone, each state is owed by at most one
  message, a state is cancelled exactly when the message that owes it dies, and no other state changes.\<close>

theorem message_obligations_exact:
  assumes "\<forall>p. owed p ms \<le> 1 \<and> (owed p ms = 1 \<longrightarrow> unanswered p (w_heap w))"
  shows "run_ops cs (ms, w) \<noteq> Inl (Future_fault f) \<and>
    (\<forall>ms' w'. run_ops cs (ms, w) = Inr (ms', w') \<longrightarrow>
      (\<forall>p. owed p ms' \<le> owed p ms \<and>
        states (w_heap w') p = (if owed p ms' < owed p ms then Option.bind (states (w_heap w) p) cancelled
                                else states (w_heap w) p)))"
  using run_ops_ok [of ms w cs f] assms unfolding obligations_ok_def answered_exactly_def by blast

definition sample_msg :: "nat \<Rightarrow> message" where
  "sample_msg st = fresh_message (Id_name 3) (rtt_empty (Some 0)) st"

theorem message_obligations_exact_witness:
  "\<exists>ms' w'. run_ops [Op_move 0, Op_assign 1 2, Op_destroy 0, Op_destroy 2]
      ([Some (sample_msg 4), Some (sample_msg 5)],
       \<lparr>w_heap = empty_fheap\<lparr>states := [4 \<mapsto> ss_new, 5 \<mapsto> ss_new]\<rparr>, w_arena = no_arena :: nat arena,
        w_blocks = \<lparr>headers = (\<lambda>_. None), allocated = []\<rparr>\<rparr>) = Inr (ms', w') \<and>
    states (w_heap w') 5 = Some (cleanup_slot ss_new) \<and> states (w_heap w') 4 = Some ss_new"
proof -
  let ?ms = "[Some (sample_msg 4), Some (sample_msg 5)]"
  let ?w = "\<lparr>w_heap = empty_fheap\<lparr>states := [4 \<mapsto> ss_new, 5 \<mapsto> ss_new]\<rparr>, w_arena = no_arena :: nat arena,
        w_blocks = \<lparr>headers = (\<lambda>_. None), allocated = []\<rparr>\<rparr>"
  let ?cs = "[Op_move 0, Op_assign 1 2, Op_destroy 0, Op_destroy 2]"
  have pre: "\<forall>p. owed p ?ms \<le> 1 \<and> (owed p ?ms = 1 \<longrightarrow> unanswered p (w_heap ?w))"
    by (simp add: owed_def owes_slot_def sample_msg_def fresh_message_def owes_def unanswered_def ss_new_def)
  have run: "\<exists>w'. run_ops ?cs (?ms, ?w) = Inr ([None, Some (sample_msg 4), None], w')"
    by (simp add: live_at_def message_move_def message_move_assign_def message_destroy_def run_cleanup_def
        sample_msg_def fresh_message_def owes_def msg_moved_from_def rtt_move_assign_def rtt_empty_def
        rtt_clear_def rtt_cleared_def rtt_moved_from_def cancel_defs)
  have o: "owed p [None, Some (sample_msg 4), None] = (if p = 4 then 1 else 0)"
    "owed p ?ms = (if p = 4 \<or> p = 5 then 1 else 0)" for p
    by (simp_all add: owed_def owes_slot_def sample_msg_def fresh_message_def owes_def)
  from run obtain w' where w': "run_ops ?cs (?ms, ?w) = Inr ([None, Some (sample_msg 4), None], w')" by blast
  from message_obligations_exact [OF pre, of ?cs Dead_state, THEN conjunct2, rule_format, OF w']
  have st: "states (w_heap w') p = (if p = 5 then Some (cleanup_slot ss_new) else states (w_heap ?w) p)" for p
    unfolding o by (auto simp: cancelled_def ss_new_def sf_empty_def)
  show ?thesis by (rule exI, rule exI, rule conjI, rule w') (simp add: st)
qed

end
