(* ===== verification/Coroutines.thy ===== *)
theory Coroutines
  imports Futures Frame_Blocks
begin

text \<open>
  Method coroutines and awaiting. The promise type of a coroutine that returns a
  \<open>unique_future\<close> (\<open>detail/future.hpp\<close>, \<open>promise_type_base\<close>), the awaiter of one future and the
  chain of awaited states that every promise keeps (\<open>detail/future_awaiters.hpp\<close>), and the
  handle of the behavior coroutine, which reads that chain (\<open>detail/behavior_t.hpp\<close>). Frames
  are numbered; \<open>frame_done\<close> says whether a live frame is parked at its final suspend point.
  Each call runs alone: coroutines of one actor and its driver share a thread.
\<close>

section \<open>The promise type\<close>

definition destroy_frame :: "nat \<Rightarrow> 'v fheap \<Rightarrow> 'v fheap" where
  "destroy_frame fr h =
     h\<lparr>frame_done := (frame_done h)(fr := None), frames_destroyed := frames_destroyed h @ [fr]\<rparr>"

text \<open>The frame has just been created; \<open>p\<close> is the address of its shared state.\<close>

definition get_return_object ::
  "bool \<Rightarrow> nat option \<Rightarrow> nat \<Rightarrow> nat \<Rightarrow> 'v fheap \<Rightarrow> future_fault + unique_future \<times> 'v fheap" where
  "get_return_object nd resource p fr h =
     (case resource of
        None \<Rightarrow> Inl (Failed (if nd then Aborted else Assertion_failed))
      | Some r \<Rightarrow>
          (case allocate_shared_state True p h of
             Inl f \<Rightarrow> Inl f
           | Inr h1 \<Rightarrow> Inr (\<lparr>fut_state = p, fut_handle = Some fr\<rparr>,
                            h1\<lparr>frame_done := (frame_done h1)(fr \<mapsto> False)\<rparr>)))"

definition return_value :: "bool \<Rightarrow> 'v \<Rightarrow> nat \<Rightarrow> 'v fheap \<Rightarrow> future_fault + 'v fheap" where
  "return_value nd v p h =
     (case get_state p h of
        Inl f \<Rightarrow> Inl f
      | Inr s \<Rightarrow>
          (case set_value nd v s of
             Inl f \<Rightarrow> Inl (Failed f)
           | Inr s' \<Rightarrow> Inr (put_state p s' h)))"

definition return_error :: "error_code \<Rightarrow> nat \<Rightarrow> 'v fheap \<Rightarrow> future_fault + 'v fheap" where
  "return_error ec p h =
     (case get_state p h of Inl f \<Rightarrow> Inl f | Inr s \<Rightarrow> Inr (put_state p (set_error ec s) h))"

definition unhandled_exception :: "nat \<Rightarrow> nat \<Rightarrow> 'v fheap \<Rightarrow> future_fault + 'v fheap" where
  "unhandled_exception ep p h =
     (if p = 0 then Inr h
      else case get_state p h of Inl f \<Rightarrow> Inl f | Inr s \<Rightarrow> Inr (put_state p (set_exception ep s) h))"

text \<open>\<open>final_awaiter::await_suspend\<close>: the coroutine to resume, \<open>None\<close> for \<open>noop_coroutine\<close>.\<close>

definition final_suspend :: "nat \<Rightarrow> nat \<Rightarrow> 'v fheap \<Rightarrow> future_fault + nat option \<times> 'v fheap" where
  "final_suspend p fr h =
     (let h0 = h\<lparr>frame_done := (frame_done h)(fr \<mapsto> True)\<rparr> in
      case get_state p h0 of
        Inl f \<Rightarrow> Inl f
      | Inr s \<Rightarrow>
          (let cont = continuation s;
               s1 = s\<lparr>continuation := None\<rparr>;
               s2 = snd (fetch_or_flags sf_promise_finalizing s1);
               (gone, s3) = release_promise s2
           in if gone then Inr (None, destroy_frame fr (put_state p s3 h0))
              else (let (ok, s4) = try_complete_finalize s3
                    in if \<not> ok then Inr (None, destroy_frame fr (put_state p s4 h0))
                       else Inr (cont, put_state p s4 h0))))"

text \<open>How the body ends, and the run from its end to the final suspend point.\<close>

datatype 'v body_end = Returned 'v | Returned_error error_code | Threw nat

fun end_body :: "bool \<Rightarrow> 'v body_end \<Rightarrow> nat \<Rightarrow> 'v fheap \<Rightarrow> future_fault + 'v fheap" where
  "end_body nd (Returned v) p h = return_value nd v p h"
| "end_body nd (Returned_error ec) p h = return_error ec p h"
| "end_body nd (Threw ep) p h = unhandled_exception ep p h"

definition finish_method ::
  "bool \<Rightarrow> 'v body_end \<Rightarrow> nat \<Rightarrow> nat \<Rightarrow> 'v fheap \<Rightarrow> future_fault + nat option \<times> 'v fheap" where
  "finish_method nd x p fr h =
     (case end_body nd x p h of Inl f \<Rightarrow> Inl f | Inr h1 \<Rightarrow> final_suspend p fr h1)"

section \<open>Awaiting a future\<close>

definition await_ready :: "unique_future \<Rightarrow> 'v fheap \<Rightarrow> future_fault + bool" where
  "await_ready f h = map_sum id has_result (get_state (fut_state f) h)"

text \<open>
  \<open>future_await_suspend_cas\<close> run alone: the coroutine to go on with. A second awaiter of the
  same future fails the assertion, and without it resumes itself at once.
\<close>

definition await_suspend_cas ::
  "bool \<Rightarrow> nat \<Rightarrow> nat \<Rightarrow> 'v fheap \<Rightarrow> future_fault + nat option \<times> 'v fheap" where
  "await_suspend_cas nd p c h =
     (case get_state p h of
        Inl f \<Rightarrow> Inl f
      | Inr s \<Rightarrow>
          (case continuation s of
             Some _ \<Rightarrow> if nd then Inr (Some c, h) else Inl (Failed Assertion_failed)
           | None \<Rightarrow>
               if flags s AND sf_result_set \<noteq> 0 then Inr (Some c, put_state p (s\<lparr>continuation := None\<rparr>) h)
               else Inr (None, put_state p (s\<lparr>continuation := Some c\<rparr>) h)))"

text \<open>
  \<open>await_resume\<close> and the end of the awaiter, which owns the future: the exception it rethrows
  or the value.
\<close>

definition await_resume ::
  "bool \<Rightarrow> bool \<Rightarrow> unique_future \<Rightarrow> 'v fheap \<Rightarrow> future_fault + (nat + 'v) \<times> 'v fheap" where
  "await_resume nd trivial f h =
     (case get_state (fut_state f) h of
        Inl e \<Rightarrow> Inl e
      | Inr s \<Rightarrow>
          (case rethrow_if_exception s of
             Inl ep \<Rightarrow>
               (case fut_release f h of Inl e \<Rightarrow> Inl e | Inr (_, h') \<Rightarrow> Inr (Inl ep, h'))
           | Inr _ \<Rightarrow>
               if has_error s then Inl (Failed Aborted)
               else (case take_value nd trivial s of
                       Inl e \<Rightarrow> Inl (Failed e)
                     | Inr (v, s') \<Rightarrow>
                         (case fut_release f (put_state (fut_state f) s' h) of
                            Inl e \<Rightarrow> Inl e
                          | Inr (_, h') \<Rightarrow> Inr (Inr v, h')))))"

section \<open>The awaited chain\<close>

text \<open>
  One promise's part. Pointers to a state's members are that state's address; pointers to
  another promise's members, and the type-erased outer promise, are that promise's number.
\<close>

record awaiter =
  awaited_flags :: "nat option"
  awaited_continuation :: "nat option"
  propagated_to_flags :: "nat option"
  propagated_to_cont :: "nat option"
  outer_promise_raw :: "nat option"
  outer_update_fn :: bool

type_synonym chain = "nat \<Rightarrow> awaiter option"

definition awaiter_new :: awaiter where
  "awaiter_new = \<lparr>awaited_flags = None, awaited_continuation = None, propagated_to_flags = None,
     propagated_to_cont = None, outer_promise_raw = None, outer_update_fn = False\<rparr>"

definition write_flags :: "nat \<Rightarrow> nat option \<Rightarrow> chain \<Rightarrow> chain" where
  "write_flags q v c = c(q := map_option (\<lambda>a. a\<lparr>awaited_flags := v\<rparr>) (c q))"

definition write_cont :: "nat \<Rightarrow> nat option \<Rightarrow> chain \<Rightarrow> chain" where
  "write_cont q v c = c(q := map_option (\<lambda>a. a\<lparr>awaited_continuation := v\<rparr>) (c q))"

definition push_outer :: "awaiter \<Rightarrow> chain \<Rightarrow> chain" where
  "push_outer me c =
     (let c1 = (case propagated_to_flags me of None \<Rightarrow> c | Some q \<Rightarrow> write_flags q (awaited_flags me) c)
      in case propagated_to_cont me of None \<Rightarrow> c1 | Some q \<Rightarrow> write_cont q (awaited_continuation me) c1)"

text \<open>\<open>None\<close>: a promise that is gone was touched, or the chain of outers never ends.\<close>

partial_function (option) update_propagated_outer :: "nat \<Rightarrow> chain \<Rightarrow> chain option" where
  "update_propagated_outer q c =
     (case c q of
        None \<Rightarrow> None
      | Some me \<Rightarrow>
          if outer_update_fn me
          then (case outer_promise_raw me of
                  None \<Rightarrow> Some (push_outer me c)
                | Some q' \<Rightarrow> update_propagated_outer q' (push_outer me c))
          else Some (push_outer me c))"

definition set_awaited :: "nat \<Rightarrow> nat option \<Rightarrow> nat option \<Rightarrow> chain \<Rightarrow> chain" where
  "set_awaited q fl co c = write_cont q co (write_flags q fl c)"

definition clear_awaited_chain :: "nat \<Rightarrow> chain \<Rightarrow> chain option" where
  "clear_awaited_chain q c = update_propagated_outer q (set_awaited q None None c)"

text \<open>
  \<open>propagate_awaited_state\<close> of promise \<open>q\<close> for a future on state \<open>st\<close> with a result or not, and
  with the promise of its coroutine, if \<open>coroutine_handle()\<close> hands it out.
\<close>

definition propagate_awaited_state ::
  "nat \<Rightarrow> nat \<Rightarrow> bool \<Rightarrow> nat option \<Rightarrow> chain \<Rightarrow> chain option" where
  "propagate_awaited_state q st has_res inner c =
     (if has_res then update_propagated_outer q (set_awaited q None None c)
      else case inner of
        None \<Rightarrow> update_propagated_outer q (set_awaited q (Some st) (Some st) c)
      | Some i \<Rightarrow>
          (case c i of
             None \<Rightarrow> None
           | Some ip \<Rightarrow>
               (let ip1 = ip\<lparr>propagated_to_flags := Some q, propagated_to_cont := Some q,
                             outer_promise_raw := Some q, outer_update_fn := True\<rparr>;
                    c1 = c(i \<mapsto> ip1)
                in if awaited_flags ip1 \<noteq> None
                   then update_propagated_outer q (set_awaited q (awaited_flags ip1) (awaited_continuation ip1) c1)
                   else update_propagated_outer q (set_awaited q (Some st) (Some st) c1))))"

section \<open>The behavior's handle\<close>

type_synonym behavior_t = "nat option"

definition behavior_move_assign :: "behavior_t \<Rightarrow> behavior_t \<Rightarrow> 'v fheap \<Rightarrow> behavior_t \<times> behavior_t \<times> 'v fheap" where
  "behavior_move_assign b other h =
     (other, None, case b of Some fr \<Rightarrow> destroy_frame fr h | None \<Rightarrow> h)"

definition behavior_destroy :: "behavior_t \<Rightarrow> 'v fheap \<Rightarrow> 'v fheap" where
  "behavior_destroy b h = (case b of Some fr \<Rightarrow> destroy_frame fr h | None \<Rightarrow> h)"

definition behavior_done :: "behavior_t \<Rightarrow> 'v fheap \<Rightarrow> bool" where
  "behavior_done b h \<longleftrightarrow> (case b of None \<Rightarrow> True | Some fr \<Rightarrow> frame_done h fr = Some True)"

definition behavior_bool :: "behavior_t \<Rightarrow> bool" where
  "behavior_bool b \<longleftrightarrow> b \<noteq> None"

text \<open>The promise of the frame has the frame's number.\<close>

definition is_busy :: "behavior_t \<Rightarrow> chain \<Rightarrow> 'v fheap \<Rightarrow> bool" where
  "is_busy b c h \<longleftrightarrow> (case b of
     None \<Rightarrow> False
   | Some fr \<Rightarrow> frame_done h fr \<noteq> Some True \<and> (\<exists>a. c fr = Some a \<and> awaited_flags a \<noteq> None))"

definition is_awaited_ready :: "behavior_t \<Rightarrow> chain \<Rightarrow> 'v fheap \<Rightarrow> future_fault + bool" where
  "is_awaited_ready b c h =
     (if behavior_done b h then Inr False
      else case Option.bind b c of
        None \<Rightarrow> Inl Dead_state
      | Some a \<Rightarrow>
          (case awaited_flags a of
             None \<Rightarrow> Inr False
           | Some p \<Rightarrow> map_sum id (\<lambda>s. flags s AND sf_promise_released \<noteq> 0) (get_state p h)))"

definition take_awaited_continuation ::
  "behavior_t \<Rightarrow> chain \<Rightarrow> 'v fheap \<Rightarrow> future_fault + nat option \<times> 'v fheap" where
  "take_awaited_continuation b c h =
     (if behavior_done b h then Inr (None, h)
      else case Option.bind b c of
        None \<Rightarrow> Inl Dead_state
      | Some a \<Rightarrow>
          (case awaited_continuation a of
             None \<Rightarrow> Inr (None, h)
           | Some p \<Rightarrow>
               (case get_state p h of
                  Inl f \<Rightarrow> Inl f
                | Inr s \<Rightarrow> Inr (continuation s, put_state p (s\<lparr>continuation := None\<rparr>) h))))"

section \<open>Ends of a coroutine\<close>

lemmas coroutine_defs = finish_method_def return_value_def return_error_def unhandled_exception_def
  final_suspend_def destroy_frame_def await_resume_def

definition started :: "nat \<Rightarrow> nat \<Rightarrow> 'v fheap \<Rightarrow> 'v fheap" where
  "started p fr h = h\<lparr>states := (states h)(p \<mapsto> ss_new), frame_done := (frame_done h)(fr \<mapsto> False)\<rparr>"

definition reclaimed :: "nat \<Rightarrow> 'v fheap \<Rightarrow> 'v fheap" where
  "reclaimed fr h = h\<lparr>frames_destroyed := frames_destroyed h @ [fr]\<rparr>"

lemma get_return_object_started:
  "get_return_object nd (Some r) p fr h = Inr (\<lparr>fut_state = p, fut_handle = Some fr\<rparr>, started p fr h)"
  by (simp add: get_return_object_def allocate_shared_state_def started_def)

text \<open>The settled state each end leaves, and what the frame looks like then.\<close>

fun end_state :: "'v body_end \<Rightarrow> 'v shared_state" where
  "end_state (Returned v) = ss_new\<lparr>flags := sf_value_set OR sf_promise_released,
     result := \<lparr>storage = Some v, has_value = True, was_moved_from = False\<rparr>\<rparr>"
| "end_state (Returned_error ec) = ss_new\<lparr>flags := sf_error_set OR sf_promise_released, err := ec\<rparr>"
| "end_state (Threw ep) = ss_new\<lparr>flags := sf_error_set OR sf_promise_released, err := Interrupted,
     exception := Some ep\<rparr>"

definition parked :: "'v body_end \<Rightarrow> nat \<Rightarrow> nat \<Rightarrow> 'v fheap \<Rightarrow> 'v fheap" where
  "parked x p fr h = h\<lparr>states := (states h)(p \<mapsto> end_state x), frame_done := (frame_done h)(fr \<mapsto> True)\<rparr>"

lemma finish_method_parked:
  assumes "p \<noteq> 0"
  shows "finish_method nd x p fr (started p fr h) = Inr (None, parked x p fr h)"
  using assms by (cases x) (simp_all add: coroutine_defs promise_defs started_def parked_def)

lemma finish_method_detached:
  assumes "p \<noteq> 0" and "states h p = None" and "frame_done h fr = None"
  shows "\<exists>h2. fut_release \<lparr>fut_state = p, fut_handle = Some fr\<rparr> (started p fr h) = Inr (fut_null, h2) \<and>
    finish_method nd x p fr h2 = Inr (None, reclaimed fr h)"
  using assms
  by (cases x) (simp_all add: coroutine_defs promise_defs future_defs started_def reclaimed_def fun_upd_idem)

fun resumed_with :: "'v body_end \<Rightarrow> 'v fheap \<Rightarrow> future_fault + (nat + 'v) \<times> 'v fheap" where
  "resumed_with (Returned v) h = Inr (Inr v, h)"
| "resumed_with (Returned_error ec) h = Inl (Failed Aborted)"
| "resumed_with (Threw ep) h = Inr (Inl ep, h)"

lemma await_resume_parked:
  assumes "p \<noteq> 0" and "states h p = None" and "frame_done h fr = None"
  shows "await_resume nd trivial \<lparr>fut_state = p, fut_handle = Some fr\<rparr> (parked x p fr h)
    = resumed_with x (reclaimed fr h)"
  using assms
  by (cases x) (simp_all add: coroutine_defs promise_defs future_defs parked_def reclaimed_def fun_upd_idem)

lemma parked_observed:
  assumes "p \<noteq> 0"
  shows "fut_is_ready \<lparr>fut_state = p, fut_handle = Some fr\<rparr> (parked x p fr h) = Inr True"
    and "await_ready \<lparr>fut_state = p, fut_handle = Some fr\<rparr> (parked x p fr h) = Inr True"
    and "coroutine_handle \<lparr>fut_state = p, fut_handle = Some fr\<rparr> (parked x p fr h) = Inr None"
  using assms
  by (cases x; simp add: fut_is_ready_def await_ready_def coroutine_handle_def get_state_def parked_def
      has_result_def is_ready_def sf_defs)+

section \<open>The chain\<close>

text \<open>A chain of promises from the innermost to the root, which has no outer.\<close>

fun linked :: "chain \<Rightarrow> nat list \<Rightarrow> bool" where
  "linked c [] \<longleftrightarrow> True"
| "linked c [q] \<longleftrightarrow> (\<exists>a. c q = Some a \<and> \<not> outer_update_fn a \<and> propagated_to_flags a = None \<and>
     propagated_to_cont a = None)"
| "linked c (q # q' # qs) \<longleftrightarrow> (\<exists>a. c q = Some a \<and> outer_update_fn a \<and> outer_promise_raw a = Some q' \<and>
     propagated_to_flags a = Some q' \<and> propagated_to_cont a = Some q') \<and> linked c (q' # qs)"

text \<open>All of them name the same awaited state.\<close>

definition names :: "chain \<Rightarrow> nat list \<Rightarrow> nat option \<Rightarrow> bool" where
  "names c qs st \<longleftrightarrow> (\<forall>q \<in> set qs. \<exists>a. c q = Some a \<and> awaited_flags a = st \<and> awaited_continuation a = st)"

definition same_links :: "awaiter \<Rightarrow> awaiter \<Rightarrow> bool" where
  "same_links a b \<longleftrightarrow> outer_update_fn a = outer_update_fn b \<and> outer_promise_raw a = outer_promise_raw b \<and>
     propagated_to_flags a = propagated_to_flags b \<and> propagated_to_cont a = propagated_to_cont b"

lemma linked_cong:
  assumes "\<And>q. q \<in> set qs \<Longrightarrow> rel_option same_links (c q) (c' q)"
  shows "linked c qs = linked c' qs"
  using assms
proof (induction c qs rule: linked.induct)
  case (2 c q)
  have "rel_option same_links (c q) (c' q)" using 2 by simp
  then show ?case by (cases "c q"; cases "c' q") (auto simp: same_links_def)
next
  case (3 c q q' qs)
  have "rel_option same_links (c q) (c' q)" using 3(2) by simp
  moreover have "linked c (q' # qs) = linked c' (q' # qs)" using 3 by simp
  ultimately show ?case by (cases "c q"; cases "c' q") (auto simp: same_links_def)
qed simp

lemma linked_present: "linked c qs \<Longrightarrow> q \<in> set qs \<Longrightarrow> \<exists>a. c q = Some a"
  by (induction c qs rule: linked.induct) auto

definition renamed :: "nat list \<Rightarrow> nat option \<Rightarrow> nat option \<Rightarrow> chain \<Rightarrow> chain" where
  "renamed qs fl co c = (\<lambda>x. if x \<in> set qs
     then map_option (\<lambda>a. a\<lparr>awaited_flags := fl, awaited_continuation := co\<rparr>) (c x) else c x)"

lemma renamed_links: "rel_option same_links (renamed qs fl co c q) (c q)"
  by (cases "c q") (simp_all add: renamed_def same_links_def)

lemma linked_renamed: "linked (renamed qs fl co c) rs = linked c rs"
  by (rule linked_cong) (rule renamed_links)

lemma names_renamed: "linked c qs \<Longrightarrow> names (renamed qs st st c) qs st"
  using linked_present [of c qs] by (fastforce simp: names_def renamed_def)

lemma set_awaited_renamed: "set_awaited q fl co c = renamed [q] fl co c"
  by (cases "c q") (auto simp: set_awaited_def write_flags_def write_cont_def renamed_def fun_eq_iff)

text \<open>The whole chain takes over what the innermost promise names.\<close>

lemma update_reaches_root:
  assumes "linked c (q # qs)" and "distinct (q # qs)" and "c q = Some a"
  shows "update_propagated_outer q c = Some (renamed qs (awaited_flags a) (awaited_continuation a) c)"
  using assms
proof (induction qs arbitrary: c q a)
  case Nil
  then have "push_outer a c = c" by (simp add: push_outer_def)
  with Nil show ?case
    by (subst update_propagated_outer.simps) (auto simp: renamed_def)
next
  case (Cons q' qs)
  obtain b where b: "c q' = Some b" using linked_present [OF Cons.prems(1), of q'] by auto
  let ?b = "b\<lparr>awaited_flags := awaited_flags a, awaited_continuation := awaited_continuation a\<rparr>"
  let ?c = "c(q' \<mapsto> ?b)"
  have push: "push_outer a c = ?c"
    using Cons.prems(1,3) b by (simp add: push_outer_def write_flags_def write_cont_def)
  have l: "linked ?c (q' # qs)"
  proof -
    have "linked ?c (q' # qs) = linked c (q' # qs)"
      by (rule linked_cong) (auto simp: b same_links_def option.rel_refl)
    then show ?thesis using Cons.prems(1) by simp
  qed
  have "update_propagated_outer q c = update_propagated_outer q' ?c"
    using Cons.prems(1,3) push by (subst update_propagated_outer.simps) simp
  also have "\<dots> = Some (renamed qs (awaited_flags a) (awaited_continuation a) ?c)"
    using Cons.IH [OF l, of ?b] Cons.prems(2) by (simp del: fun_upd_apply add: fun_upd_same)
  also have "renamed qs (awaited_flags a) (awaited_continuation a) ?c
      = renamed (q' # qs) (awaited_flags a) (awaited_continuation a) c"
    using Cons.prems(2) b by (auto simp: renamed_def fun_eq_iff)
  finally show ?case .
qed

lemma update_after_set:
  assumes "linked c (q # qs)" and "distinct (q # qs)"
  shows "update_propagated_outer q (set_awaited q fl co c) = Some (renamed (q # qs) fl co c)"
proof -
  obtain a where a: "c q = Some a" using linked_present [OF assms(1), of q] by auto
  have r: "renamed [q] fl co c q = Some (a\<lparr>awaited_flags := fl, awaited_continuation := co\<rparr>)"
    by (simp add: renamed_def a)
  have "linked (renamed [q] fl co c) (q # qs)" using assms(1) by (simp only: linked_renamed)
  from update_reaches_root [OF this assms(2) r] show ?thesis
    using assms(2) unfolding set_awaited_renamed by (auto simp: renamed_def fun_eq_iff)
qed

lemma linked_append:
  assumes "linked c (is @ [i])" and "linked c (q # qs)" and "c i = Some a" and "distinct (is @ [i])"
    and "i \<notin> set (q # qs)"
  shows "linked (c(i \<mapsto> a\<lparr>propagated_to_flags := Some q, propagated_to_cont := Some q,
    outer_promise_raw := Some q, outer_update_fn := True\<rparr>)) (is @ i # q # qs)"
  using assms
proof (induction "is")
  case Nil
  have "linked (c(i := x)) (q # qs) = linked c (q # qs)" for x
    by (rule linked_cong) (use Nil(5) in \<open>auto simp: same_links_def option.rel_refl\<close>)
  with Nil show ?case by (simp del: fun_upd_apply add: fun_upd_same)
next
  case (Cons j js)
  then show ?case by (cases js) auto
qed

section \<open>Properties\<close>

text \<open>C30: A method coroutine answers and is reclaimed exactly once. It starts with a future on a fresh
  state; however its body ends the future is ready at once, and awaiting it yields the value, rethrows
  the exception or, for a bare error code, aborts. Afterwards the state is freed and the frame is
  destroyed once, by the future; if the future was released first, the frame destroys itself.\<close>

theorem method_coroutine_answers:
  assumes "p \<noteq> 0" and "states h p = None" and "frame_done h fr = None"
  shows "\<exists>f h1. get_return_object nd (Some r) p fr h = Inr (f, h1) \<and>
    fut_is_ready f h1 = Inr False \<and>
    (\<exists>h2. finish_method nd x p fr h1 = Inr (None, h2) \<and> fut_is_ready f h2 = Inr True \<and>
       coroutine_handle f h2 = Inr None \<and>
       await_resume nd trivial f h2 = resumed_with x (h\<lparr>frames_destroyed := frames_destroyed h @ [fr]\<rparr>)) \<and>
    (\<exists>h2. fut_release f h1 = Inr (fut_null, h2) \<and>
       finish_method nd x p fr h2 = Inr (None, h\<lparr>frames_destroyed := frames_destroyed h @ [fr]\<rparr>))"
proof -
  have early: "fut_is_ready \<lparr>fut_state = p, fut_handle = Some fr\<rparr> (started p fr h) = Inr False"
    using assms(1) by (simp add: fut_is_ready_def get_state_def started_def is_ready_def ss_new_def sf_defs)
  show ?thesis
    unfolding get_return_object_started
    using early await_resume_parked [OF assms] finish_method_detached [OF assms]
    by (simp add: finish_method_parked [OF assms(1)] parked_observed [OF assms(1)] reclaimed_def)
qed

theorem method_coroutine_answers_witness:
  "\<exists>f h1 h2. get_return_object False (Some 0) 5 1 (empty_fheap :: nat fheap) = Inr (f, h1) \<and>
     finish_method False (Threw 77) 5 1 h1 = Inr (None, h2) \<and>
     await_resume False True f h2 = Inr (Inl 77, empty_fheap\<lparr>frames_destroyed := [1]\<rparr>)"
  using method_coroutine_answers [of 5 "empty_fheap :: nat fheap" 1 False 0 "Threw 77" True]
  by (fastforce simp: empty_fheap_def)

text \<open>C31: Every promise of an await chain names the state at the bottom. When the innermost promise
  awaits a state nobody computes yet, or a coroutine that is itself suspended at the end of another
  chain, or stops awaiting, every promise from the innermost to the root names the same state
  afterwards, the deepest one, and the chains are joined.\<close>

theorem awaited_chain_names_deepest:
  assumes "linked c (q # qs)" and "distinct (q # qs)"
  shows "(\<exists>c'. propagate_awaited_state q st False None c = Some c' \<and> linked c' (q # qs) \<and>
      names c' (q # qs) (Some st)) \<and>
    (\<exists>c'. clear_awaited_chain q c = Some c' \<and> linked c' (q # qs) \<and> names c' (q # qs) None) \<and>
    (linked c (is @ [i]) \<and> distinct (is @ [i]) \<and> set (is @ [i]) \<inter> set (q # qs) = {} \<and>
       names c (is @ [i]) (Some deep) \<longrightarrow>
     (\<exists>c'. propagate_awaited_state q st False (Some i) c = Some c' \<and> linked c' (is @ i # q # qs) \<and>
       names c' (is @ i # q # qs) (Some deep)))"
proof (intro conjI impI)
  show "\<exists>c'. propagate_awaited_state q st False None c = Some c' \<and> linked c' (q # qs) \<and> names c' (q # qs) (Some st)"
    using assms by (simp add: propagate_awaited_state_def update_after_set linked_renamed names_renamed)
  show "\<exists>c'. clear_awaited_chain q c = Some c' \<and> linked c' (q # qs) \<and> names c' (q # qs) None"
    using assms by (simp add: clear_awaited_chain_def update_after_set linked_renamed names_renamed)
  assume a: "linked c (is @ [i]) \<and> distinct (is @ [i]) \<and> set (is @ [i]) \<inter> set (q # qs) = {} \<and>
       names c (is @ [i]) (Some deep)"
  obtain ip where ip: "c i = Some ip" "awaited_flags ip = Some deep" "awaited_continuation ip = Some deep"
    using a by (auto simp: names_def)
  let ?ip = "ip\<lparr>propagated_to_flags := Some q, propagated_to_cont := Some q,
    outer_promise_raw := Some q, outer_update_fn := True\<rparr>"
  let ?c = "c(i \<mapsto> ?ip)"
  have join: "linked ?c (is @ i # q # qs)"
    using linked_append [of c "is" i q qs ip] a assms(1) ip(1) by auto
  have l: "linked ?c (q # qs)"
  proof -
    have "linked ?c (q # qs) = linked c (q # qs)"
      by (rule linked_cong) (use a in \<open>auto simp: same_links_def option.rel_refl\<close>)
    then show ?thesis using assms(1) by simp
  qed
  have n: "names (renamed (q # qs) (Some deep) (Some deep) ?c) (is @ i # q # qs) (Some deep)"
  proof -
    have "names ?c (is @ [i]) (Some deep)" using a ip by (auto simp: names_def)
    then have "names (renamed (q # qs) (Some deep) (Some deep) ?c) (is @ [i]) (Some deep)"
      using a by (auto simp: names_def renamed_def)
    then show ?thesis using names_renamed [OF l, of "Some deep"] by (auto simp: names_def)
  qed
  show "\<exists>c'. propagate_awaited_state q st False (Some i) c = Some c' \<and> linked c' (is @ i # q # qs) \<and>
       names c' (is @ i # q # qs) (Some deep)"
    using ip update_after_set [OF l assms(2)] join n
    by (simp add: propagate_awaited_state_def linked_renamed)
qed

definition sample_chain :: chain where
  "sample_chain = [1 \<mapsto> awaiter_new, 2 \<mapsto> awaiter_new\<lparr>awaited_flags := Some 9, awaited_continuation := Some 9\<rparr>]"

theorem awaited_chain_names_deepest_witness:
  "\<exists>c'. propagate_awaited_state 1 5 False (Some 2) sample_chain = Some c' \<and> linked c' [2, 1] \<and>
     names c' [2, 1] (Some 9)"
  using awaited_chain_names_deepest [of sample_chain 1 "[]" 5 "[]" 2 9]
  by (simp add: sample_chain_def awaiter_new_def names_def)

text \<open>C32: A suspended behavior is woken through the deepest state. After the innermost coroutine of its
  chain has registered with an unanswered state, the behavior is busy, and it is not ready until that
  state's promise ends, with a value, an error, an exception or by being dropped; once it has, whichever
  way, the driver finds it ready and takes exactly the innermost coroutine to resume, once.\<close>

theorem behavior_woken_through_deepest:
  assumes "linked c (q # qs)" and "distinct (q # qs)" and "root = last (q # qs)"
    and "st \<noteq> 0" and "states h st = Some ss_new" and "frame_done h root = Some False"
  shows "\<exists>c' h1 h2 h3. propagate_awaited_state q st False None c = Some c' \<and>
    await_suspend_cas nd st q h = Inr (None, h1) \<and> is_busy (Some root) c' h1 \<and>
    is_awaited_ready (Some root) c' h1 = Inr False \<and>
    produce nd x st h1 = Inr (0, h2) \<and>
    is_awaited_ready (Some root) c' h2 = Inr True \<and>
    take_awaited_continuation (Some root) c' h2 = Inr (Some q, h3) \<and>
    (\<exists>h4. take_awaited_continuation (Some root) c' h3 = Inr (None, h4))"
proof -
  let ?c = "renamed (q # qs) (Some st) (Some st) c"
  have "names ?c (q # qs) (Some st)" by (rule names_renamed [OF assms(1)])
  moreover have "root \<in> set (q # qs)" unfolding assms(3) by (rule last_in_set) simp
  ultimately obtain a where a: "?c root = Some a" "awaited_flags a = Some st" "awaited_continuation a = Some st"
    unfolding names_def by blast
  have p: "propagate_awaited_state q st False None c = Some ?c"
    using assms(1,2) by (simp add: propagate_awaited_state_def update_after_set)
  show ?thesis
    unfolding p using a assms(4-6)
    by (rule_tac outcome_cases [of x])
      (simp_all add: await_suspend_cas_def promise_defs is_busy_def is_awaited_ready_def
        take_awaited_continuation_def behavior_done_def)
qed

theorem behavior_woken_through_deepest_witness:
  "\<exists>c' h1 h2 h3. propagate_awaited_state 1 5 False None sample_chain = Some c' \<and>
     await_suspend_cas False 5 1 (empty_fheap\<lparr>states := [5 \<mapsto> ss_new], frame_done := [1 \<mapsto> False]\<rparr> :: nat fheap) = Inr (None, h1) \<and>
     release_if_needed 5 h1 = Inr (0, h2) \<and> is_awaited_ready (Some 1) c' h2 = Inr True \<and>
     take_awaited_continuation (Some 1) c' h2 = Inr (Some 1, h3)"
proof -
  have l: "linked sample_chain [1]" by (simp add: sample_chain_def awaiter_new_def)
  show ?thesis
    using behavior_woken_through_deepest [OF l, of 1 5
        "empty_fheap\<lparr>states := [5 \<mapsto> ss_new], frame_done := [1 \<mapsto> False]\<rparr> :: nat fheap" False "Inr (Inr ())"]
    by auto
qed

end
