(* ===== verification/Dispatch.thy ===== *)
theory Dispatch
  imports Messages Coroutines Lifo_Inbox
begin

text \<open>
  Sending and dispatching: the compile-time checks on actor methods and arguments
  (\<open>actor/dispatch_traits.hpp\<close>, \<open>actor/implements.hpp\<close>, \<open>mailbox/make_message.hpp\<close>), message
  ids and the run-time search for a method (\<open>dispatch_traits.hpp\<close>), \<open>send\<close> (\<open>send.hpp\<close>) and
  the coroutine that runs a method on a message (\<open>actor/dispatch.hpp\<close>). What C++ knows of a
  type (constructible, abstract, convertible) is the parameter \<open>type_facts\<close>; a failing
  \<open>static_assert\<close> is \<open>Does_not_compile\<close>.
\<close>

section \<open>Types and methods\<close>

datatype ref_kind = No_ref | Lvalue_ref | Rvalue_ref

record cv_type =
  cv_decayed :: cpp_type
  cv_ref :: ref_kind
  cv_const :: bool

record type_facts =
  tf_copyable :: "cpp_type \<Rightarrow> bool"
  tf_movable :: "cpp_type \<Rightarrow> bool"
  tf_abstract :: "cpp_type \<Rightarrow> bool"
  tf_converts :: "cpp_type \<Rightarrow> cpp_type \<Rightarrow> bool"

text \<open>\<open>unique_future<void>\<close> is \<open>Future_of None\<close>.\<close>

datatype result_type = Future_of "cpp_type option" | Plain_type cpp_type

record callable_trait =
  class_type :: nat
  result_of :: result_type
  args_types :: "cv_type list"
  is_const_method :: bool
  is_noexcept_method :: bool

text \<open>A pointer to a member function: its type, and which function of that type.\<close>

record method_ptr =
  method_type :: callable_trait
  method_entry :: nat

definition is_unique_future :: "result_type \<Rightarrow> bool" where
  "is_unique_future r \<longleftrightarrow> (case r of Future_of _ \<Rightarrow> True | Plain_type _ \<Rightarrow> False)"

definition valid_rtt_type :: "type_facts \<Rightarrow> cpp_type \<Rightarrow> bool" where
  "valid_rtt_type tf t \<longleftrightarrow> \<not> tf_abstract tf t \<and> (tf_copyable tf t \<or> tf_movable tf t)"

section \<open>Checks on an actor's methods\<close>

definition const_lvalue_ref :: "cv_type \<Rightarrow> bool" where
  "const_lvalue_ref t \<longleftrightarrow> cv_ref t = Lvalue_ref \<and> cv_const t"

definition rvalue_ref_to_move_only :: "type_facts \<Rightarrow> cv_type \<Rightarrow> bool" where
  "rvalue_ref_to_move_only tf t \<longleftrightarrow> cv_ref t = Rvalue_ref \<and> tf_movable tf (cv_decayed t) \<and>
     \<not> tf_copyable tf (cv_decayed t)"

definition method_return_type_check :: "callable_trait \<Rightarrow> bool" where
  "method_return_type_check t \<longleftrightarrow> is_unique_future (result_of t)"

definition no_const_ref :: "callable_trait \<Rightarrow> bool" where
  "no_const_ref t \<longleftrightarrow> \<not> is_unique_future (result_of t) \<or> \<not> (\<exists>a \<in> set (args_types t). const_lvalue_ref a)"

definition no_rvalue_move_only :: "type_facts \<Rightarrow> callable_trait \<Rightarrow> bool" where
  "no_rvalue_move_only tf t \<longleftrightarrow>
     \<not> is_unique_future (result_of t) \<or> \<not> (\<exists>a \<in> set (args_types t). rvalue_ref_to_move_only tf a)"

definition dispatch_traits_ok :: "type_facts \<Rightarrow> method_ptr list \<Rightarrow> bool" where
  "dispatch_traits_ok tf ms \<longleftrightarrow> (\<forall>m \<in> set ms. method_return_type_check (method_type m) \<and>
     no_const_ref (method_type m) \<and> no_rvalue_move_only tf (method_type m))"

definition check_one :: "method_ptr \<Rightarrow> method_ptr \<Rightarrow> bool" where
  "check_one c a \<longleftrightarrow> result_of (method_type c) = result_of (method_type a) \<and>
     args_types (method_type c) = args_types (method_type a)"

definition signatures_match :: "method_ptr list \<Rightarrow> method_ptr list \<Rightarrow> bool" where
  "signatures_match cs as \<longleftrightarrow> list_all2 check_one cs as"

definition valid_implementation :: "type_facts \<Rightarrow> bool \<Rightarrow> method_ptr list \<Rightarrow> method_ptr list \<Rightarrow> bool" where
  "valid_implementation tf is_interface cs as \<longleftrightarrow> is_interface \<and> length as = length cs \<and>
     dispatch_traits_ok tf as \<and> signatures_match cs as"

section \<open>Message ids\<close>

fun find_method_loop :: "method_ptr \<Rightarrow> method_ptr list \<Rightarrow> nat \<Rightarrow> nat" where
  "find_method_loop m [] i = 0"
| "find_method_loop m (x # xs) i = (if x = m then i else find_method_loop m xs (Suc i))"

text \<open>\<open>None\<close> where a \<open>static_assert\<close> fails.\<close>

definition find_method_index :: "method_ptr \<Rightarrow> method_ptr list \<Rightarrow> nat option" where
  "find_method_index m ms =
     (if ms = [] \<or> \<not> (\<exists>x \<in> set ms. x = m) then None else Some (find_method_loop m ms 0))"

definition msg_id :: "method_ptr list \<Rightarrow> method_ptr \<Rightarrow> message_id option" where
  "msg_id ms m = map_option (\<lambda>i. make_message_id Normal (of_nat i)) (find_method_index m ms)"

fun method_signature_exists :: "callable_trait \<Rightarrow> method_ptr list \<Rightarrow> bool" where
  "method_signature_exists t [] \<longleftrightarrow> False"
| "method_signature_exists t (m # ms) \<longleftrightarrow> t = method_type m \<or> method_signature_exists t ms"

definition method_belongs_to_class :: "(nat \<Rightarrow> nat \<Rightarrow> bool) \<Rightarrow> callable_trait \<Rightarrow> nat \<Rightarrow> bool" where
  "method_belongs_to_class base_of t expected \<longleftrightarrow> class_type t = expected \<or> base_of (class_type t) expected"

definition validate_method_for_send ::
  "(nat \<Rightarrow> nat \<Rightarrow> bool) \<Rightarrow> method_ptr list \<Rightarrow> callable_trait \<Rightarrow> nat \<Rightarrow> bool" where
  "validate_method_for_send base_of ms t actor \<longleftrightarrow>
     method_signature_exists t ms \<and> method_belongs_to_class base_of t actor"

section \<open>Arguments\<close>

definition convertible_arg :: "type_facts \<Rightarrow> cpp_type \<Rightarrow> cpp_type \<Rightarrow> bool" where
  "convertible_arg tf expected provided \<longleftrightarrow> expected = provided \<or> tf_converts tf provided expected"

definition compatible_args :: "type_facts \<Rightarrow> cpp_type list \<Rightarrow> cpp_type list \<Rightarrow> bool" where
  "compatible_args tf expected provided \<longleftrightarrow>
     length expected = length provided \<and> list_all2 (convertible_arg tf) expected provided"

definition validate_send_args :: "type_facts \<Rightarrow> callable_trait \<Rightarrow> cpp_type list \<Rightarrow> bool" where
  "validate_send_args tf t provided \<longleftrightarrow>
     length (args_types t) = length provided \<and>
     compatible_args tf (map cv_decayed (args_types t)) provided \<and>
     (\<forall>p \<in> set provided. valid_rtt_type tf p)"

section \<open>Sending\<close>

datatype send_fault = Does_not_compile | Stopped fault | In_message msg_fault | In_future future_fault

text \<open>The method found, with the index it is registered at.\<close>

fun dispatch_one_impl :: "bool \<Rightarrow> method_ptr \<Rightarrow> method_ptr list \<Rightarrow> nat \<Rightarrow> send_fault + method_ptr \<times> nat" where
  "dispatch_one_impl nd m [] i = Inl (Stopped (if nd then Aborted else Assertion_failed))"
| "dispatch_one_impl nd m (x # xs) i =
     (if method_type m = method_type x \<and> m = x then Inr (x, i) else dispatch_one_impl nd m xs (Suc i))"

text \<open>
  \<open>al\<close> and \<open>sz\<close> are the layout of \<open>message\<close>; \<open>enq\<close> is what the actor's \<open>enqueue_impl\<close> answers,
  which consumes the message and deletes it when the queue is closed. The result carries the
  message that reached the mailbox, if it did.
\<close>

definition make_any_message ::
  "64 word \<Rightarrow> 64 word \<Rightarrow> nat option \<Rightarrow> message_name \<Rightarrow> 'v argument list \<Rightarrow> resources \<Rightarrow> 'v world \<Rightarrow> 'v made" where
  "make_any_message al sz res name args sv w =
     (if args = [] then make_message0 al sz res name sv w else make_message al sz res name args sv w)"

definition dispatch_method_impl ::
  "64 word \<Rightarrow> 64 word \<Rightarrow> nat \<Rightarrow> nat option \<Rightarrow> 'v argument list \<Rightarrow> resources \<Rightarrow> bool \<times> enqueue_result \<Rightarrow> 'v world
    \<Rightarrow> send_fault + (bool \<times> unique_future) \<times> (64 word \<times> message) option \<times> 'v world" where
  "dispatch_method_impl al sz action_id res args sv enq w =
     (let cmd = make_message_id Normal (of_nat action_id) in
      case make_any_message al sz res (Id_name cmd) args sv w of
        Inl (f, _) \<Rightarrow> Inl (In_message f)
      | Inr ((p, m), future, w1) \<Rightarrow>
          (let (needs_sched, r) = enq in
           if r = Queue_closed
           then (case delete_message al p m w1 of
                   Inl f \<Rightarrow> Inl (In_message f)
                 | Inr w2 \<Rightarrow> Inr ((needs_sched, future), None, w2))
           else Inr ((needs_sched, future), Some (p, m), w1)))"

definition send ::
  "type_facts \<Rightarrow> (nat \<Rightarrow> nat \<Rightarrow> bool) \<Rightarrow> bool \<Rightarrow> method_ptr list \<Rightarrow> method_ptr \<Rightarrow> 64 word \<Rightarrow> 64 word \<Rightarrow> nat option
    \<Rightarrow> 'v argument list \<Rightarrow> resources \<Rightarrow> bool \<times> enqueue_result \<Rightarrow> 'v world
    \<Rightarrow> send_fault + (bool \<times> unique_future) \<times> (64 word \<times> message) option \<times> 'v world" where
  "send tf base_of nd methods method al sz res args sv enq w =
     (if \<not> dispatch_traits_ok tf methods \<or>
         \<not> validate_method_for_send base_of methods (method_type method) (class_type (method_type method)) \<or>
         \<not> validate_send_args tf (method_type method) (map raw_type args)
      then Inl Does_not_compile
      else case dispatch_one_impl nd method methods 0 of
             Inl f \<Rightarrow> Inl f
           | Inr (_, action_id) \<Rightarrow> dispatch_method_impl al sz action_id res args sv enq w)"

section \<open>Dispatching\<close>

definition non_const_lvalue_ref :: "cv_type \<Rightarrow> bool" where
  "non_const_lvalue_ref t \<longleftrightarrow> cv_ref t = Lvalue_ref \<and> \<not> cv_const t"

definition valid_args_list :: "type_facts \<Rightarrow> cv_type list \<Rightarrow> bool" where
  "valid_args_list tf as \<longleftrightarrow> (\<forall>a \<in> set as. valid_rtt_type tf (cv_decayed a))"

definition no_non_const_refs :: "cv_type list \<Rightarrow> bool" where
  "no_non_const_refs as \<longleftrightarrow> \<not> (\<exists>a \<in> set as. non_const_lvalue_ref a)"

text \<open>
  \<open>detail::get\<close>: a parameter taken by value is moved out of the block, \<open>moved\<close> says what stays
  behind; a reference parameter is bound to the object in the block.
\<close>

definition get_arg ::
  "('v \<Rightarrow> 'v) \<Rightarrow> rtt \<Rightarrow> cv_type \<Rightarrow> nat \<Rightarrow> 'v arena \<Rightarrow> rtt_fault + 'v \<times> 'v arena" where
  "get_arg moved b t i A =
     (case rtt_offset b (of_nat i) A of
        Inl f \<Rightarrow> Inl f
      | Inr off \<Rightarrow>
          (case rtt_get_by_offset (cv_decayed t) b off A of
             Inl f \<Rightarrow> Inl f
           | Inr v \<Rightarrow>
               Inr (v, if cv_ref t = No_ref
                       then A\<lparr>objs := (objs A)(r_data b + off \<mapsto> (cv_decayed t, moved v))\<rparr> else A)))"

fun get_args ::
  "('v \<Rightarrow> 'v) \<Rightarrow> rtt \<Rightarrow> cv_type list \<Rightarrow> nat \<Rightarrow> 'v arena \<Rightarrow> rtt_fault + 'v list \<times> 'v arena" where
  "get_args moved b [] i A = Inr ([], A)"
| "get_args moved b (t # ts) i A =
     (case get_arg moved b t i A of
        Inl f \<Rightarrow> Inl f
      | Inr (v, A1) \<Rightarrow>
          (case get_args moved b ts (Suc i) A1 of
             Inl f \<Rightarrow> Inl f
           | Inr (vs, A2) \<Rightarrow> Inr (v # vs, A2)))"

text \<open>What the method is called with.\<close>

definition invoke_actor_method ::
  "('v \<Rightarrow> 'v) \<Rightarrow> cv_type list \<Rightarrow> message \<Rightarrow> 'v arena \<Rightarrow> send_fault + 'v list \<times> 'v arena" where
  "invoke_actor_method moved ts m A =
     (if ts = [] then Inr ([], A)
      else case message_body m of
        Inl f \<Rightarrow> Inl (In_message f)
      | Inr b \<Rightarrow>
          (case get_args moved b ts 0 A of
             Inl f \<Rightarrow> Inl (In_message (Body_fault f))
           | Inr r \<Rightarrow> Inr r))"

text \<open>
  The coroutine up to its \<open>co_await\<close>: the caller's promise, the message it no longer owes
  anything, and what the method is called with.
\<close>

definition dispatch_enter ::
  "type_facts \<Rightarrow> ('v \<Rightarrow> 'v) \<Rightarrow> callable_trait \<Rightarrow> message \<Rightarrow> 'v arena
    \<Rightarrow> send_fault + nat \<times> message \<times> 'v list \<times> 'v arena" where
  "dispatch_enter tf moved t m A =
     (if \<not> valid_args_list tf (args_types t) \<or> \<not> no_non_const_refs (args_types t) \<or>
         \<not> is_unique_future (result_of t)
      then Inl Does_not_compile
      else case (if args_types t = [] then Inr () else
                 case message_body m of
                   Inl f \<Rightarrow> Inl (In_message f)
                 | Inr b \<Rightarrow> if rtt_size b = of_nat (length (args_types t)) then Inr ()
                           else Inl (Stopped Assertion_failed)) of
        Inl f \<Rightarrow> Inl f
      | Inr _ \<Rightarrow>
          (let pr = get_result_promise m in
           if pr = 0 then Inl (Stopped Assertion_failed)
           else (let m1 = transfer_ownership m in
                 case invoke_actor_method moved (args_types t) m1 A of
                   Inl f \<Rightarrow> Inl f
                 | Inr (vs, A1) \<Rightarrow> Inr (pr, m1, vs, A1))))"

text \<open>From the resumption with the method's future finished to the end of the coroutine's body.\<close>

definition dispatch_resume ::
  "bool \<Rightarrow> bool \<Rightarrow> nat \<Rightarrow> unique_future \<Rightarrow> 'v fheap \<Rightarrow> send_fault + 'v fheap" where
  "dispatch_resume nd trivial pr f h =
     (case await_resume nd trivial f h of
        Inl e \<Rightarrow> Inl (In_future e)
      | Inr (r, h1) \<Rightarrow>
          (case (case r of Inr v \<Rightarrow> promise_set_value nd v pr h1 | Inl ep \<Rightarrow> promise_exception (Some ep) pr h1) of
             Inl e \<Rightarrow> Inl (In_future e)
           | Inr (pr', h2) \<Rightarrow>
               (case promise_destroy pr' h2 of Inl e \<Rightarrow> Inl (In_future e) | Inr h3 \<Rightarrow> Inr h3)))"

section \<open>Finding the method\<close>

lemma find_method_loop_first:
  assumes "m \<in> set ms"
  shows "\<exists>k < length ms. find_method_loop m ms i = i + k \<and> ms ! k = m \<and> (\<forall>j < k. ms ! j \<noteq> m)"
  using assms
proof (induction ms arbitrary: i)
  case (Cons x xs)
  show ?case
  proof (cases "x = m")
    case False
    with Cons obtain k where "k < length xs" "find_method_loop m xs (Suc i) = Suc i + k" "xs ! k = m"
      "\<forall>j < k. xs ! j \<noteq> m" by (metis set_ConsD)
    with False show ?thesis by (intro exI [of _ "Suc k"]) (auto simp: nth_Cons split: nat.splits)
  qed auto
qed simp

lemma dispatch_one_impl_found:
  "m \<in> set ms \<Longrightarrow> dispatch_one_impl nd m ms i = Inr (m, find_method_loop m ms i)"
  by (induction ms arbitrary: i) auto

lemma dispatch_one_impl_missing:
  "m \<notin> set ms \<Longrightarrow> dispatch_one_impl nd m ms i = Inl (Stopped (if nd then Aborted else Assertion_failed))"
  by (induction ms arbitrary: i) auto

lemma method_signature_exists_iff: "method_signature_exists t ms \<longleftrightarrow> (\<exists>m \<in> set ms. t = method_type m)"
  by (induction ms) auto

lemma find_method_index_some:
  assumes "m \<in> set ms"
  obtains k where "k < length ms" and "find_method_loop m ms 0 = k" and "ms ! k = m"
    and "\<forall>j < k. ms ! j \<noteq> m" and "find_method_index m ms = Some k"
  using find_method_loop_first [OF assms, of 0] assms
  by (cases "ms = []") (auto simp: find_method_index_def)

lemma msg_id_low:
  assumes "k < 2 ^ 60"
  shows "take_bit 60 (make_message_id Normal (of_nat k)) = (of_nat k :: 64 word)"
    and "\<not> is_high_priority (make_message_id Normal (of_nat k))"
proof -
  have u: "unat (of_nat k :: 64 word) < 2 ^ 60"
    using assms by (simp only: unat_of_nat) simp
  show "take_bit 60 (make_message_id Normal (of_nat k)) = (of_nat k :: 64 word)" by (rule take_bit_make [OF u])
  show "\<not> is_high_priority (make_message_id Normal (of_nat k))"
    by (simp add: is_high_priority_iff bit_make_normal del: make_message_id.simps(1))
qed

lemma msg_id_inj:
  assumes "j < 2 ^ 60" and "k < 2 ^ 60" and "make_message_id Normal (of_nat j) = make_message_id Normal (of_nat k)"
  shows "j = k"
proof -
  have "(of_nat j :: 64 word) = of_nat k" using msg_id_low(1) [OF assms(1)] msg_id_low(1) [OF assms(2)] assms(3) by metis
  then have "unat (of_nat j :: 64 word) = unat (of_nat k :: 64 word)" by simp
  then show ?thesis using assms(1,2) by (simp only: unat_of_nat) simp
qed

lemma find_method_index_nth:
  assumes "distinct ms" and "k < length ms"
  shows "find_method_index (ms ! k) ms = Some k"
proof -
  have "ms ! k \<in> set ms" using assms(2) by simp
  then obtain i where i: "i < length ms" "ms ! i = ms ! k" "find_method_index (ms ! k) ms = Some i"
    by (rule find_method_index_some)
  then show ?thesis using assms by (simp add: nth_eq_iff_index_eq)
qed

section \<open>Properties of ids\<close>

text \<open>C33: A sent method is found under the id the receiver switches on. For a registered method the
  run-time search of \<open>send\<close> ends at the very method, at the index that \<open>msg_id\<close> computes at compile
  time, with normal priority and the index in the low bits; different methods have different ids; and
  a method that is not registered stops the sender.\<close>

theorem send_reaches_method:
  assumes "length ms < 2 ^ 60"
  shows "(m \<in> set ms \<longrightarrow> (\<exists>k < length ms. dispatch_one_impl nd m ms 0 = Inr (m, k) \<and> ms ! k = m \<and>
      msg_id ms m = Some (make_message_id Normal (of_nat k)) \<and>
      take_bit 60 (make_message_id Normal (of_nat k)) = (of_nat k :: 64 word) \<and>
      \<not> is_high_priority (make_message_id Normal (of_nat k)))) \<and>
    (m \<notin> set ms \<longrightarrow> dispatch_one_impl nd m ms 0 = Inl (Stopped (if nd then Aborted else Assertion_failed)) \<and>
      msg_id ms m = None) \<and>
    (\<forall>m'. msg_id ms m = msg_id ms m' \<and> msg_id ms m \<noteq> None \<longrightarrow> m = m')"
proof (intro conjI impI allI)
  assume m: "m \<in> set ms"
  obtain k where k: "k < length ms" "find_method_loop m ms 0 = k" "ms ! k = m" "find_method_index m ms = Some k"
    by (rule find_method_index_some [OF m])
  then show "\<exists>k < length ms. dispatch_one_impl nd m ms 0 = Inr (m, k) \<and> ms ! k = m \<and>
      msg_id ms m = Some (make_message_id Normal (of_nat k)) \<and>
      take_bit 60 (make_message_id Normal (of_nat k)) = (of_nat k :: 64 word) \<and>
      \<not> is_high_priority (make_message_id Normal (of_nat k))"
    using msg_id_low [of k] assms dispatch_one_impl_found [OF m]
    by (auto simp: msg_id_def simp del: make_message_id.simps)
next
  assume "m \<notin> set ms"
  then show "dispatch_one_impl nd m ms 0 = Inl (Stopped (if nd then Aborted else Assertion_failed))"
    and "msg_id ms m = None"
    by (auto simp: dispatch_one_impl_missing msg_id_def find_method_index_def)
next
  fix m'
  assume a: "msg_id ms m = msg_id ms m' \<and> msg_id ms m \<noteq> None"
  then have "m \<in> set ms" "m' \<in> set ms"
    by (auto simp: msg_id_def find_method_index_def split: if_splits)
  then obtain k k' where "k < length ms" "ms ! k = m" "find_method_index m ms = Some k"
    "k' < length ms" "ms ! k' = m'" "find_method_index m' ms = Some k'"
    by (metis find_method_index_some)
  then show "m = m'"
    using a assms msg_id_inj [of k k'] by (auto simp: msg_id_def simp del: make_message_id.simps)
qed

definition sample_trait :: callable_trait where
  "sample_trait = \<lparr>class_type = 1, result_of = Future_of None, args_types = [], is_const_method = False,
     is_noexcept_method = False\<rparr>"

definition sample_method :: "nat \<Rightarrow> nat \<Rightarrow> method_ptr" where
  "sample_method cl e = \<lparr>method_type = sample_trait\<lparr>class_type := cl\<rparr>, method_entry = e\<rparr>"

theorem send_reaches_method_witness:
  "dispatch_one_impl False (sample_method 1 8) [sample_method 1 7, sample_method 1 8] 0 = Inr (sample_method 1 8, 1)"
  using send_reaches_method [of "[sample_method 1 7, sample_method 1 8]" "sample_method 1 8" False]
  by (auto simp: sample_method_def less_Suc_eq)

text \<open>C34: An implementation answers to its contract's ids. When a class binds its methods to a contract
  and neither list repeats a method, the id of each contract method is the id of the method that
  implements it, with the same result and argument types. Nothing checks for repetitions: with one
  method bound to two contract methods the ids differ, and the second is never matched.\<close>

theorem implements_ids_agree:
  assumes "valid_implementation tf True cs as"
  shows "(distinct cs \<and> distinct as \<longrightarrow> (\<forall>k < length cs. msg_id cs (cs ! k) = msg_id as (as ! k) \<and>
      msg_id cs (cs ! k) \<noteq> None \<and>
      args_types (method_type (cs ! k)) = args_types (method_type (as ! k)) \<and>
      result_of (method_type (cs ! k)) = result_of (method_type (as ! k)))) \<and>
    (\<exists>cs as. valid_implementation tf True cs as \<and> length cs = 2 \<and>
      msg_id cs (cs ! 1) \<noteq> msg_id as (as ! 1) \<and> msg_id cs (cs ! 1) \<notin> (\<lambda>a. msg_id as a) ` set as)"
proof (intro conjI impI)
  assume d: "distinct cs \<and> distinct as"
  have len: "length as = length cs" using assms by (simp add: valid_implementation_def)
  show "\<forall>k < length cs. msg_id cs (cs ! k) = msg_id as (as ! k) \<and> msg_id cs (cs ! k) \<noteq> None \<and>
      args_types (method_type (cs ! k)) = args_types (method_type (as ! k)) \<and>
      result_of (method_type (cs ! k)) = result_of (method_type (as ! k))"
    using assms d len list_all2_nthD [of check_one cs as]
    by (simp add: msg_id_def find_method_index_nth valid_implementation_def signatures_match_def
        check_one_def del: make_message_id.simps)
next
  let ?cs = "[sample_method 1 1, sample_method 1 2]" and ?as = "[sample_method 2 1, sample_method 2 1]"
  have v: "valid_implementation tf True ?cs ?as"
    by (simp add: valid_implementation_def dispatch_traits_ok_def method_return_type_check_def
        is_unique_future_def no_const_ref_def no_rvalue_move_only_def signatures_match_def check_one_def
        sample_method_def sample_trait_def)
  have i: "find_method_index (sample_method 1 2) ?cs = Some 1"
    "find_method_index (sample_method 2 1) ?as = Some 0"
    by (simp_all add: find_method_index_def sample_method_def)
  have "make_message_id Normal (of_nat 1) \<noteq> make_message_id Normal (of_nat 0)"
    using msg_id_inj [of 1 0] by fastforce
  then show "\<exists>cs as. valid_implementation tf True cs as \<and> length cs = 2 \<and>
      msg_id cs (cs ! 1) \<noteq> msg_id as (as ! 1) \<and> msg_id cs (cs ! 1) \<notin> (\<lambda>a. msg_id as a) ` set as"
    using v i by (intro exI [of _ ?cs] exI [of _ ?as]) (simp add: msg_id_def del: make_message_id.simps)
qed

definition sample_facts :: type_facts where
  "sample_facts = \<lparr>tf_copyable = (\<lambda>_. True), tf_movable = (\<lambda>_. True), tf_abstract = (\<lambda>_. False),
     tf_converts = (\<lambda>p e. p = int_type \<and> e = double_type)\<rparr>"

theorem implements_ids_agree_witness:
  "msg_id [sample_method 1 1, sample_method 1 2] (sample_method 1 2) =
   msg_id [sample_method 2 5, sample_method 2 4] (sample_method 2 4)"
proof -
  have v: "valid_implementation sample_facts True [sample_method 1 1, sample_method 1 2] [sample_method 2 5, sample_method 2 4]"
    by (simp add: valid_implementation_def dispatch_traits_ok_def method_return_type_check_def
        is_unique_future_def no_const_ref_def no_rvalue_move_only_def signatures_match_def check_one_def
        sample_method_def sample_trait_def)
  have "distinct [sample_method 1 1, sample_method 1 2] \<and> distinct [sample_method 2 5, sample_method 2 4]"
    by (simp add: sample_method_def)
  with implements_ids_agree [OF v, THEN conjunct1, rule_format, of 1] show ?thesis by simp
qed

section \<open>Reading the arguments\<close>

lemma holds_update:
  assumes "holds R A (zs @ y # us)"
  shows "holds R (A\<lparr>objs := (objs A)(obj_addr R y \<mapsto> (fst (snd y), v'))\<rparr>) (zs @ (fst y, fst (snd y), v') # us)"
proof -
  let ?y = "(fst y, fst (snd y), v')" and ?A = "A\<lparr>objs := (objs A)(obj_addr R y \<mapsto> (fst (snd y), v'))\<rparr>"
  have a: "obj_addr R ?y = obj_addr R y" by (simp add: obj_addr_def)
  have st: "stored R A (zs @ y # us)" and pk: "packed (unat (r_volume R)) (zs @ y # us)"
    using assms by (simp_all add: holds_def)
  have "packed (unat (r_volume R)) (zs @ ?y # us)"
    using pk by (simp add: packed_def sorted_wrt_append)
  moreover have "stored R ?A (zs @ ?y # us)"
    unfolding stored_def
  proof (intro conjI ballI allI impI)
    fix i assume "i < length (zs @ ?y # us)"
    then show "table ?A (entry_addr R i) =
        Some \<lparr>obj_offset = of_nat (fst ((zs @ ?y # us) ! i)), obj_destroyer = fst (snd ((zs @ ?y # us) ! i))\<rparr>"
      using st by (auto simp: stored_def nth_append nth_Cons split: nat.splits)
  next
    fix x assume "x \<in> set (zs @ ?y # us)"
    then show "objs ?A (obj_addr R x) = Some (snd x)"
      using st a by (auto simp: stored_def image_iff)
  next
    show "distinct (map (obj_addr R) (zs @ ?y # us))" using st a by (simp add: stored_def)
  qed
  ultimately show ?thesis using assms by (simp add: holds_def)
qed

definition moved_out :: "('v \<Rightarrow> 'v) \<Rightarrow> cv_type \<Rightarrow> nat \<times> cpp_type \<times> 'v \<Rightarrow> nat \<times> cpp_type \<times> 'v" where
  "moved_out moved t y = (fst y, fst (snd y), if cv_ref t = No_ref then moved (snd (snd y)) else snd (snd y))"

lemma moved_out_addr [simp]: "obj_addr R (moved_out moved t y) = obj_addr R y"
  by (simp add: moved_out_def obj_addr_def)

lemma get_arg_holds:
  assumes "holds R A (zs @ y # us)" and "cv_decayed t = fst (snd y)"
  shows "\<exists>A'. get_arg moved R t (length zs) A = Inr (snd (snd y), A') \<and>
    holds R A' (zs @ moved_out moved t y # us) \<and> blocks A' = blocks A \<and> destroyed A' = destroyed A \<and>
    (\<forall>p. p \<noteq> obj_addr R y \<longrightarrow> objs A' p = objs A p)"
proof -
  have "y \<in> set (zs @ y # us)" by simp
  from holds_bound [OF assms(1) this] have b: "fst ((zs @ y # us) ! length zs) < 2 ^ 64"
    using unsigned_less [of "r_capacity R", where ?'a = nat] by (simp add: nth_append)
  have off: "rtt_offset R (of_nat (length zs)) A = Inr (of_nat (fst y))"
    using holds_get(1) [OF assms(1) _ b] by (simp add: nth_append)
  have o: "objs A (r_data R + of_nat (fst y)) = Some (snd y)"
    using assms(1) by (simp add: holds_def stored_def obj_addr_def)
  have y: "(fst y, fst (snd y), snd (snd y)) = y" by simp
  show ?thesis
    using off o assms(2) holds_update [OF assms(1), of "moved (snd (snd y))"] assms(1)
    by (cases "cv_ref t = No_ref")
      (auto simp: get_arg_def rtt_get_by_offset_def moved_out_def obj_addr_def y split: prod.splits)
qed

lemma get_args_holds:
  assumes "holds R A (zs @ us)" and "map (\<lambda>y. fst (snd y)) us = map cv_decayed ts"
  shows "\<exists>A'. get_args moved R ts (length zs) A = Inr (map (\<lambda>y. snd (snd y)) us, A') \<and>
    holds R A' (zs @ map2 (moved_out moved) ts us) \<and> blocks A' = blocks A \<and> destroyed A' = destroyed A \<and>
    (\<forall>p. p \<notin> obj_addr R ` set us \<longrightarrow> objs A' p = objs A p)"
  using assms
proof (induction ts arbitrary: zs us A)
  case (Cons t ts)
  obtain y us' where us: "us = y # us'" and t: "cv_decayed t = fst (snd y)"
    and r: "map (\<lambda>y. fst (snd y)) us' = map cv_decayed ts"
    using Cons.prems(2) by (cases us) auto
  obtain A1 where g: "get_arg moved R t (length zs) A = Inr (snd (snd y), A1)"
    and h: "holds R A1 (zs @ moved_out moved t y # us')" and b: "blocks A1 = blocks A" "destroyed A1 = destroyed A"
    and o: "\<forall>p. p \<noteq> obj_addr R y \<longrightarrow> objs A1 p = objs A p"
    using get_arg_holds [OF Cons.prems(1) [unfolded us] t] by blast
  have h': "holds R A1 ((zs @ [moved_out moved t y]) @ us')" using h by simp
  from Cons.IH [OF h' r] obtain A2 where
    "get_args moved R ts (Suc (length zs)) A1 = Inr (map (\<lambda>y. snd (snd y)) us', A2)"
    "holds R A2 (zs @ moved_out moved t y # map2 (moved_out moved) ts us')" "blocks A2 = blocks A1"
    "destroyed A2 = destroyed A1" "\<forall>p. p \<notin> obj_addr R ` set us' \<longrightarrow> objs A2 p = objs A1 p"
    by auto
  then show ?case using g b o us by auto
qed simp

lemma placed_parts:
  "map (\<lambda>y. fst (snd y)) (placed xs) = map arg_type xs" "map (\<lambda>y. snd (snd y)) (placed xs) = map arg_value xs"
  by (rule nth_equalityI; simp add: placed_nth)+

lemma rtt_read_and_cleared:
  assumes "xs \<noteq> []" and "\<forall>x \<in> set xs. arg_ok x" and "block_ok base (map arg_type xs)"
    and "\<forall>off \<in> set (layout 0 (map arg_type xs)). objs A (base + of_nat off) = None"
    and "map cv_decayed ts = map arg_type xs"
  obtains R A1 A2 A3 where "rtt_new (Some r) xs base A = Inr (R, A1)" and "r_resource R = Some r"
    and "rtt_size R = of_nat (length xs)" and "\<not> rtt_is_empty R"
    and "get_args moved R ts 0 A1 = Inr (map arg_value xs, A2)" and "rtt_clear R A2 = Inr (rtt_cleared R, A3)"
    and "blocks A3 = blocks A" and "objs A3 = objs A"
    and "length (destroyed A3) = length (destroyed A) + length xs"
proof -
  obtain R A1 where f: "rtt_new (Some r) xs base A = Inr (R, A1)" and h: "holds R A1 (placed xs)"
    and g: "r_resource R = Some r" "r_allocation R = base" "base \<noteq> 0"
    "align_up (r_capacity R) alignof_objects_t + r_idx R * sizeof_objects_t = rtt_block_size (map arg_type xs)"
    and b: "blocks A1 = (r, base, rtt_block_size (map arg_type xs)) # blocks A" and d: "destroyed A1 = destroyed A"
    and ad: "r_data R = base" and o: "\<forall>p. p \<notin> obj_addr R ` set (placed xs) \<longrightarrow> objs A1 p = objs A p"
    by (rule rtt_new_facts [OF assms(1-3), of r A]) blast
  let ?ys = "map2 (moved_out moved) ts (placed xs)"
  have l: "length ts = length xs" using assms(5) by (metis length_map)
  have t: "map (\<lambda>y. fst (snd y)) (placed xs) = map cv_decayed ts" by (simp add: placed_parts assms(5))
  obtain A2 where a: "get_args moved R ts 0 A1 = Inr (map arg_value xs, A2)" "holds R A2 ?ys"
    "blocks A2 = blocks A1" "destroyed A2 = destroyed A1"
    "\<forall>p. p \<notin> obj_addr R ` set (placed xs) \<longrightarrow> objs A2 p = objs A1 p"
    using get_args_holds [of R A1 "[]" "placed xs" ts moved] h t by (auto simp: placed_parts)
  have m: "map (obj_addr R) ?ys = map (obj_addr R) (placed xs)"
    by (rule nth_equalityI) (simp_all add: l)
  obtain A3 where c: "rtt_clear R A2 = Inr (rtt_cleared R, A3)" "blocks A3 = blocks A" "objs A3 = objs A"
    "destroyed A3 = destroyed A2 @ rev (map (\<lambda>y. (obj_addr R y, snd y)) ?ys)"
    using rtt_clear_restores [OF assms(4) a(2) m g b [folded a(3)] ad] o a(5) by auto
  have n: "r_idx R = of_nat (length xs)" "length xs < 2 ^ 59" using h by (simp_all add: holds_def)
  have "(of_nat (length xs) :: size_t) \<noteq> 0"
  proof
    assume "(of_nat (length xs) :: size_t) = 0"
    then have "unat (of_nat (length xs) :: size_t) = 0" by simp
    then show False using n(2) assms(1) by (simp only: unat_of_nat) simp
  qed
  with n(1) have e: "\<not> rtt_is_empty R" by (simp add: rtt_is_empty_def)
  have "length (destroyed A3) = length (destroyed A) + length xs" by (simp add: c(4) a(4) d l)
  with that [OF f g(1) _ e a(1) c(1-3)] n(1) show ?thesis by (simp add: rtt_size_def)
qed

lemma exact_types_compatible: "compatible_args tf ts ts"
  by (simp add: compatible_args_def convertible_arg_def list_all2_refl)

lemma owes_transferred [simp]: "\<not> owes (transfer_ownership m)"
  by (simp add: owes_def transfer_ownership_def)

lemma fresh_parts [simp]:
  "m_body (fresh_message name b st) = b" "m_result_slot (fresh_message name b st) = st"
  "m_command (fresh_message name b st) = to_message_id name"
  "m_body (transfer_ownership m) = m_body m"
  by (simp_all add: fresh_message_def transfer_ownership_def)

text \<open>Entering the dispatch coroutine with a message made for it.\<close>

lemma dispatch_enter_reads:
  assumes "valid_args_list tf (args_types t)" and "no_non_const_refs (args_types t)"
    and "is_unique_future (result_of t)" and "args_types t \<noteq> []" and "\<not> rtt_is_empty b"
    and "rtt_size b = of_nat (length (args_types t))" and "st \<noteq> 0"
    and "get_args moved b (args_types t) 0 A = Inr (vs, A')"
  shows "dispatch_enter tf moved t (fresh_message name b st) A
    = Inr (st, transfer_ownership (fresh_message name b st), vs, A')"
  using assms
  by (simp add: dispatch_enter_def message_body_def invoke_actor_method_def get_result_promise_def
      promise_view_def Let_def)

text \<open>The tail of the dispatch coroutine, on a caller's state nobody touched since.\<close>

fun answered_with :: "'v body_end \<Rightarrow> 'v fheap \<Rightarrow> future_fault + 'v \<times> unique_future \<times> 'v fheap" where
  "answered_with (Returned v) h = Inr (v, fut_null, h)"
| "answered_with (Returned_error ec) h = Inl (Failed Aborted)"
| "answered_with (Threw ep) h = Inl (Rethrown ep)"

lemma dispatch_resume_answers:
  assumes "pr \<noteq> 0" and "p \<noteq> 0" and "pr \<noteq> p" and "states h pr = None" and "states h p = None" and "frame_done h fr = None"
    and "\<nexists>ec. x = Returned_error ec"
  shows "\<exists>h4. dispatch_resume nd trivial pr \<lparr>fut_state = p, fut_handle = Some fr\<rparr>
      (parked x p fr (h\<lparr>states := (states h)(pr \<mapsto> ss_new)\<rparr>)) = Inr h4 \<and>
    fut_is_ready (fut_of_state pr) h4 = Inr True \<and>
    take_ready nd trivial (fut_of_state pr) h4 = answered_with x (reclaimed fr h)"
proof -
  let ?h = "h\<lparr>states := (states h)(pr \<mapsto> ss_new)\<rparr>"
  have w: "await_resume nd trivial \<lparr>fut_state = p, fut_handle = Some fr\<rparr> (parked x p fr ?h)
    = resumed_with x (reclaimed fr ?h)"
    by (rule await_resume_parked) (use assms in simp_all)
  have s: "states (reclaimed fr ?h) pr = Some ss_new" by (simp add: reclaimed_def)
  have undo: "(reclaimed fr ?h)\<lparr>states := (states (reclaimed fr ?h))(pr := None)\<rparr> = reclaimed fr h"
    using assms(4) by (simp add: reclaimed_def fun_upd_idem)
  have z: "promise_destroy 0 h' = Inr h'" for h' by (simp add: promise_destroy_def release_if_needed_def)
  show ?thesis
  proof (cases x)
    case (Returned v)
    then show ?thesis
      using produced_observed [OF assms(1) s, of nd "Inl (Inl v)" trivial] w
      by (auto simp: dispatch_resume_def undo z)
  next
    case (Threw ep)
    then show ?thesis
      using produced_observed [OF assms(1) s, of nd "Inr (Inl ep)" trivial] w
      by (auto simp: dispatch_resume_def undo z)
  qed (use assms(7) in simp)
qed

section \<open>Properties of sending and dispatching\<close>

text \<open>
  A call the code accepts: the method is registered, its parameters pass the checks, the
  arguments are plain; and the memory resources return unused places that suit the layout.
\<close>

definition callable :: "type_facts \<Rightarrow> method_ptr list \<Rightarrow> method_ptr \<Rightarrow> bool" where
  "callable tf methods method \<longleftrightarrow> method \<in> set methods \<and> dispatch_traits_ok tf methods \<and>
     args_types (method_type method) \<noteq> [] \<and> valid_args_list tf (args_types (method_type method)) \<and>
     no_non_const_refs (args_types (method_type method))"

definition room_for :: "64 word \<Rightarrow> 'v argument list \<Rightarrow> resources \<Rightarrow> 'v world \<Rightarrow> bool" where
  "room_for al args sv w \<longleftrightarrow> (\<forall>x \<in> set args. arg_ok x) \<and> block_ok (sup_args sv) (map arg_type args) \<and>
     (\<forall>off \<in> set (layout 0 (map arg_type args)). objs (w_arena w) (sup_args sv + of_nat off) = None) \<and>
     sup_state sv \<noteq> 0 \<and> states (w_heap w) (sup_state sv) = None \<and>
     (\<exists>raw. sup_msg sv = Some raw \<and> raw + kFront al \<noteq> 0 \<and> headers (w_blocks w) raw = None)"

lemma raw_types: "\<forall>x \<in> set args. arg_ok x \<Longrightarrow> map raw_type args = map arg_type args"
  by (simp add: arg_ok_def)

lemma validate_exact:
  assumes "callable tf methods method" and "\<forall>x \<in> set args. arg_ok x"
    and "map cv_decayed (args_types (method_type method)) = map arg_type args"
  shows "validate_send_args tf (method_type method) (map raw_type args)"
proof -
  have "set (map arg_type args) = cv_decayed ` set (args_types (method_type method))"
    by (metis assms(3) list.set_map)
  then have "\<forall>p \<in> set (map arg_type args). valid_rtt_type tf p"
    using assms(1) by (simp add: callable_def valid_args_list_def)
  moreover have "length (args_types (method_type method)) = length args"
    by (metis assms(3) length_map)
  ultimately show ?thesis
    using assms(3) exact_types_compatible
    by (simp add: validate_send_args_def raw_types [OF assms(2)] del: set_map)
qed

lemma send_dispatches:
  assumes "callable tf methods method" and "validate_send_args tf (method_type method) (map raw_type args)"
  shows "\<exists>k < length methods. methods ! k = method \<and>
    send tf base_of nd methods method al sz res args sv enq w = dispatch_method_impl al sz k res args sv enq w"
proof -
  have m: "method \<in> set methods" and d: "dispatch_traits_ok tf methods" using assms(1) by (simp_all add: callable_def)
  have v: "validate_method_for_send base_of methods (method_type method) (class_type (method_type method))"
    using m by (auto simp: validate_method_for_send_def method_signature_exists_iff method_belongs_to_class_def)
  obtain k where "k < length methods" "find_method_loop method methods 0 = k" "methods ! k = method"
    by (rule find_method_index_some [OF m])
  then show ?thesis
    using dispatch_one_impl_found [OF m, of nd 0] v d assms(2) by (auto simp: send_def)
qed

text \<open>What an accepted send puts into the mailbox, once the argument block is built.\<close>

lemma send_builds:
  assumes "callable tf methods method" and "validate_send_args tf (method_type method) (map raw_type args)"
    and "room_for al args sv w" and "args \<noteq> []" and "q \<noteq> Queue_closed"
    and "rtt_new (Some r) args (sup_args sv) (w_arena w) = Inr (b, A1)" and "r_resource b = Some r"
  obtains k p bs where "k < length methods" and "methods ! k = method" and "p \<noteq> 0"
    and "message_deleter al p bs = Inr (w_blocks w)"
    and "send tf base_of nd methods method al sz (Some r) args sv (ns, q) w =
      Inr ((ns, fut_of_state (sup_state sv)),
        Some (p, fresh_message (Id_name (make_message_id Normal (of_nat k))) b (sup_state sv)),
        w\<lparr>w_heap := (w_heap w)\<lparr>states := (states (w_heap w))(sup_state sv \<mapsto> ss_new)\<rparr>,
          w_arena := A1, w_blocks := bs\<rparr>)"
proof -
  obtain raw where raw: "sup_msg sv = Some raw" "raw + kFront al \<noteq> 0" "headers (w_blocks w) raw = None"
    using assms(3) by (auto simp: room_for_def)
  obtain k where k: "k < length methods" "methods ! k = method"
    and sd: "send tf base_of nd methods method al sz (Some r) args sv (ns, q) w
      = dispatch_method_impl al sz k (Some r) args sv (ns, q) w"
    using send_dispatches [OF assms(1,2), of base_of nd al sz "Some r" sv "(ns, q)" w] by blast
  obtain bs where blk: "pmr_make_message al sz r raw (w_blocks w) = (raw + kFront al, bs)"
    and del: "message_deleter al (raw + kFront al) bs = Inr (w_blocks w)"
    using message_block_returned [OF raw(3,2)] by blast
  show ?thesis
    by (rule that [OF k raw(2) del], unfold sd)
      (use assms(4,5) in \<open>simp add: dispatch_method_impl_def make_any_message_def Let_def
        make_message_built [OF assms(4,6,7) raw(1) blk] del: make_message_id.simps\<close>)
qed

text \<open>C7: A sent call is made with its arguments and answered. Sending with arguments of the parameters'
  own types puts a message with the method's id into the mailbox; dispatching it calls the method with
  exactly the values sent; deleting the message while the method is suspended destroys the arguments,
  returns its memory and does not answer in the method's place; and when the method returns or throws,
  the sender's future is ready with that value or exception, all coroutine state having been reclaimed.\<close>

theorem send_dispatch_answers:
  assumes "callable tf methods method" and "map cv_decayed (args_types (method_type method)) = map arg_type args"
    and "room_for al args sv w" and "q \<noteq> Queue_closed"
    and "p2 \<noteq> 0" and "p2 \<noteq> sup_state sv" and "states (w_heap w) p2 = None" and "frame_done (w_heap w) fr = None"
    and "\<nexists>ec. x = Returned_error ec"
  shows "\<exists>f p m w1 m1 A1 mf h1 w2 h3 h4.
    send tf base_of nd methods method al sz (Some r) args sv (ns, q) w = Inr ((ns, f), Some (p, m), w1) \<and>
    (\<exists>k < length methods. methods ! k = method \<and> m_command m = make_message_id Normal (of_nat k)) \<and>
    dispatch_enter tf moved (method_type method) m (w_arena w1) = Inr (sup_state sv, m1, map arg_value args, A1) \<and>
    get_return_object nd (Some r) p2 fr (w_heap w1) = Inr (mf, h1) \<and>
    delete_message al p m1 (w1\<lparr>w_heap := h1, w_arena := A1\<rparr>) = Inr w2 \<and>
    fut_is_ready f (w_heap w2) = Inr False \<and> w_blocks w2 = w_blocks w \<and> objs (w_arena w2) = objs (w_arena w) \<and>
    blocks (w_arena w2) = blocks (w_arena w) \<and>
    length (destroyed (w_arena w2)) = length (destroyed (w_arena w)) + length args \<and>
    finish_method nd x p2 fr (w_heap w2) = Inr (None, h3) \<and>
    dispatch_resume nd trivial (sup_state sv) mf h3 = Inr h4 \<and> fut_is_ready f h4 = Inr True \<and>
    take_ready nd trivial f h4 = answered_with x ((w_heap w)\<lparr>frames_destroyed := frames_destroyed (w_heap w) @ [fr]\<rparr>)"
proof -
  let ?t = "method_type method" and ?st = "sup_state sv"
  let ?H = "(w_heap w)\<lparr>states := (states (w_heap w))(sup_state sv \<mapsto> ss_new)\<rparr>"
  have ok: "\<forall>x \<in> set args. arg_ok x" "block_ok (sup_args sv) (map arg_type args)"
    "\<forall>off \<in> set (layout 0 (map arg_type args)). objs (w_arena w) (sup_args sv + of_nat off) = None"
    and st: "?st \<noteq> 0" "states (w_heap w) ?st = None" using assms(3) by (simp_all add: room_for_def)
  have ts: "args_types ?t \<noteq> []" "valid_args_list tf (args_types ?t)" "no_non_const_refs (args_types ?t)"
    and fu: "is_unique_future (result_of ?t)"
    using assms(1) by (auto simp: callable_def dispatch_traits_ok_def method_return_type_check_def)
  have ne: "args \<noteq> []" and len: "length (args_types ?t) = length args"
    using ts(1) assms(2) by (auto, metis length_map)
  obtain b A1 A2 A3 where b: "rtt_new (Some r) args (sup_args sv) (w_arena w) = Inr (b, A1)" "r_resource b = Some r"
    "rtt_size b = of_nat (length args)" "\<not> rtt_is_empty b"
    "get_args moved b (args_types ?t) 0 A1 = Inr (map arg_value args, A2)" "rtt_clear b A2 = Inr (rtt_cleared b, A3)"
    and rest: "blocks A3 = blocks (w_arena w)" "objs A3 = objs (w_arena w)"
    "length (destroyed A3) = length (destroyed (w_arena w)) + length args"
    by (rule rtt_read_and_cleared [OF ne ok assms(2), of r moved]) blast
  obtain k p bs where k: "k < length methods" "methods ! k = method" "p \<noteq> 0"
    and del: "message_deleter al p bs = Inr (w_blocks w)"
    and sent: "send tf base_of nd methods method al sz (Some r) args sv (ns, q) w = Inr ((ns, fut_of_state ?st),
      Some (p, fresh_message (Id_name (make_message_id Normal (of_nat k))) b ?st),
      w\<lparr>w_heap := ?H, w_arena := A1, w_blocks := bs\<rparr>)"
    by (rule send_builds [OF assms(1) validate_exact [OF assms(1) ok(1) assms(2)] assms(3) ne assms(4) b(1,2)])
  let ?name = "Id_name (make_message_id Normal (of_nat k))"
  let ?m = "fresh_message ?name b ?st" and ?w1 = "w\<lparr>w_heap := ?H, w_arena := A1, w_blocks := bs\<rparr>"
  have enter: "dispatch_enter tf moved ?t ?m (w_arena ?w1)
      = Inr (?st, transfer_ownership ?m, map arg_value args, A2)"
    using dispatch_enter_reads [OF ts(2,3) fu ts(1) b(4) _ st(1) b(5), of ?name] b(3) len by simp
  let ?w2 = "w\<lparr>w_heap := started p2 fr ?H, w_arena := A3, w_blocks := w_blocks w\<rparr>"
  have gone: "delete_message al p (transfer_ownership ?m)
      (?w1\<lparr>w_heap := started p2 fr ?H, w_arena := A2\<rparr>) = Inr ?w2"
    using k(3) b(6) del by (simp add: delete_message_def message_destroy_def run_cleanup_def)
  have early: "fut_is_ready (fut_of_state ?st) (started p2 fr ?H) = Inr False"
    using st(1) assms(6) by (simp add: started_def fut_is_ready_def fut_of_state_def get_state_def is_ready_def ss_new_def sf_defs)
  obtain h4 where fin: "dispatch_resume nd trivial ?st \<lparr>fut_state = p2, fut_handle = Some fr\<rparr> (parked x p2 fr ?H) = Inr h4"
    "fut_is_ready (fut_of_state ?st) h4 = Inr True"
    "take_ready nd trivial (fut_of_state ?st) h4 = answered_with x (reclaimed fr (w_heap w))"
    using dispatch_resume_answers [OF st(1) assms(5) _ st(2) assms(7,8,9), of nd trivial] assms(6) by auto
  have mc: "m_command ?m = make_message_id Normal (of_nat k)" by simp
  show ?thesis
    by (rule exI [of _ "fut_of_state ?st"], rule exI [of _ p], rule exI [of _ ?m], rule exI [of _ ?w1],
        rule exI [of _ "transfer_ownership ?m"], rule exI [of _ A2],
        rule exI [of _ "\<lparr>fut_state = p2, fut_handle = Some fr\<rparr>"], rule exI [of _ "started p2 fr ?H"],
        rule exI [of _ ?w2], rule exI [of _ "parked x p2 fr ?H"], rule exI [of _ h4])
      (use sent enter gone early fin k mc rest finish_method_parked [OF assms(5), of nd x fr ?H] in
        \<open>auto simp: get_return_object_started reclaimed_def simp del: make_message_id.simps fresh_parts(3)\<close>)
qed

text \<open>One \<open>int\<close> parameter taken by value.\<close>

definition int_method :: method_ptr where
  "int_method = \<lparr>method_type = sample_trait\<lparr>args_types := [\<lparr>cv_decayed = int_type, cv_ref = No_ref, cv_const = False\<rparr>]\<rparr>,
     method_entry = 3\<rparr>"

definition double_method :: method_ptr where
  "double_method = int_method\<lparr>method_type := sample_trait\<lparr>args_types :=
     [\<lparr>cv_decayed = double_type, cv_ref = No_ref, cv_const = False\<rparr>]\<rparr>\<rparr>"

lemmas sample_call = callable_def dispatch_traits_ok_def method_return_type_check_def is_unique_future_def
  no_const_ref_def no_rvalue_move_only_def valid_args_list_def no_non_const_refs_def non_const_lvalue_ref_def
  valid_rtt_type_def sample_facts_def sample_trait_def int_method_def double_method_def

lemma sample_callable:
  "callable sample_facts [int_method] int_method" "callable sample_facts [double_method] double_method"
  by (simp_all add: sample_call const_lvalue_ref_def rvalue_ref_to_move_only_def)

definition empty_world :: "nat world" where
  "empty_world = \<lparr>w_heap = empty_fheap, w_arena = no_arena, w_blocks = \<lparr>headers = (\<lambda>_. None), allocated = []\<rparr>\<rparr>"

definition sample_resources :: resources where
  "sample_resources = \<lparr>sup_state = 5, sup_args = 0x1000, sup_msg = Some 0x2000\<rparr>"

lemma sample_room: "room_for 8 [plain_arg int_type 7] sample_resources empty_world"
  by (simp add: room_for_def sample_resources_def empty_world_def rtt_sample no_arena_def empty_fheap_def
      kFront_def msg_align_up_def header_size_def)

theorem send_dispatch_answers_witness:
  "\<exists>f p m w1 m1 A1. send sample_facts (\<lambda>_ _. False) False [int_method] int_method 8 104 (Some 0)
       [plain_arg int_type 7] sample_resources (True, Unblocked_reader) empty_world = Inr ((True, f), Some (p, m), w1) \<and>
     dispatch_enter sample_facts (\<lambda>_. 0) (method_type int_method) m (w_arena w1) = Inr (5, m1, [7], A1)"
proof -
  have t: "map cv_decayed (args_types (method_type int_method)) = map arg_type [plain_arg int_type 7]"
    by (simp add: int_method_def plain_arg_def)
  have e: "(6 :: nat) \<noteq> 0" "6 \<noteq> sup_state sample_resources" "states (w_heap empty_world) 6 = None"
    "frame_done (w_heap empty_world) 1 = None" "\<nexists>ec. Returned 9 = Returned_error ec"
    "Unblocked_reader \<noteq> Queue_closed"
    by (simp_all add: sample_resources_def empty_world_def empty_fheap_def)
  from send_dispatch_answers [OF sample_callable(1) t sample_room e(6) e(1-5),
      where base_of = "\<lambda>_ _. False" and nd = False and sz = 104 and r = 0 and ns = True and moved = "\<lambda>_. 0"
        and trivial = True]
  show ?thesis by (simp add: sample_resources_def plain_arg_def) blast
qed

text \<open>C35: An argument of a merely convertible type is read as what it is not. Sending accepts an argument
  whose type converts to the parameter's, stores it as the type it was given in, and never converts:
  the dispatch reads the stored object as the parameter's type.\<close>

theorem send_converted_argument_misread:
  assumes "callable tf methods method" and "args_types (method_type method) = [t]"
    and "room_for al [x] sv w" and "q \<noteq> Queue_closed"
    and "tf_converts tf (arg_type x) (cv_decayed t)" and "arg_type x \<noteq> cv_decayed t" and "valid_rtt_type tf (arg_type x)"
  shows "\<exists>f p m w1.
    send tf base_of nd methods method al sz (Some r) [x] sv (ns, q) w = Inr ((ns, f), Some (p, m), w1) \<and>
    dispatch_enter tf moved (method_type method) m (w_arena w1) = Inl (In_message (Body_fault Wrong_type))"
proof -
  let ?t = "method_type method" and ?st = "sup_state sv"
  let ?H = "(w_heap w)\<lparr>states := (states (w_heap w))(sup_state sv \<mapsto> ss_new)\<rparr>"
  have ok: "\<forall>x \<in> set [x]. arg_ok x" "block_ok (sup_args sv) (map arg_type [x])"
    and st: "?st \<noteq> 0" using assms(3) by (simp_all add: room_for_def)
  have v: "validate_send_args tf ?t (map raw_type [x])"
    using assms(2,5,7) ok(1)
    by (simp add: validate_send_args_def compatible_args_def convertible_arg_def arg_ok_def)
  obtain b A1 where b: "rtt_new (Some r) [x] (sup_args sv) (w_arena w) = Inr (b, A1)" "r_resource b = Some r"
    and h: "holds b A1 (placed [x])"
    by (rule rtt_new_facts [OF _ ok, of r "w_arena w"]) auto
  have n: "r_idx b = 1" using h by (simp add: holds_def)
  have "0 < unat (ty_align (arg_type x))" using ok(1) small_align_16 by (auto simp: arg_ok_def)
  then have "roundup 0 (unat (ty_align (arg_type x))) = 0"
    using roundup_props(1,3) [of "unat (ty_align (arg_type x))" 0] by (auto dest: dvd_imp_le)
  then have off: "rtt_offset b (of_nat 0) A1 = Inr (of_nat (fst (placed [x] ! 0)))"
    using holds_get(1) [OF h, of 0] by (simp add: placed_def)
  have o: "objs A1 (r_data b + of_nat (fst (placed [x] ! 0))) = Some (snd (placed [x] ! 0))"
    using h by (auto simp: holds_def stored_def obj_addr_def)
  have bad: "get_arg moved b t 0 A1 = Inl Wrong_type"
    using off o assms(6) by (simp add: get_arg_def rtt_get_by_offset_def placed_def)
  obtain k p bs where sent: "send tf base_of nd methods method al sz (Some r) [x] sv (ns, q) w =
      Inr ((ns, fut_of_state ?st), Some (p, fresh_message (Id_name (make_message_id Normal (of_nat k))) b ?st),
        w\<lparr>w_heap := ?H, w_arena := A1, w_blocks := bs\<rparr>)"
    by (rule send_builds [OF assms(1) v assms(3) _ assms(4) b]) auto
  let ?m = "fresh_message (Id_name (make_message_id Normal (of_nat k))) b ?st"
  have "dispatch_enter tf moved ?t ?m A1 = Inl (In_message (Body_fault Wrong_type))"
    using assms(1,2) n bad st
    by (auto simp: dispatch_enter_def callable_def dispatch_traits_ok_def method_return_type_check_def
        message_body_def rtt_is_empty_def rtt_size_def get_result_promise_def promise_view_def
        invoke_actor_method_def Let_def simp del: make_message_id.simps)
  with sent show ?thesis by auto
qed

theorem send_converted_argument_misread_witness:
  "\<exists>f p m w1. send sample_facts (\<lambda>_ _. False) False [double_method] double_method 8 104 (Some 0)
       [plain_arg int_type 7] sample_resources (True, Success) empty_world = Inr ((True, f), Some (p, m), w1) \<and>
     dispatch_enter sample_facts (\<lambda>_. 0) (method_type double_method) m (w_arena w1) = Inl (In_message (Body_fault Wrong_type))"
proof (rule send_converted_argument_misread [OF sample_callable(2) _ sample_room])
  show "args_types (method_type double_method) = [\<lparr>cv_decayed = double_type, cv_ref = No_ref, cv_const = False\<rparr>]"
    by (simp add: double_method_def)
qed (simp_all add: sample_facts_def plain_arg_def valid_rtt_type_def int_type_def double_type_def)

text \<open>A dispatched method that ends with a bare error code takes the process down: whatever code it
  returns, the dispatch that awaits it aborts, and the sender is not answered.\<close>

theorem dispatched_error_aborts:
  assumes "p \<noteq> 0" and "states h p = None" and "frame_done h fr = None"
  shows "\<exists>f h1 h2. get_return_object nd (Some r) p fr h = Inr (f, h1) \<and>
    finish_method nd (Returned_error ec) p fr h1 = Inr (None, h2) \<and> fut_error f h2 = Inr ec \<and>
    dispatch_resume nd trivial pr f h2 = Inl (In_future (Failed Aborted))"
  using await_resume_parked [OF assms, of nd trivial "Returned_error ec"] assms(1)
  by (simp add: get_return_object_started finish_method_parked [OF assms(1)] dispatch_resume_def
      fut_error_def get_state_def parked_def get_error_def)

theorem dispatched_error_aborts_witness:
  "\<exists>f h1 h2. get_return_object False (Some 0) 5 1 (empty_fheap :: nat fheap) = Inr (f, h1) \<and>
    finish_method False (Returned_error Broken_pipe) 5 1 h1 = Inr (None, h2) \<and>
    dispatch_resume False True 7 f h2 = Inl (In_future (Failed Aborted))"
  using dispatched_error_aborts [of 5 "empty_fheap :: nat fheap" 1 False 0 Broken_pipe True 7]
  by (auto simp: empty_fheap_def)

end
