(* ===== verification/Address.thy ===== *)
theory Address
  imports Dispatch
begin

text \<open>
  How programs name and own actors: \<open>address_t\<close> (\<open>actor/address.hpp\<close>,
  \<open>impl/actor/address.ipp\<close>), the identity \<open>actor_mixin::id_t\<close> (\<open>actor/actor_mixin.hpp\<close>), and
  \<open>spawn\<close> with the allocation helpers and the deleter (\<open>spawn.hpp\<close>, \<open>detail/memory.hpp\<close>). An
  enqueue function is named by the actor type whose \<open>enqueue_impl\<close> it calls.
\<close>

section \<open>Addresses\<close>

record address =
  a_resource :: "nat option"
  a_ptr :: nat
  a_fn :: "nat option"

definition address_null :: address where
  "address_null = \<lparr>a_resource = None, a_ptr = 0, a_fn = None\<rparr>"

definition safe_cast_ptr :: "nat \<Rightarrow> nat outcome" where
  "safe_cast_ptr p = (if p \<noteq> 0 then Inr p else Inl Assertion_failed)"

definition address_new :: "nat option \<Rightarrow> nat \<Rightarrow> nat \<Rightarrow> address outcome" where
  "address_new resource target p =
     (case safe_cast_ptr p of
        Inl f \<Rightarrow> Inl f
      | Inr q \<Rightarrow> Inr \<lparr>a_resource = resource, a_ptr = q, a_fn = Some target\<rparr>)"

definition address_bool :: "address \<Rightarrow> bool" where
  "address_bool a \<longleftrightarrow> a_ptr a \<noteq> 0"

definition address_not :: "address \<Rightarrow> bool" where
  "address_not a \<longleftrightarrow> \<not> (a_ptr a \<noteq> 0)"

definition address_eq :: "address \<Rightarrow> address \<Rightarrow> bool" where
  "address_eq a b \<longleftrightarrow> a_ptr a = a_ptr b"

definition address_copy :: "address \<Rightarrow> address" where
  "address_copy other = \<lparr>a_resource = a_resource other, a_ptr = a_ptr other, a_fn = a_fn other\<rparr>"

definition address_swap :: "address \<Rightarrow> address \<Rightarrow> address \<times> address" where
  "address_swap a b =
     (a\<lparr>a_ptr := a_ptr b, a_resource := a_resource b, a_fn := a_fn b\<rparr>,
      b\<lparr>a_ptr := a_ptr a, a_resource := a_resource a, a_fn := a_fn a\<rparr>)"

text \<open>The new address, and what is left of the source.\<close>

definition address_move :: "address \<Rightarrow> address \<times> address" where
  "address_move other = address_swap address_null other"

definition address_destroy :: "address \<Rightarrow> address" where
  "address_destroy a = a\<lparr>a_ptr := 0\<rparr>"

definition empty_address :: address where
  "empty_address = address_copy address_null"

text \<open>\<open>call\<close> is \<open>enqueue_impl\<close> of the given type on the given actor.\<close>

definition address_enqueue :: "(nat \<Rightarrow> nat \<Rightarrow> 'm \<Rightarrow> 'r) \<Rightarrow> address \<Rightarrow> 'm \<Rightarrow> 'r outcome" where
  "address_enqueue call a msg =
     (case a_fn a of None \<Rightarrow> Inl Assertion_failed | Some target \<Rightarrow> Inr (call target (a_ptr a) msg))"

section \<open>Variables of type address\<close>

text \<open>
  A program's address variables by position: a new variable \<open>address_t(actor)\<close>, where the type of the
  pointer expression, not that of the object, is the \<open>Target\<close>, copied or moved from \<open>w\<close>, or empty;
  \<open>v = address_t(actor)\<close>, \<open>v = w\<close>, \<open>v = std::move(w)\<close>, \<open>v.swap(w)\<close>,
  \<open>v = empty_address()\<close>, and the end of \<open>v\<close>'s life. An assignment from a temporary moves it.
\<close>

datatype address_op =
  A_new nat nat | A_new_copy nat | A_new_move nat | A_new_empty
| A_actor nat nat nat | A_assign nat nat | A_move nat nat | A_swap nat nat | A_empty nat | A_destroy nat

definition swap_at :: "nat \<Rightarrow> nat \<Rightarrow> address list \<Rightarrow> address list" where
  "swap_at v w xs = (case address_swap (xs ! v) (xs ! w) of (x, y) \<Rightarrow> xs[v := x, w := y])"

definition move_assign :: "nat \<Rightarrow> nat \<Rightarrow> address list \<Rightarrow> address list" where
  "move_assign v w xs = (if v \<noteq> w then swap_at v w xs else xs)"

definition copy_assign :: "nat \<Rightarrow> nat \<Rightarrow> address list \<Rightarrow> address list" where
  "copy_assign v w xs =
     (if v \<noteq> w then butlast (swap_at v (length xs) (xs @ [address_copy (xs ! w)])) else xs)"

text \<open>The temporary is an extra variable at the end, gone after the assignment.\<close>

definition assign_temporary :: "nat \<Rightarrow> address \<Rightarrow> address list \<Rightarrow> address list" where
  "assign_temporary v tmp xs = butlast (move_assign v (length xs) (xs @ [tmp]))"

text \<open>\<open>res t p\<close> is what \<open>resource()\<close> of the type \<open>t\<close> answers on the actor \<open>p\<close>.\<close>

fun address_run :: "(nat \<Rightarrow> nat \<Rightarrow> nat option) \<Rightarrow> address_op \<Rightarrow> address list \<Rightarrow> address list outcome" where
  "address_run res (A_new t p) xs = map_sum id (\<lambda>a. xs @ [a]) (address_new (res t p) t p)"
| "address_run res (A_new_copy w) xs = Inr (xs @ [address_copy (xs ! w)])"
| "address_run res (A_new_move w) xs = Inr (case address_move (xs ! w) of (x, y) \<Rightarrow> xs[w := y] @ [x])"
| "address_run res A_new_empty xs = Inr (xs @ [empty_address])"
| "address_run res (A_actor v t p) xs = map_sum id (\<lambda>a. assign_temporary v a xs) (address_new (res t p) t p)"
| "address_run res (A_assign v w) xs = Inr (copy_assign v w xs)"
| "address_run res (A_move v w) xs = Inr (move_assign v w xs)"
| "address_run res (A_swap v w) xs = Inr (swap_at v w xs)"
| "address_run res (A_empty v) xs = Inr (assign_temporary v empty_address xs)"
| "address_run res (A_destroy v) xs = Inr (xs[v := address_destroy (xs ! v)])"

fun address_runs :: "(nat \<Rightarrow> nat \<Rightarrow> nat option) \<Rightarrow> address_op list \<Rightarrow> address list \<Rightarrow> address list outcome" where
  "address_runs res [] xs = Inr xs"
| "address_runs res (op # ops) xs =
     (case address_run res op xs of Inl f \<Rightarrow> Inl f | Inr ys \<Rightarrow> address_runs res ops ys)"

text \<open>The operation names variables that exist, and actors that are not null; what it adds.\<close>

fun address_op_ok :: "nat \<Rightarrow> address_op \<Rightarrow> bool" where
  "address_op_ok n (A_new t p) \<longleftrightarrow> p \<noteq> 0"
| "address_op_ok n (A_new_copy w) \<longleftrightarrow> w < n"
| "address_op_ok n (A_new_move w) \<longleftrightarrow> w < n"
| "address_op_ok n A_new_empty \<longleftrightarrow> True"
| "address_op_ok n (A_actor v t p) \<longleftrightarrow> v < n \<and> p \<noteq> 0"
| "address_op_ok n (A_assign v w) \<longleftrightarrow> v < n \<and> w < n"
| "address_op_ok n (A_move v w) \<longleftrightarrow> v < n \<and> w < n"
| "address_op_ok n (A_swap v w) \<longleftrightarrow> v < n \<and> w < n"
| "address_op_ok n (A_empty v) \<longleftrightarrow> v < n"
| "address_op_ok n (A_destroy v) \<longleftrightarrow> v < n"

fun adds_variable :: "address_op \<Rightarrow> bool" where
  "adds_variable (A_new t p) \<longleftrightarrow> True"
| "adds_variable (A_new_copy w) \<longleftrightarrow> True"
| "adds_variable (A_new_move w) \<longleftrightarrow> True"
| "adds_variable A_new_empty \<longleftrightarrow> True"
| "adds_variable _ \<longleftrightarrow> False"

fun address_ops_ok :: "nat \<Rightarrow> address_op list \<Rightarrow> bool" where
  "address_ops_ok n [] \<longleftrightarrow> True"
| "address_ops_ok n (op # ops) \<longleftrightarrow>
     address_op_ok n op \<and> address_ops_ok (if adds_variable op then n + 1 else n) ops"

section \<open>An address leads to its actor\<close>

text \<open>
  What a variable stands for: nothing, or an actor as an object of the type it was named with. The same
  program on such values.
\<close>

definition address_value :: "address \<Rightarrow> (nat \<times> nat) option" where
  "address_value a = (if address_bool a then Some (the (a_fn a), a_ptr a) else None)"

fun value_run :: "address_op \<Rightarrow> (nat \<times> nat) option list \<Rightarrow> (nat \<times> nat) option list" where
  "value_run (A_new t p) vs = vs @ [Some (t, p)]"
| "value_run (A_new_copy w) vs = vs @ [vs ! w]"
| "value_run (A_new_move w) vs = vs[w := None] @ [vs ! w]"
| "value_run A_new_empty vs = vs @ [None]"
| "value_run (A_actor v t p) vs = vs[v := Some (t, p)]"
| "value_run (A_assign v w) vs = vs[v := vs ! w]"
| "value_run (A_move v w) vs = vs[v := vs ! w, w := vs ! v]"
| "value_run (A_swap v w) vs = vs[v := vs ! w, w := vs ! v]"
| "value_run (A_empty v) vs = vs[v := None]"
| "value_run (A_destroy v) vs = vs[v := None]"

fun value_runs :: "address_op list \<Rightarrow> (nat \<times> nat) option list \<Rightarrow> (nat \<times> nat) option list" where
  "value_runs [] vs = vs"
| "value_runs (op # ops) vs = value_runs ops (value_run op vs)"

definition genuine :: "(nat \<Rightarrow> nat \<Rightarrow> nat option) \<Rightarrow> address \<Rightarrow> bool" where
  "genuine res a \<longleftrightarrow>
     (address_bool a \<longrightarrow> (case a_fn a of None \<Rightarrow> False | Some t \<Rightarrow> a_resource a = res t (a_ptr a)))"

lemma address_copy_id [simp]: "address_copy a = a"
  by (simp add: address_copy_def)

lemma address_swap_pair [simp]: "address_swap a b = (b, a)"
  by (simp add: address_swap_def)

lemma swap_at_updates [simp]: "swap_at v w xs = xs[v := xs ! w, w := xs ! v]"
  by (simp add: swap_at_def)

lemma assign_temporary_update: "v < length xs \<Longrightarrow> assign_temporary v a xs = xs[v := a]"
  by (simp add: assign_temporary_def move_assign_def nth_append list_update_append butlast_append)

lemma copy_assign_update: "v < length xs \<Longrightarrow> w < length xs \<Longrightarrow> copy_assign v w xs = xs[v := xs ! w]"
  by (auto simp: copy_assign_def nth_append list_update_append butlast_append)

lemma move_assign_update: "v < length xs \<Longrightarrow> w < length xs \<Longrightarrow> move_assign v w xs = xs[v := xs ! w, w := xs ! v]"
  by (simp add: move_assign_def)

lemma genuine_update: "list_all (genuine res) xs \<Longrightarrow> genuine res a \<Longrightarrow> list_all (genuine res) (xs[v := a])"
  by (auto simp: list_all_iff dest!: set_update_subset_insert [THEN subsetD])

lemma address_run_genuine:
  assumes "address_op_ok (length xs) op" and "list_all (genuine res) xs"
  shows "\<exists>ys. address_run res op xs = Inr ys \<and> list_all (genuine res) ys \<and>
    map address_value ys = value_run op (map address_value xs) \<and>
    length ys = (if adds_variable op then length xs + 1 else length xs)"
proof -
  have nil: "genuine res address_null" "genuine res empty_address" "genuine res (address_destroy a)"
    "address_value address_null = None" "address_value empty_address = None" "address_value (address_destroy a) = None" for a
    by (simp_all add: genuine_def address_null_def address_bool_def empty_address_def address_destroy_def address_value_def)
  have new: "\<exists>a. address_new (res t p) t p = Inr a \<and> genuine res a \<and> address_value a = Some (t, p)" if "p \<noteq> 0" for t p
    using that by (simp add: address_new_def safe_cast_ptr_def genuine_def address_value_def address_bool_def)
  have at: "genuine res (xs ! w)" if "w < length xs" for w using assms(2) that by (simp add: list_all_length)
  show ?thesis
  proof (cases op)
    case (A_new t p)
    then show ?thesis using assms new [of p t] by auto
  next
    case (A_actor v t p)
    then show ?thesis
      using assms new [of p t] genuine_update [OF assms(2)] by (auto simp: assign_temporary_update map_update)
  next
    case (A_empty v)
    then show ?thesis
      using assms nil genuine_update [OF assms(2) nil(2)] by (auto simp: assign_temporary_update map_update)
  next
    case (A_assign v w)
    then show ?thesis
      using assms genuine_update [OF assms(2) at] by (auto simp: copy_assign_update map_update)
  next
    case (A_move v w)
    then show ?thesis
      using assms genuine_update [OF genuine_update [OF assms(2) at] at] by (auto simp: move_assign_update map_update)
  next
    case (A_swap v w)
    then show ?thesis
      using assms genuine_update [OF genuine_update [OF assms(2) at] at] by (auto simp: map_update)
  next
    case (A_new_move w)
    then show ?thesis
      using assms nil genuine_update [OF assms(2) nil(1)] at by (auto simp: address_move_def map_update)
  next
    case (A_destroy v)
    then show ?thesis using nil genuine_update [OF assms(2) nil(3)] by (simp add: map_update)
  qed (use assms nil at in auto)
qed

lemma address_runs_genuine:
  assumes "address_ops_ok (length xs) ops" and "list_all (genuine res) xs"
  shows "\<exists>ys. address_runs res ops xs = Inr ys \<and> list_all (genuine res) ys \<and>
    map address_value ys = value_runs ops (map address_value xs)"
  using assms
proof (induction ops arbitrary: xs)
  case (Cons op ops)
  obtain ys where ys: "address_run res op xs = Inr ys" "list_all (genuine res) ys"
    "map address_value ys = value_run op (map address_value xs)"
    "length ys = (if adds_variable op then length xs + 1 else length xs)"
    using address_run_genuine [of xs op res] Cons.prems by auto
  then have "address_ops_ok (length ys) ops" using Cons.prems(1) by simp
  from Cons.IH [OF this ys(2)] ys show ?case by simp
qed simp

section \<open>Sending to an address\<close>

text \<open>
  The second search for the method and the second way to build a message, for a target whose type
  is erased. \<open>enq\<close> is what \<open>enqueue_impl\<close> of an actor type answers on an actor.
\<close>

fun dispatch_one_impl_address ::
  "bool \<Rightarrow> method_ptr \<Rightarrow> method_ptr list \<Rightarrow> nat \<Rightarrow> send_fault + method_ptr \<times> nat" where
  "dispatch_one_impl_address nd m [] i = Inl (Stopped (if nd then Aborted else Assertion_failed))"
| "dispatch_one_impl_address nd m (x # xs) i =
     (if method_type m = method_type x \<and> m = x then Inr (x, i) else dispatch_one_impl_address nd m xs (Suc i))"

definition dispatch_method_impl_address ::
  "64 word \<Rightarrow> 64 word \<Rightarrow> nat \<Rightarrow> address \<Rightarrow> 'v argument list \<Rightarrow> resources \<Rightarrow> (nat \<Rightarrow> nat \<Rightarrow> bool \<times> enqueue_result)
    \<Rightarrow> 'v world \<Rightarrow> send_fault + (bool \<times> unique_future) \<times> (64 word \<times> message) option \<times> 'v world" where
  "dispatch_method_impl_address al sz action_id target args sv enq w =
     (let cmd = make_message_id Normal (of_nat action_id) in
      case make_any_message al sz (a_resource target) (Id_name cmd) args sv w of
        Inl (f, _) \<Rightarrow> Inl (In_message f)
      | Inr ((p, m), future, w1) \<Rightarrow>
          (case address_enqueue (\<lambda>type actor _. enq type actor) target (p, m) of
             Inl f \<Rightarrow> Inl (Stopped f)
           | Inr (needs_sched, r) \<Rightarrow>
               if r = Queue_closed
               then (case delete_message al p m w1 of
                       Inl f \<Rightarrow> Inl (In_message f)
                     | Inr w2 \<Rightarrow> Inr ((needs_sched, future), None, w2))
               else Inr ((needs_sched, future), Some (p, m), w1)))"

definition send_compiles ::
  "type_facts \<Rightarrow> (nat \<Rightarrow> nat \<Rightarrow> bool) \<Rightarrow> method_ptr list \<Rightarrow> method_ptr \<Rightarrow> 'v argument list \<Rightarrow> bool" where
  "send_compiles tf base_of methods method args \<longleftrightarrow>
     dispatch_traits_ok tf methods \<and>
     validate_method_for_send base_of methods (method_type method) (class_type (method_type method)) \<and>
     validate_send_args tf (method_type method) (map raw_type args)"

text \<open>A method of an interface.\<close>

definition send_address ::
  "type_facts \<Rightarrow> (nat \<Rightarrow> nat \<Rightarrow> bool) \<Rightarrow> bool \<Rightarrow> method_ptr list \<Rightarrow> method_ptr \<Rightarrow> 64 word \<Rightarrow> 64 word \<Rightarrow> address
    \<Rightarrow> 'v argument list \<Rightarrow> resources \<Rightarrow> (nat \<Rightarrow> nat \<Rightarrow> bool \<times> enqueue_result) \<Rightarrow> 'v world
    \<Rightarrow> send_fault + (bool \<times> unique_future) \<times> (64 word \<times> message) option \<times> 'v world" where
  "send_address tf base_of nd methods method al sz target args sv enq w =
     (if \<not> send_compiles tf base_of methods method args then Inl Does_not_compile
      else if \<not> address_bool target \<and> \<not> nd then Inl (Stopped Assertion_failed)
      else case dispatch_one_impl_address nd method methods 0 of
             Inl f \<Rightarrow> Inl f
           | Inr (_, action_id) \<Rightarrow> dispatch_method_impl_address al sz action_id target args sv enq w)"

text \<open>
  A method of an actor class: the pointer in the address is cast to the class, which is an error
  unless the object there, of type \<open>type_at p\<close>, is of it; what follows is that class's.
\<close>

definition send_address_actor ::
  "type_facts \<Rightarrow> (nat \<Rightarrow> nat \<Rightarrow> bool) \<Rightarrow> bool \<Rightarrow> method_ptr list \<Rightarrow> method_ptr \<Rightarrow> 64 word \<Rightarrow> 64 word
    \<Rightarrow> (nat \<Rightarrow> nat \<Rightarrow> nat option) \<Rightarrow> (nat \<Rightarrow> nat) \<Rightarrow> address \<Rightarrow> 'v argument list \<Rightarrow> resources
    \<Rightarrow> (nat \<Rightarrow> nat \<Rightarrow> bool \<times> enqueue_result) \<Rightarrow> 'v world
    \<Rightarrow> send_fault + (bool \<times> unique_future) \<times> (64 word \<times> message) option \<times> 'v world" where
  "send_address_actor tf base_of nd methods method al sz res type_at target args sv enq w =
     (if \<not> send_compiles tf base_of methods method args then Inl Does_not_compile
      else if \<not> address_bool target then Inl (Stopped (if nd then Terminated else Assertion_failed))
      else let class = class_type (method_type method); p = a_ptr target in
        if type_at p = class \<or> base_of class (type_at p)
        then send tf base_of nd methods method al sz (res class p) args sv (enq class p) w
        else Inl (Stopped Terminated))"

lemma dispatch_one_impl_address_same [simp]: "dispatch_one_impl_address nd m ms i = dispatch_one_impl nd m ms i"
  by (induction ms arbitrary: i) auto

lemma send_address_reaches:
  assumes "address_value target = Some (t, p)" and "genuine res target"
  shows "send_address tf base_of nd methods method al sz target args sv enq w =
    send tf base_of nd methods method al sz (res t p) args sv (enq t p) w"
proof -
  have t: "address_bool target" "a_fn target = Some t" "a_ptr target = p" "a_resource target = res t p"
    using assms by (auto simp: genuine_def address_value_def split: option.splits if_splits)
  show ?thesis
    using t(1) by (simp add: send_address_def send_def send_compiles_def dispatch_method_impl_address_def
        dispatch_method_impl_def address_enqueue_def t Let_def split: sum.splits prod.splits)
qed

section \<open>Actor identities\<close>

text \<open>The pointer in an \<open>id_t\<close>; pointers compare as their addresses.\<close>

datatype actor_id = Actor_id (impl: nat)

definition id_eq :: "actor_id \<Rightarrow> actor_id \<Rightarrow> bool" where
  "id_eq x y \<longleftrightarrow> impl x = impl y"

definition id_less :: "actor_id \<Rightarrow> actor_id \<Rightarrow> bool" where
  "id_less x y \<longleftrightarrow> impl x < impl y"

definition id_greater :: "actor_id \<Rightarrow> actor_id \<Rightarrow> bool" where
  "id_greater x y \<longleftrightarrow> impl y < impl x"

definition id_less_eq :: "actor_id \<Rightarrow> actor_id \<Rightarrow> bool" where
  "id_less_eq x y \<longleftrightarrow> \<not> id_greater x y"

definition id_greater_eq :: "actor_id \<Rightarrow> actor_id \<Rightarrow> bool" where
  "id_greater_eq x y \<longleftrightarrow> \<not> id_less x y"

definition id_bool :: "actor_id \<Rightarrow> bool" where
  "id_bool x \<longleftrightarrow> impl x \<noteq> 0"

text \<open>The six operators are those of one linear order.\<close>

instantiation actor_id :: linorder
begin

definition less_actor_id :: "actor_id \<Rightarrow> actor_id \<Rightarrow> bool" where
  "less_actor_id = id_less"

definition less_eq_actor_id :: "actor_id \<Rightarrow> actor_id \<Rightarrow> bool" where
  "less_eq_actor_id = id_less_eq"

instance
  by standard
    (auto simp: less_actor_id_def less_eq_actor_id_def id_less_def id_less_eq_def id_greater_def actor_id.expand)

end

lemma id_operators:
  "id_eq x y \<longleftrightarrow> x = y" "id_less x y \<longleftrightarrow> x < y" "id_greater x y \<longleftrightarrow> x > y"
  "id_less_eq x y \<longleftrightarrow> x \<le> y" "id_greater_eq x y \<longleftrightarrow> x \<ge> y"
  by (auto simp: id_eq_def less_actor_id_def less_eq_actor_id_def id_less_eq_def id_greater_eq_def
      id_greater_def id_less_def actor_id.expand)

section \<open>The storage of actors\<close>

text \<open>
  A class with the type of its complete objects and, from nearest to root, its base classes. An
  object has one part per class; \<open>parts\<close> gives those alive at an address, the most derived first.
\<close>

record actor_class =
  c_own :: cpp_type
  c_bases :: "cpp_type list"

definition class_parts :: "actor_class \<Rightarrow> nat list" where
  "class_parts c = ty_id (c_own c) # map ty_id (c_bases c)"

record actor_memory =
  owned :: "(nat \<times> 64 word \<times> 64 word \<times> 64 word) list"
  parts :: "64 word \<Rightarrow> nat list"
  ended :: "(64 word \<times> nat) list"

datatype alloc_fault = Null_target | No_memory | Constructor_threw | Wrong_block

text \<open>\<open>actor_mixin\<close>'s placement new.\<close>

definition placement_new :: "64 word \<Rightarrow> 64 word" where
  "placement_new p = p"

text \<open>What \<open>allocate\<close> returns (\<open>None\<close>: it throws) and whether the constructor throws are arguments.\<close>

definition allocate_ptr ::
  "actor_class \<Rightarrow> nat option \<Rightarrow> 64 word option \<Rightarrow> bool \<Rightarrow> actor_memory
    \<Rightarrow> alloc_fault \<times> actor_memory + 64 word \<times> actor_memory" where
  "allocate_ptr c resource buffer throws m =
     (case resource of None \<Rightarrow> Inl (Null_target, m) | Some r \<Rightarrow>
      (case buffer of None \<Rightarrow> Inl (No_memory, m) | Some b \<Rightarrow>
       (let m1 = m\<lparr>owned := (r, b, ty_size (c_own c), ty_align (c_own c)) # owned m\<rparr>
        in if throws then Inl (Constructor_threw, m1)
           else Inr (placement_new b, m1\<lparr>parts := (parts m1)(b := class_parts c)\<rparr>))))"

text \<open>
  \<open>target->~Target()\<close> ends the parts of the static type's object; those of classes derived from
  it are not touched, as no destructor is virtual.
\<close>

definition destroy_target :: "actor_class \<Rightarrow> 64 word \<Rightarrow> actor_memory \<Rightarrow> actor_memory" where
  "destroy_target c p m =
     m\<lparr>parts := (parts m)(p := take (length (parts m p) - length (class_parts c)) (parts m p)),
       ended := ended m @ map (Pair p) (class_parts c)\<rparr>"

definition deallocate_ptr :: "actor_class \<Rightarrow> nat option \<Rightarrow> 64 word \<Rightarrow> actor_memory \<Rightarrow> alloc_fault + actor_memory" where
  "deallocate_ptr c resource target m =
     (case resource of None \<Rightarrow> Inl Null_target | Some r \<Rightarrow>
      if target = 0 then Inl Null_target
      else
        let m1 = destroy_target c target m;
            blk = (r, target, ty_size (c_own c), ty_align (c_own c))
        in if blk \<in> set (owned m1) then Inr (m1\<lparr>owned := remove1 blk (owned m1)\<rparr>) else Inl Wrong_block)"

text \<open>\<open>deleter_t\<close> is its resource; \<open>unique_ptr\<close> calls it unless its pointer is null.\<close>

definition deleter_new :: "nat option \<Rightarrow> nat option outcome" where
  "deleter_new resource = (case resource of None \<Rightarrow> Inl Assertion_failed | Some r \<Rightarrow> Inr (Some r))"

definition deleter_call :: "actor_class \<Rightarrow> nat option \<Rightarrow> 64 word \<Rightarrow> actor_memory \<Rightarrow> alloc_fault + actor_memory" where
  "deleter_call c resource target m =
     (if target = 0 then Inl Null_target
      else if resource = None then Inl Null_target
      else deallocate_ptr c resource target m)"

record actor_owner =
  o_ptr :: "64 word"
  o_deleter :: "nat option"

definition owner_reset :: "actor_class \<Rightarrow> actor_owner \<Rightarrow> actor_memory \<Rightarrow> alloc_fault + actor_memory" where
  "owner_reset c ow m = (if o_ptr ow \<noteq> 0 then deleter_call c (o_deleter ow) (o_ptr ow) m else Inr m)"

text \<open>\<open>spawn\<close> is \<open>noexcept\<close>: a throw ends the program.\<close>

definition spawn ::
  "actor_class \<Rightarrow> nat option \<Rightarrow> 64 word option \<Rightarrow> bool \<Rightarrow> actor_memory \<Rightarrow> (actor_owner \<times> actor_memory) outcome" where
  "spawn c resource buffer throws m =
     (case allocate_ptr c resource buffer throws m of
        Inl (Null_target, _) \<Rightarrow> Inl Assertion_failed
      | Inl _ \<Rightarrow> Inl Terminated
      | Inr (target_ptr, m1) \<Rightarrow>
          (case deleter_new resource of
             Inl f \<Rightarrow> Inl f
           | Inr d \<Rightarrow> Inr (\<lparr>o_ptr = target_ptr, o_deleter = d\<rparr>, m1)))"

text \<open>
  A base as a class of its own. \<open>cooperative_actor::unique_actor\<close> is a \<open>unique_ptr\<close> to that base
  with the same deleter type, and the owner of an actor converts to it.
\<close>

definition base_class :: "nat \<Rightarrow> actor_class \<Rightarrow> actor_class" where
  "base_class k c = \<lparr>c_own = c_bases c ! k, c_bases = drop (Suc k) (c_bases c)\<rparr>"

lemma spawn_cases:
  assumes "spawn c resource buffer throws m = Inr (ow, m')"
  obtains r where "resource = Some r" and "buffer = Some (o_ptr ow)" and "o_deleter ow = Some r" and "\<not> throws"
    and "m' = m\<lparr>owned := (r, o_ptr ow, ty_size (c_own c), ty_align (c_own c)) # owned m,
      parts := (parts m)(o_ptr ow := class_parts c)\<rparr>"
  using assms
  by (auto simp: spawn_def allocate_ptr_def placement_new_def deleter_new_def Let_def
      split: option.splits sum.splits if_splits alloc_fault.splits)

lemma base_parts: "k < length (c_bases c) \<Longrightarrow> class_parts (base_class k c) = drop (Suc k) (class_parts c)"
  by (simp add: class_parts_def base_class_def drop_map Cons_nth_drop_Suc flip: list.map(2))

section \<open>Properties\<close>

lemma outcome_the: "\<exists>ys. r = Inr ys \<and> Q ys \<Longrightarrow> r = Inr xs \<Longrightarrow> Q xs"
  by auto

text \<open>C39: An address leads to its actor. However a program makes, copies, moves, swaps, empties and
  destroys its addresses, every variable stands for the actor, and the type it was named with, that the
  program's assignments give it, or is empty: sending through one that is not calls that type's
  \<open>enqueue_impl\<close> on that actor, and sending an interface's method does what sending to the actor itself does.
  Two such addresses compare equal if they point to the same actor, and are then the same in every field
  exactly if it was named with the same type.\<close>

theorem addresses_genuine:
  assumes "address_ops_ok 0 ops"
  shows "\<exists>xs. address_runs res ops [] = Inr xs \<and> map address_value xs = value_runs ops [] \<and>
    (\<forall>a \<in> set xs. \<forall>t p. address_value a = Some (t, p) \<longrightarrow>
       address_enqueue call a msg = Inr (call t p msg) \<and>
       send_address tf base_of nd methods method al sz a args sv enq w =
         send tf base_of nd methods method al sz (res t p) args sv (enq t p) w \<and>
       (\<forall>b \<in> set xs. \<forall>u q. address_value b = Some (u, q) \<longrightarrow>
          (address_eq a b \<longleftrightarrow> p = q) \<and> (a = b \<longleftrightarrow> p = q \<and> t = u)))"
proof -
  obtain xs where run: "address_runs res ops [] = Inr xs" and g: "\<And>a. a \<in> set xs \<Longrightarrow> genuine res a"
    and v: "map address_value xs = value_runs ops []"
    using address_runs_genuine [of "[]" ops res] assms by (auto simp: list_all_iff)
  have val: "a = \<lparr>a_resource = res t p, a_ptr = p, a_fn = Some t\<rparr>" if "a \<in> set xs" "address_value a = Some (t, p)" for a t p
    using g [OF that(1)] that(2) by (cases a) (auto simp: genuine_def address_value_def split: option.splits if_splits)
  show ?thesis
  proof (intro exI [of _ xs] conjI ballI allI impI run v)
    fix a t p assume a: "a \<in> set xs" "address_value a = Some (t, p)"
    show "address_enqueue call a msg = Inr (call t p msg)" by (subst val [OF a]) (simp add: address_enqueue_def)
    show "send_address tf base_of nd methods method al sz a args sv enq w =
        send tf base_of nd methods method al sz (res t p) args sv (enq t p) w"
      by (rule send_address_reaches [OF a(2) g [OF a(1)]])
    fix b u q assume b: "b \<in> set xs" "address_value b = Some (u, q)"
    show "address_eq a b \<longleftrightarrow> p = q" by (subst val [OF a], subst val [OF b]) (simp add: address_eq_def)
    show "a = b \<longleftrightarrow> p = q \<and> t = u" by (subst val [OF a], subst val [OF b]) auto
  qed
qed

text \<open>The actor 8 named as an object of its own type and of a base.\<close>

theorem addresses_genuine_witness:
  "address_runs (\<lambda>t p. Some 0) [A_new 107 7, A_new 108 8, A_new_empty, A_move 2 0, A_assign 0 1, A_new 100 8] [] =
     Inr [\<lparr>a_resource = Some 0, a_ptr = 8, a_fn = Some 108\<rparr>, \<lparr>a_resource = Some 0, a_ptr = 8, a_fn = Some 108\<rparr>,
          \<lparr>a_resource = Some 0, a_ptr = 7, a_fn = Some 107\<rparr>, \<lparr>a_resource = Some 0, a_ptr = 8, a_fn = Some 100\<rparr>] \<and>
   send_address sample_facts (\<lambda>_ _. False) False [double_method] double_method 8 104
       \<lparr>a_resource = Some 0, a_ptr = 8, a_fn = Some 108\<rparr> [plain_arg int_type 7] sample_resources
       (\<lambda>type actor. (type = 108 \<and> actor = 8, Success)) empty_world =
     send sample_facts (\<lambda>_ _. False) False [double_method] double_method 8 104 (Some 0) [plain_arg int_type 7]
       sample_resources (True, Success) empty_world"
proof -
  let ?ops = "[A_new 107 7, A_new 108 8, A_new_empty, A_move 2 0, A_assign 0 1, A_new 100 8]"
  let ?a = "\<lparr>a_resource = Some 0, a_ptr = 8, a_fn = Some 108\<rparr>"
  let ?xs = "[?a, ?a, \<lparr>a_resource = Some 0, a_ptr = 7, a_fn = Some 107\<rparr>, \<lparr>a_resource = Some 0, a_ptr = 8, a_fn = Some 100\<rparr>]"
  let ?res = "\<lambda>t p. Some 0" and ?enq = "\<lambda>type actor. (type = 108 \<and> actor = 8, Success)"
  have r: "address_runs ?res ?ops [] = Inr ?xs"
    by (simp add: address_new_def safe_cast_ptr_def empty_address_def address_null_def move_assign_def
        copy_assign_def)
  have ok: "address_ops_ok 0 ?ops" by simp
  let ?send = "send sample_facts (\<lambda>_ _. False) False [double_method] double_method 8 104"
  note Q = outcome_the [OF addresses_genuine [OF ok, of ?res "\<lambda>_ _ _. ()" "()" sample_facts "\<lambda>_ _. False" False
    "[double_method]" double_method 8 104 "[plain_arg int_type 7]" sample_resources ?enq empty_world] r]
  have a: "?a \<in> set ?xs" "address_value ?a = Some (108, 8)" by (simp_all add: address_value_def address_bool_def)
  have "send_address sample_facts (\<lambda>_ _. False) False [double_method] double_method 8 104 ?a [plain_arg int_type 7]
      sample_resources ?enq empty_world = ?send (Some 0) [plain_arg int_type 7] sample_resources (True, Success) empty_world"
    using conjunct2 [OF Q] a by simp
  with r show ?thesis by simp
qed

text \<open>C40: Owning a spawned actor. Destroying it through the owner \<open>spawn\<close> returned ends every part of the
  object, the most derived first, and gives exactly its block back to its resource. Through an owner of one
  of its bases, which \<open>unique_actor\<close> is and the owner converts to, the parts below the base stay alive, and
  unless the base has the actor's own size and alignment a block is freed that was never allocated.\<close>

theorem spawn_ownership:
  assumes "spawn c resource buffer throws m = Inr (ow, m')" and "o_ptr ow \<noteq> 0"
    and "\<forall>b \<in> set (owned m). fst (snd b) \<noteq> o_ptr ow"
  shows "(\<exists>m''. owner_reset c ow m' = Inr m'' \<and> owned m'' = owned m \<and> parts m'' (o_ptr ow) = [] \<and>
      ended m'' = ended m @ map (Pair (o_ptr ow)) (class_parts c)) \<and>
    (\<forall>k < length (c_bases c).
      parts (destroy_target (base_class k c) (o_ptr ow) m') (o_ptr ow) = take (Suc k) (class_parts c) \<and>
      (ty_size (c_bases c ! k) \<noteq> ty_size (c_own c) \<or> ty_align (c_bases c ! k) \<noteq> ty_align (c_own c) \<longrightarrow>
        owner_reset (base_class k c) ow m' = Inl Wrong_block))"
proof -
  obtain r where r: "o_deleter ow = Some r" and m': "m' = m\<lparr>owned := (r, o_ptr ow, ty_size (c_own c), ty_align (c_own c)) # owned m,
      parts := (parts m)(o_ptr ow := class_parts c)\<rparr>"
    by (rule spawn_cases [OF assms(1)])
  note defs = m' owner_reset_def deleter_call_def deallocate_ptr_def destroy_target_def Let_def
  have "\<exists>m''. owner_reset c ow m' = Inr m'' \<and> owned m'' = owned m \<and> parts m'' (o_ptr ow) = [] \<and>
      ended m'' = ended m @ map (Pair (o_ptr ow)) (class_parts c)"
    using assms(2) r by (simp add: defs)
  moreover have "parts (destroy_target (base_class k c) (o_ptr ow) m') (o_ptr ow) = take (Suc k) (class_parts c) \<and>
      (ty_size (c_bases c ! k) \<noteq> ty_size (c_own c) \<or> ty_align (c_bases c ! k) \<noteq> ty_align (c_own c) \<longrightarrow>
        owner_reset (base_class k c) ow m' = Inl Wrong_block)" if "k < length (c_bases c)" for k
    using that assms(2,3) r by (auto simp: defs base_parts base_class_def class_parts_def)
  ultimately show ?thesis by blast
qed

text \<open>An actor of 640 bytes on a base of 512.\<close>

definition demo_class :: actor_class where
  "demo_class = \<lparr>c_own = \<lparr>ty_id = 2, ty_align = 8, ty_size = 640\<rparr>, c_bases = [\<lparr>ty_id = 1, ty_align = 8, ty_size = 512\<rparr>]\<rparr>"

definition demo_memory :: actor_memory where
  "demo_memory = \<lparr>owned = [], parts = (\<lambda>_. []), ended = []\<rparr>"

theorem spawn_ownership_witness:
  "\<exists>ow m'. spawn demo_class (Some 3) (Some 4096) False demo_memory = Inr (ow, m') \<and>
    owner_reset (base_class 0 demo_class) ow m' = Inl Wrong_block"
proof -
  obtain ow m' where s: "spawn demo_class (Some 3) (Some 4096) False demo_memory = Inr (ow, m')" "o_ptr ow = 4096"
    by (simp add: spawn_def allocate_ptr_def placement_new_def deleter_new_def Let_def)
  from conjunct2 [OF spawn_ownership [OF s(1)]] s(2) have "owner_reset (base_class 0 demo_class) ow m' = Inl Wrong_block"
    by (simp add: demo_memory_def demo_class_def)
  with s(1) show ?thesis by blast
qed

end
