(* ===== verification/Teardown.thy ===== *)
theory Teardown
  imports Default_Mailbox Messages
begin

text \<open>
  The end of an actor's mailbox with messages in it: \<open>~default_mailbox_impl\<close> and \<open>close_impl\<close>
  (\<open>impl/mailbox/default_mailbox.ipp\<close>) on the pointer structures, with the \<open>message_deleter\<close> and
  the destructor of each message (\<open>mailbox/message.hpp\<close>) that they call on what they find. A queued
  node is a message: \<open>addr\<close> gives its address as the resource sees it and \<open>msg\<close> the message.
\<close>

section \<open>Deleting messages in a row\<close>

fun delete_all :: "64 word \<Rightarrow> (64 word \<times> message) list \<Rightarrow> 'v world \<Rightarrow> msg_fault + 'v world" where
  "delete_all al [] w = Inr w"
| "delete_all al ((p, m) # xs) w =
     (case delete_message al p m w of Inl f \<Rightarrow> Inl f | Inr w1 \<Rightarrow> delete_all al xs w1)"

text \<open>The messages freed by the call, in the order \<open>bounce_and_count\<close> sees them, are deleted as it does.\<close>

definition close_mailbox ::
  "64 word \<Rightarrow> (nat \<Rightarrow> 64 word) \<Rightarrow> (nat \<Rightarrow> message) \<Rightarrow> mb_state \<Rightarrow> 'v world
    \<Rightarrow> (msg_fault + nat \<times> mb_state \<times> 'v world) option" where
  "close_mailbox al addr msg bm w =
     map_option (\<lambda>(k, bm').
       map_sum id (\<lambda>w'. (k, bm', w'))
         (delete_all al (map (\<lambda>q. (addr q, msg q)) (drop (length (freed (snd bm))) (freed (snd bm')))) w))
       (mb_close_impl bm)"

definition mailbox_teardown ::
  "64 word \<Rightarrow> (nat \<Rightarrow> 64 word) \<Rightarrow> (nat \<Rightarrow> message) \<Rightarrow> mb_state \<Rightarrow> 'v world
    \<Rightarrow> (msg_fault + mb_state \<times> 'v world) option" where
  "mailbox_teardown al addr msg bm w =
     (if \<not> mb_closed_impl (fst bm) then map_option (map_sum id snd) (close_mailbox al addr msg bm w)
      else Some (Inr (bm, w)))"

section \<open>One message\<close>

text \<open>The block of a message, and of its arguments.\<close>

definition message_block :: "64 word \<Rightarrow> 64 word \<Rightarrow> 'v world \<Rightarrow> (nat \<times> 64 word \<times> 64 word \<times> 64 word) option" where
  "message_block al p w =
     Option.bind (headers (w_blocks w) (base_from_message al p)) (\<lambda>hdr.
       map_option (\<lambda>r. (r, base_from_message al p, hdr_size hdr, kAllocAlign al)) (hdr_resource hdr))"

definition body_size :: "rtt \<Rightarrow> size_t" where
  "body_size R = align_up (r_capacity R) alignof_objects_t + r_idx R * sizeof_objects_t"

definition body_blocks :: "rtt \<Rightarrow> (nat \<times> size_t \<times> size_t) list" where
  "body_blocks R = (if r_allocation R = 0 then [] else [(the (r_resource R), r_allocation R, body_size R)])"

text \<open>
  A message in the mailbox: if it owes an answer, the state has not freed itself; it holds its arguments,
  or was made without any; and its blocks are allocated.
\<close>

definition body_ok :: "rtt \<Rightarrow> 'v arena \<Rightarrow> (nat \<times> cpp_type \<times> 'v) list \<Rightarrow> bool" where
  "body_ok R A ys \<longleftrightarrow>
     (if r_allocation R = 0 then r_idx R = 0 \<and> ys = []
      else r_resource R \<noteq> None \<and> holds R A ys \<and> set (body_blocks R) \<subseteq> set (blocks A))"

definition pending :: "64 word \<Rightarrow> 'v world \<Rightarrow> 64 word \<Rightarrow> message \<Rightarrow> (nat \<times> cpp_type \<times> 'v) list \<Rightarrow> bool" where
  "pending al w p m ys \<longleftrightarrow> p \<noteq> 0 \<and> (owes m \<longrightarrow> unanswered (m_result_slot m) (w_heap w)) \<and>
     body_ok (m_body m) (w_arena w) ys \<and>
     (\<exists>blk. message_block al p w = Some blk \<and> blk \<in> set (allocated (w_blocks w)))"

text \<open>Two messages share nothing.\<close>

definition apart ::
  "64 word \<Rightarrow> 64 word \<Rightarrow> message \<Rightarrow> (nat \<times> cpp_type \<times> 'v) list \<Rightarrow> 64 word \<Rightarrow> message \<Rightarrow> (nat \<times> cpp_type \<times> 'v) list \<Rightarrow> bool" where
  "apart al p m ys p' m' ys' \<longleftrightarrow> (owes m \<and> owes m' \<longrightarrow> m_result_slot m \<noteq> m_result_slot m') \<and>
     base_from_message al p \<noteq> base_from_message al p' \<and>
     (r_allocation (m_body m) \<noteq> 0 \<longrightarrow> r_allocation (m_body m) \<noteq> r_allocation (m_body m') \<and>
        obj_addr (m_body m) ` set ys \<inter> obj_addr (m_body m') ` set ys' = {} \<and>
        (\<forall>i < length ys'. \<not> entry_addr (m_body m') i - r_allocation (m_body m) < body_size (m_body m)))"

lemma clear_table:
  assumes "rtt_clear R A = Inr (R', A')"
  shows "table A' q = (if r_allocation R \<noteq> 0 \<and> q - r_allocation R < body_size R then None else table A q)"
proof -
  have "clear_loop R n A = Inr A1 \<Longrightarrow> table A1 = table A" for n A1
    by (induction n arbitrary: A A1) (fastforce simp: destroy_def split: option.splits sum.splits if_splits prod.splits)+
  with assms show ?thesis
    by (auto simp: rtt_clear_def deallocate_block_def body_size_def Let_def split: sum.splits if_splits option.splits)
qed

definition take_back :: "message \<Rightarrow> 'v fheap \<Rightarrow> 'v fheap" where
  "take_back m h = (if owes m
     then h\<lparr>states := (states h)(m_result_slot m := Option.bind (states h (m_result_slot m)) cancelled)\<rparr> else h)"

lemma take_back_states:
  "states (take_back m h) =
     (if owes m then (states h)(m_result_slot m := Option.bind (states h (m_result_slot m)) cancelled) else states h)"
  by (simp add: take_back_def)

lemma clear_pending:
  assumes "body_ok R A ys"
  obtains A' where "rtt_clear R A = Inr (rtt_cleared R, A')"
    and "mset (blocks A) = mset (blocks A') + mset (body_blocks R)"
    and "objs A' = (\<lambda>q. if q \<in> obj_addr R ` set ys then None else objs A q)"
    and "\<forall>blk \<in> set (blocks A). r_allocation R \<noteq> 0 \<and> fst (snd blk) = r_allocation R \<or> blk \<in> set (blocks A')"
    and "table A' = (\<lambda>q. if r_allocation R \<noteq> 0 \<and> q - r_allocation R < body_size R then None else table A q)"
proof (cases "r_allocation R = 0")
  case True
  then have "rtt_clear R A = Inr (rtt_cleared R, A)" using assms by (simp add: body_ok_def rtt_clear_def)
  then show ?thesis using True assms by (intro that) (auto simp: body_ok_def body_blocks_def)
next
  case False
  then obtain r where r: "r_resource R = Some r" and b: "(r, r_allocation R, body_size R) \<in> set (blocks A)"
    and h: "holds R A ys"
    using assms by (auto simp: body_ok_def body_blocks_def)
  obtain A' where c: "rtt_clear R A = Inr (rtt_cleared R, A')"
    and bs: "blocks A' = remove1 (r, r_allocation R, body_size R) (blocks A)"
    and o: "objs A' = (\<lambda>q. if q \<in> obj_addr R ` set ys then None else objs A q)"
    using clear_holds [OF h False r] b by (auto simp: body_size_def)
  have "mset (blocks A) = mset (blocks A') + mset (body_blocks R)"
    using b False r by (simp add: bs body_blocks_def)
  moreover have "\<forall>blk \<in> set (blocks A). r_allocation R \<noteq> 0 \<and> fst (snd blk) = r_allocation R \<or> blk \<in> set (blocks A')"
    using False unfolding bs by (metis in_set_remove1 fst_conv snd_conv)
  ultimately show ?thesis using c o clear_table [OF c] by (intro that) auto
qed

lemma delete_pending:
  assumes "pending al w p m ys"
  obtains w' where "delete_message al p m w = Inr w'" and "w_heap w' = take_back m (w_heap w)"
    and "mset (blocks (w_arena w)) = mset (blocks (w_arena w')) + mset (body_blocks (m_body m))"
    and "mset (allocated (w_blocks w)) = mset (allocated (w_blocks w')) + {#the (message_block al p w)#}"
    and "\<And>p' m' ys'. pending al w p' m' ys' \<Longrightarrow> apart al p m ys p' m' ys' \<Longrightarrow>
      pending al w' p' m' ys' \<and> message_block al p' w' = message_block al p' w"
proof -
  have body: "body_ok (m_body m) (w_arena w) ys" and p: "p \<noteq> 0" using assms by (simp_all add: pending_def)
  obtain A where A: "rtt_clear (m_body m) (w_arena w) = Inr (rtt_cleared (m_body m), A)"
    and bl: "mset (blocks (w_arena w)) = mset (blocks A) + mset (body_blocks (m_body m))"
    and ob: "objs A = (\<lambda>q. if q \<in> obj_addr (m_body m) ` set ys then None else objs (w_arena w) q)"
    and other: "\<forall>blk \<in> set (blocks (w_arena w)).
      r_allocation (m_body m) \<noteq> 0 \<and> fst (snd blk) = r_allocation (m_body m) \<or> blk \<in> set (blocks A)"
    and tb: "table A = (\<lambda>q. if r_allocation (m_body m) \<noteq> 0 \<and> q - r_allocation (m_body m) < body_size (m_body m)
      then None else table (w_arena w) q)"
    by (rule clear_pending [OF body])
  have run: "run_cleanup m (w_heap w) = Inr (take_back m (w_heap w))"
  proof (cases "owes m")
    case True
    then obtain st where "states (w_heap w) (m_result_slot m) = Some st" "deallocations st = 0"
      using assms by (auto simp: pending_def unanswered_def)
    then show ?thesis using True by (simp add: run_cleanup_def cleanup_fn_cancels take_back_def)
  qed (simp add: run_cleanup_def take_back_def)
  obtain hdr r where hd: "headers (w_blocks w) (base_from_message al p) = Some hdr" "hdr_resource hdr = Some r"
    and mem: "(r, base_from_message al p, hdr_size hdr, kAllocAlign al) \<in> set (allocated (w_blocks w))"
    using assms by (auto simp: pending_def message_block_def split: bind_splits)
  let ?blk = "(r, base_from_message al p, hdr_size hdr, kAllocAlign al)"
  let ?bs = "(w_blocks w)\<lparr>allocated := remove1 ?blk (allocated (w_blocks w)),
    headers := (headers (w_blocks w))(base_from_message al p := None)\<rparr>"
  let ?w = "w\<lparr>w_heap := take_back m (w_heap w), w_arena := A, w_blocks := ?bs\<rparr>"
  have del: "delete_message al p m w = Inr ?w"
    using p hd mem by (simp add: delete_message_def message_destroy_def run A message_deleter_def block_deallocate_def)
  have own: "the (message_block al p w) = ?blk" using hd by (simp add: message_block_def)
  have frame: "pending al ?w p' m' ys' \<and> message_block al p' ?w = message_block al p' w"
    if P: "pending al w p' m' ys'" and ap: "apart al p m ys p' m' ys'" for p' m' ys'
  proof -
    have "base_from_message al p' \<noteq> base_from_message al p" using ap by (auto simp: apart_def)
    then have mb: "message_block al p' ?w = message_block al p' w" by (simp add: message_block_def)
    have tab: "table A (entry_addr (m_body m') i) = table (w_arena w) (entry_addr (m_body m') i)" if "i < length ys'" for i
      using tb ap that by (auto simp: apart_def)
    have ob': "objs A (obj_addr (m_body m') y) = objs (w_arena w) (obj_addr (m_body m') y)" if "y \<in> set ys'" for y
      using ap that body unfolding ob apart_def body_ok_def by (auto split: if_splits)
    have "holds (m_body m') (w_arena w) ys' \<Longrightarrow> holds (m_body m') A ys'"
      using tab ob' by (simp add: holds_def stored_def)
    moreover have "set (body_blocks (m_body m')) \<subseteq> set (blocks A)"
      if "set (body_blocks (m_body m')) \<subseteq> set (blocks (w_arena w))"
    proof
      fix blk assume blk: "blk \<in> set (body_blocks (m_body m'))"
      then have "fst (snd blk) = r_allocation (m_body m')" by (auto simp: body_blocks_def split: if_splits)
      then have "\<not> (r_allocation (m_body m) \<noteq> 0 \<and> fst (snd blk) = r_allocation (m_body m))"
        using ap by (auto simp: apart_def)
      then show "blk \<in> set (blocks A)" using other blk that by blast
    qed
    ultimately have "body_ok (m_body m') A ys'" using P by (simp add: pending_def body_ok_def split: if_splits)
    moreover have "owes m' \<longrightarrow> unanswered (m_result_slot m') (take_back m (w_heap w))"
      using P ap by (auto simp: pending_def unanswered_def take_back_def apart_def)
    moreover have "\<exists>blk. message_block al p' w = Some blk \<and> blk \<in> set (allocated ?bs)"
    proof -
      obtain b' where b': "message_block al p' w = Some b'" "b' \<in> set (allocated (w_blocks w))"
        using P by (auto simp: pending_def)
      then have "b' \<noteq> ?blk" using ap by (auto simp: message_block_def apart_def split: bind_splits)
      with b' show ?thesis by (simp add: in_set_remove1)
    qed
    ultimately show ?thesis using P mb by (simp add: pending_def)
  qed
  show ?thesis
    by (rule that [OF del]) (use bl own mem frame in simp_all)
qed

section \<open>All of them\<close>

lemma delete_all_pending:
  assumes "distinct qs" and "\<forall>q \<in> set qs. pending al w (addr q) (msg q) (items q)"
    and "\<forall>q \<in> set qs. \<forall>q' \<in> set qs. q \<noteq> q' \<longrightarrow> apart al (addr q) (msg q) (items q) (addr q') (msg q') (items q')"
  shows "\<exists>w'. delete_all al (map (\<lambda>q. (addr q, msg q)) qs) w = Inr w' \<and>
    w_heap w' = fold (\<lambda>q. take_back (msg q)) qs (w_heap w) \<and>
    mset (blocks (w_arena w)) = mset (blocks (w_arena w')) + mset (concat (map (\<lambda>q. body_blocks (m_body (msg q))) qs)) \<and>
    mset (allocated (w_blocks w)) = mset (allocated (w_blocks w')) + mset (map (\<lambda>q. the (message_block al (addr q) w)) qs)"
  using assms
proof (induction qs arbitrary: w)
  case (Cons q qs)
  have "pending al w (addr q) (msg q) (items q)" using Cons.prems(2) by simp
  then obtain w1 where d: "delete_message al (addr q) (msg q) w = Inr w1" "w_heap w1 = take_back (msg q) (w_heap w)"
    and b: "mset (blocks (w_arena w)) = mset (blocks (w_arena w1)) + mset (body_blocks (m_body (msg q)))"
    and a: "mset (allocated (w_blocks w)) = mset (allocated (w_blocks w1)) + {#the (message_block al (addr q) w)#}"
    and frame: "\<And>p' m' ys'. pending al w p' m' ys' \<Longrightarrow> apart al (addr q) (msg q) (items q) p' m' ys' \<Longrightarrow>
      pending al w1 p' m' ys' \<and> message_block al p' w1 = message_block al p' w"
    by (rule delete_pending) blast
  have ap: "apart al (addr q) (msg q) (items q) (addr q') (msg q') (items q')" if "q' \<in> set qs" for q'
    using Cons.prems(1,3) that by auto
  have P: "\<forall>q' \<in> set qs. pending al w1 (addr q') (msg q') (items q')"
    and same: "map (\<lambda>q. the (message_block al (addr q) w1)) qs = map (\<lambda>q. the (message_block al (addr q) w)) qs"
    using frame ap Cons.prems(2) by auto
  obtain w' where "delete_all al (map (\<lambda>q. (addr q, msg q)) qs) w1 = Inr w'"
    "w_heap w' = fold (\<lambda>q. take_back (msg q)) qs (w_heap w1)"
    "mset (blocks (w_arena w1)) = mset (blocks (w_arena w')) + mset (concat (map (\<lambda>q. body_blocks (m_body (msg q))) qs))"
    "mset (allocated (w_blocks w1)) = mset (allocated (w_blocks w')) + mset (map (\<lambda>q. the (message_block al (addr q) w)) qs)"
    using Cons.IH [OF _ P] Cons.prems(1,3) same by auto
  with d b a show ?case by simp
qed simp

text \<open>The result slots of the messages that owe an answer.\<close>

definition owed_slots :: "(nat \<Rightarrow> message) \<Rightarrow> nat list \<Rightarrow> nat set" where
  "owed_slots msg qs = (\<lambda>q. m_result_slot (msg q)) ` {q \<in> set qs. owes (msg q)}"

lemma owed_slots_Cons:
  "owed_slots msg (q # qs) = (if owes (msg q) then {m_result_slot (msg q)} else {}) \<union> owed_slots msg qs"
  by (auto simp: owed_slots_def)

lemma take_back_all:
  fixes h :: "'v fheap"
  assumes "inj_on (\<lambda>q. m_result_slot (msg q)) {q \<in> set qs. owes (msg q)}" and "distinct qs"
  shows "states (fold (\<lambda>q. take_back (msg q)) qs h) st =
    (if st \<in> owed_slots msg qs then Option.bind (states h st) cancelled else states h st)"
  using assms
proof (induction qs arbitrary: h)
  case (Cons q qs)
  have "inj_on (\<lambda>q. m_result_slot (msg q)) {q \<in> set qs. owes (msg q)}"
    by (rule inj_on_subset [OF Cons.prems(1)]) auto
  then have IH: "states (fold (\<lambda>q. take_back (msg q)) qs h') st =
      (if st \<in> owed_slots msg qs then Option.bind (states h' st) cancelled else states h' st)" for h' :: "'v fheap"
    using Cons.IH Cons.prems(2) by simp
  show ?case
  proof (cases "owes (msg q)")
    case True
    then have "m_result_slot (msg q) \<notin> owed_slots msg qs"
      using Cons.prems by (auto simp: owed_slots_def inj_on_def)
    then show ?thesis using True by (auto simp: IH take_back_states owed_slots_Cons)
  next
    case False
    then show ?thesis by (simp add: IH take_back_states owed_slots_Cons)
  qed
qed (simp add: owed_slots_def)

text \<open>What \<open>make_message\<close> builds is pending.\<close>

lemma made_message_pending:
  assumes "args \<noteq> []" and "\<forall>x \<in> set args. arg_ok x" and "block_ok (sup_args sv) (map arg_type args)"
    and "sup_state sv \<noteq> 0" and "sup_msg sv = Some raw" and "raw + kFront al \<noteq> 0"
  shows "\<exists>p m w1. make_message al sz (Some r) name args sv w = Inr ((p, m), fut_of_state (sup_state sv), w1) \<and>
    pending al w1 p m (placed args) \<and> m_result_slot m = sup_state sv \<and> owes m \<and>
    states (w_heap w1) (sup_state sv) = Some ss_new"
proof -
  obtain R A where R: "rtt_new (Some r) args (sup_args sv) (w_arena w) = Inr (R, A)" "holds R A (placed args)"
    "r_resource R = Some r" "r_allocation R = sup_args sv" "sup_args sv \<noteq> 0"
    and sz: "body_size R = rtt_block_size (map arg_type args)"
    and b: "blocks A = (r, sup_args sv, rtt_block_size (map arg_type args)) # blocks (w_arena w)"
    by (rule rtt_new_facts [OF assms(1-3), of r "w_arena w"]) (simp add: body_size_def)
  obtain bs where bs: "pmr_make_message al sz r raw (w_blocks w) = (raw + kFront al, bs)"
    and hd: "headers bs raw = Some \<lparr>hdr_resource = Some r, hdr_size = kFront al + sz\<rparr>"
    and al: "allocated bs = (r, raw, kFront al + sz, kAllocAlign al) # allocated (w_blocks w)"
    by (simp add: pmr_make_message_def block_allocate_def Let_def)
  let ?m = "fresh_message name R (sup_state sv)"
  let ?w = "w\<lparr>w_heap := (w_heap w)\<lparr>states := (states (w_heap w))(sup_state sv \<mapsto> ss_new)\<rparr>, w_arena := A, w_blocks := bs\<rparr>"
  have m: "m_body ?m = R" "m_result_slot ?m = sup_state sv" by (simp_all add: fresh_message_def)
  have "body_blocks R = [(r, sup_args sv, rtt_block_size (map arg_type args))]" using R(3-5) sz by (simp add: body_blocks_def)
  moreover have "message_block al (raw + kFront al) ?w = Some (r, raw, kFront al + sz, kAllocAlign al)"
    using hd by (simp add: message_block_def base_from_message_def)
  ultimately have "pending al ?w (raw + kFront al) ?m (placed args)"
    using assms(6) R(2-5) b al by (simp add: pending_def body_ok_def m unanswered_def ss_new_def)
  then show ?thesis using make_message_built [OF assms(1) R(1,3) assms(5) bs] m assms(4) by auto
qed

lemma made_message0_pending:
  assumes "sup_state sv \<noteq> 0" and "sup_msg sv = Some raw" and "raw + kFront al \<noteq> 0"
  shows "\<exists>p m w1. make_message0 al sz (Some r) name sv w = Inr ((p, m), fut_of_state (sup_state sv), w1) \<and>
    pending al w1 p m [] \<and> m_result_slot m = sup_state sv \<and> owes m \<and>
    states (w_heap w1) (sup_state sv) = Some ss_new"
  using assms
  by (simp add: make_message0_def allocate_shared_state_def message_named_def pmr_make_message_def block_allocate_def
      pending_def body_ok_def message_block_def base_from_message_def unanswered_def owes_def init_future_slot_def
      rtt_new0_def check_resource_def rtt_empty_def ss_new_def Let_def)

lemma ready_after_cleanup: "is_ready (cleanup_slot s)" "get_error (cleanup_slot s) = Operation_canceled"
  by (simp_all add: is_ready_def get_error_def cleanup_slot_def set_error_def release_promise_def release_repair_def
      release_bits_def fetch_or_flags_def deallocate_def bit_or_iff Let_def)

lemma cancelled_observed_now:
  assumes "st \<noteq> 0" and "states h st = Some (cleanup_slot s)"
  shows "fut_is_ready (fut_of_state st) h = Inr True" and "fut_error (fut_of_state st) h = Inr Operation_canceled"
  using assms ready_after_cleanup [of s] by (simp_all add: fut_is_ready_def fut_error_def fut_of_state_def get_state_def)

section \<open>Properties\<close>

text \<open>C9: Destroying a mailbox leaves nobody waiting. When an actor's mailbox goes with messages in it,
  wherever they are queued, with arguments or without, every one of them is deleted exactly once; every
  sender still holding the future of a message that owes an answer finds it ready with
  \<open>operation_canceled\<close>, a state whose future is gone is freed, no other state changes, and all blocks of
  the messages and of their arguments go back to their resources.\<close>

theorem teardown_answers_everyone:
  assumes "mb_rep cmd (b, m) a" and "\<not> am_closed a"
    and "\<forall>q \<in> set (mb_elems a). pending al w (addr q) (msg q) (items q)"
    and "\<forall>q \<in> set (mb_elems a). \<forall>q' \<in> set (mb_elems a). q \<noteq> q' \<longrightarrow>
      apart al (addr q) (msg q) (items q) (addr q') (msg q') (items q')"
  shows "\<exists>b' m' w'. mailbox_teardown al addr msg (b, m) w = Some (Inr ((b', m'), w')) \<and>
    mb_rep cmd (b', m') \<lparr>urgent = [], normal = [], arrivals = Closed\<rparr> \<and>
    (\<forall>q \<in> set (mb_elems a). \<forall>s. owes (msg q) \<and> states (w_heap w) (m_result_slot (msg q)) = Some s \<and>
        flags s AND sf_future_released = 0 \<longrightarrow>
      fut_is_ready (fut_of_state (m_result_slot (msg q))) (w_heap w') = Inr True \<and>
      fut_error (fut_of_state (m_result_slot (msg q))) (w_heap w') = Inr Operation_canceled) \<and>
    (\<forall>st. states (w_heap w') st = (if st \<in> owed_slots msg (mb_elems a)
      then Option.bind (states (w_heap w) st) cancelled else states (w_heap w) st)) \<and>
    mset (blocks (w_arena w)) =
      mset (blocks (w_arena w')) + mset (concat (map (\<lambda>q. body_blocks (m_body (msg q))) (mb_elems a))) \<and>
    mset (allocated (w_blocks w)) =
      mset (allocated (w_blocks w')) + mset (map (\<lambda>q. the (message_block al (addr q) w)) (mb_elems a))"
proof -
  let ?qs = "mb_elems a" and ?slot = "\<lambda>q. m_result_slot (msg q)"
  have dist: "distinct ?qs" using assms(1) by (simp add: mb_rep_def)
  obtain b' m' where c: "mb_close_impl (b, m) = Some (length ?qs, b', m')"
    and rep: "mb_rep cmd (b', m') \<lparr>urgent = [], normal = [], arrivals = Closed\<rparr>" and f: "freed m' = freed m @ ?qs"
    using mb_close_rep [OF assms(1,2)] by (auto simp: am_close_def)
  obtain w' where d: "delete_all al (map (\<lambda>q. (addr q, msg q)) ?qs) w = Inr w'"
    "w_heap w' = fold (\<lambda>q. take_back (msg q)) ?qs (w_heap w)" and rest:
    "mset (blocks (w_arena w)) = mset (blocks (w_arena w')) + mset (concat (map (\<lambda>q. body_blocks (m_body (msg q))) ?qs))"
    "mset (allocated (w_blocks w)) = mset (allocated (w_blocks w')) + mset (map (\<lambda>q. the (message_block al (addr q) w)) ?qs)"
    using delete_all_pending [OF dist assms(3,4)] by blast
  have inj: "inj_on ?slot {q \<in> set ?qs. owes (msg q)}" using assms(4) by (auto simp: inj_on_def apart_def)
  have st: "states (w_heap w') s = (if s \<in> owed_slots msg ?qs then Option.bind (states (w_heap w) s) cancelled
      else states (w_heap w) s)" for s
    unfolding d(2) by (rule take_back_all [OF inj dist])
  have run: "mailbox_teardown al addr msg (b, m) w = Some (Inr ((b', m'), w'))"
    using assms(1,2) c f d(1) by (simp add: mailbox_teardown_def close_mailbox_def mb_observers_rep(1) [OF assms(1)])
  have ans: "fut_is_ready (fut_of_state (?slot q)) (w_heap w') = Inr True \<and>
      fut_error (fut_of_state (?slot q)) (w_heap w') = Inr Operation_canceled"
    if q: "q \<in> set ?qs" "owes (msg q)" "states (w_heap w) (?slot q) = Some s" "flags s AND sf_future_released = 0" for q s
  proof -
    have "?slot q \<in> owed_slots msg ?qs" using q by (auto simp: owed_slots_def)
    then have "states (w_heap w') (?slot q) = Some (cleanup_slot s)"
      using st [of "?slot q"] q by (simp add: cancelled_def)
    moreover have "?slot q \<noteq> 0" using q(2) by (simp add: owes_def)
    ultimately show ?thesis using cancelled_observed_now by blast
  qed
  show ?thesis using run rep ans st rest by blast
qed

definition one_message :: mb_state where
  "one_message = snd (mb_push_back_impl 10 (mb_new 1 2 3 4 5 \<lparr>nxt = (\<lambda>_. 0), freed = []\<rparr>))"

lemma one_message_rep: "mb_rep cmd_example one_message \<lparr>urgent = [], normal = [], arrivals = Open [10]\<rparr>"
  unfolding one_message_def
  by (simp add: mb_eval mb_rep_def mb_sentinels_def mb_elems_def wf_inbox_def node_ok_def tag_defs ll_rep_def)

text \<open>A message made with two arguments, and one without any.\<close>

theorem teardown_answers_everyone_witness:
  "(\<exists>p m f w bm' w'. make_message 8 104 (Some 0) (Integral_name 7) sample_args
      \<lparr>sup_state = 5, sup_args = 0x1000, sup_msg = Some 0x2000\<rparr>
      \<lparr>w_heap = empty_fheap, w_arena = no_arena, w_blocks = \<lparr>headers = (\<lambda>_. None), allocated = []\<rparr>\<rparr> = Inr ((p, m), f, w) \<and>
    mailbox_teardown 8 (\<lambda>_. p) (\<lambda>_. m) one_message w = Some (Inr (bm', w')) \<and>
    fut_error f (w_heap w') = Inr Operation_canceled) \<and>
   (\<exists>p m f w bm' w'. make_message0 8 104 (Some 0) (Integral_name 7) \<lparr>sup_state = 5, sup_args = 0, sup_msg = Some 0x2000\<rparr>
      (\<lparr>w_heap = empty_fheap, w_arena = no_arena, w_blocks = \<lparr>headers = (\<lambda>_. None), allocated = []\<rparr>\<rparr> :: nat world) = Inr ((p, m), f, w) \<and>
    mailbox_teardown 8 (\<lambda>_. p) (\<lambda>_. m) one_message w = Some (Inr (bm', w')) \<and>
    fut_error f (w_heap w') = Inr Operation_canceled)"
proof -
  obtain b h where bh: "one_message = (b, h)" by fastforce
  have rep: "mb_rep cmd_example (b, h) \<lparr>urgent = [], normal = [], arrivals = Open [10]\<rparr>"
    using one_message_rep unfolding bh .
  have e: "mb_elems \<lparr>urgent = [], normal = [], arrivals = Open [10]\<rparr> = [10]" by (simp add: mb_elems_def)
  have o: "\<not> am_closed \<lparr>urgent = [], normal = [], arrivals = Open [10]\<rparr>" by (simp add: am_closed_def)
  have T: "\<exists>bm' w'. mailbox_teardown 8 (\<lambda>_. p) (\<lambda>_. m) one_message w = Some (Inr (bm', w')) \<and>
      fut_error (fut_of_state 5) (w_heap w') = Inr Operation_canceled"
    if "pending 8 w p m ys" "m_result_slot m = 5" "owes m" "states (w_heap w) 5 = Some ss_new"
    for w :: "nat world" and p m and ys :: "(nat \<times> cpp_type \<times> nat) list"
  proof -
    have "flags ss_new AND sf_future_released = 0" by (simp add: ss_new_def sf_defs)
    with teardown_answers_everyone [OF rep o, of 8 w "\<lambda>_. p" "\<lambda>_. m" "\<lambda>_. ys"] that
    obtain b' m' w' where "mailbox_teardown 8 (\<lambda>_. p) (\<lambda>_. m) (b, h) w = Some (Inr ((b', m'), w'))"
      "fut_error (fut_of_state 5) (w_heap w') = Inr Operation_canceled"
      unfolding e by auto
    then show ?thesis unfolding bh by blast
  qed
  let ?w0 = "\<lparr>w_heap = empty_fheap, w_arena = no_arena, w_blocks = \<lparr>headers = (\<lambda>_. None), allocated = []\<rparr>\<rparr> :: nat world"
  let ?sv = "\<lparr>sup_state = 5, sup_args = 0x1000, sup_msg = Some 0x2000\<rparr>"
  note ok = sample_message_ready [OF refl refl refl]
  obtain p m w where "make_message 8 104 (Some 0) (Integral_name 7) sample_args ?sv ?w0 = Inr ((p, m), fut_of_state 5, w)"
    "pending 8 w p m (placed sample_args)" "m_result_slot m = 5" "owes m" "states (w_heap w) 5 = Some ss_new"
    using made_message_pending [of sample_args ?sv "0x2000" 8 104 0 "Integral_name 7" ?w0] ok by auto
  moreover obtain q n v where "make_message0 8 104 (Some 0) (Integral_name 7) \<lparr>sup_state = 5, sup_args = 0, sup_msg = Some 0x2000\<rparr> ?w0 =
      Inr ((q, n), fut_of_state 5, v)"
    "pending 8 v q n []" "m_result_slot n = 5" "owes n" "states (w_heap v) 5 = Some ss_new"
    using made_message0_pending [of "\<lparr>sup_state = 5, sup_args = 0, sup_msg = Some 0x2000\<rparr>" "0x2000" 8 104 0 "Integral_name 7" ?w0] ok by auto
  ultimately show ?thesis using T by blast
qed

end
