(* ===== verification/Queue_Iterators.thy ===== *)
theory Queue_Iterators
  imports Linked_List
begin

text \<open>
  Iterators over the intrusive list: \<open>forward_iterator\<close> (\<open>detail/queue/forward_iterator.hpp\<close>), the
  list's functions that make one or take one (\<open>detail/queue/linked_list.hpp\<close>), and the check that
  ties a queue's deleter to its element type (\<open>detail/queue/declared_deleter.hpp\<close>). An element is
  at the address of its node, so \<open>promote\<close> is the identity; \<open>walk\<close> is a client's loop from one
  iterator to another.
\<close>

section \<open>The iterator\<close>

record forward_iterator =
  it_ptr :: nat

definition it_new :: "nat \<Rightarrow> forward_iterator" where
  "it_new init = \<lparr>it_ptr = init\<rparr>"

definition it_next :: "mem \<Rightarrow> forward_iterator \<Rightarrow> forward_iterator" where
  "it_next m it = it_new (nxt m (it_ptr it))"

definition it_pre_incr :: "mem \<Rightarrow> forward_iterator \<Rightarrow> forward_iterator" where
  "it_pre_incr m it = it\<lparr>it_ptr := nxt m (it_ptr it)\<rparr>"

text \<open>The result of \<open>it++\<close>, and what \<open>it\<close> is afterwards.\<close>

definition it_post_incr :: "mem \<Rightarrow> forward_iterator \<Rightarrow> forward_iterator \<times> forward_iterator" where
  "it_post_incr m it = (let res = it in (res, it\<lparr>it_ptr := nxt m (it_ptr it)\<rparr>))"

definition it_deref :: "forward_iterator \<Rightarrow> nat" where
  "it_deref it = it_ptr it"

definition it_eq :: "forward_iterator \<Rightarrow> forward_iterator \<Rightarrow> bool" where
  "it_eq x y \<longleftrightarrow> it_ptr x = it_ptr y"

definition it_ne :: "forward_iterator \<Rightarrow> forward_iterator \<Rightarrow> bool" where
  "it_ne x y \<longleftrightarrow> it_ptr x \<noteq> it_ptr y"

section \<open>The list's iterators\<close>

definition ll_begin :: "linked_list \<times> mem \<Rightarrow> forward_iterator" where
  "ll_begin lm = (case lm of (l, m) \<Rightarrow> it_new (nxt m (head l)))"

definition ll_end :: "linked_list \<times> mem \<Rightarrow> forward_iterator" where
  "ll_end lm = it_new (tail (fst lm))"

definition ll_before_begin :: "linked_list \<times> mem \<Rightarrow> forward_iterator" where
  "ll_before_begin lm = it_new (head (fst lm))"

text \<open>\<open>insert_after\<close> with its assertions, \<open>nd\<close> for \<open>NDEBUG\<close>, and the iterator it returns.\<close>

definition ll_insert_at ::
  "bool \<Rightarrow> forward_iterator \<Rightarrow> nat \<Rightarrow> linked_list \<times> mem \<Rightarrow> (forward_iterator \<times> linked_list \<times> mem) outcome" where
  "ll_insert_at nd pos ptr lm =
     (if \<not> nd \<and> \<not> it_ne pos (ll_end lm) then Inl Assertion_failed
      else if \<not> nd \<and> ptr = 0 then Inl Assertion_failed
      else Inr (it_new ptr, ll_insert_after (it_deref pos) ptr lm))"

text \<open>The check on a queue's deleter, given what the element type declares.\<close>

definition deleter_check :: "'d option \<Rightarrow> 'd \<Rightarrow> bool" where
  "deleter_check declared deleter \<longleftrightarrow> declared = None \<or> declared = Some deleter"

section \<open>Walking\<close>

text \<open>\<open>for (; i != e; ++i) s = f( *i, s);\<close> which may not end on a corrupted list.\<close>

partial_function (option) walk ::
  "mem \<Rightarrow> (nat \<Rightarrow> 's \<Rightarrow> 's) \<Rightarrow> forward_iterator \<Rightarrow> forward_iterator \<Rightarrow> 's \<Rightarrow> 's option" where
  "walk m f i e s =
     (if it_ne i e then walk m f (it_pre_incr m i) e (f (it_deref i) s) else Some s)"

lemmas it_defs = it_new_def it_next_def it_pre_incr_def it_post_incr_def it_deref_def it_eq_def it_ne_def
  ll_begin_def ll_end_def ll_before_begin_def

lemma it_eq_iff [simp]: "it_eq x y \<longleftrightarrow> x = y" "it_ne x y \<longleftrightarrow> x \<noteq> y"
  by (cases x, cases y, simp add: it_defs)+

lemma walk_seg:
  assumes "seg (nxt m) p xs q" and "q \<notin> set xs"
  shows "walk m f (it_new p) (it_new q) s = Some (fold f xs s)"
  using assms
proof (induction xs arbitrary: p s)
  case Nil
  then show ?case by (subst walk.simps) (simp add: it_defs)
next
  case (Cons x xs)
  then show ?case by (subst walk.simps) (auto simp: it_defs)
qed

text \<open>\<open>k\<close> steps from a position.\<close>

fun advance :: "mem \<Rightarrow> nat \<Rightarrow> forward_iterator \<Rightarrow> forward_iterator" where
  "advance m 0 it = it"
| "advance m (Suc k) it = advance m k (it_pre_incr m it)"

lemma advance_seg:
  assumes "seg (nxt m) p xs q" and "k \<le> length xs"
  shows "advance m k (it_new p) = it_new ((xs @ [q]) ! k)"
  using assms
proof (induction xs arbitrary: p k)
  case (Cons x xs)
  then show ?case by (cases k) (auto simp: it_defs)
qed simp

text \<open>From \<open>before_begin\<close>, \<open>k\<close> steps lead to the \<open>k\<close>-th node of the chain of the head sentinel.\<close>

lemma advance_before_begin:
  assumes "ll_rep l (nxt m) xs" and "k \<le> length xs"
  shows "advance m k (ll_before_begin (l, m)) = it_new (last (head l # take k xs))"
proof -
  have "seg (nxt m) (head l) (head l # xs) (tail l)" using assms(1) by (simp add: ll_rep_def)
  from advance_seg [OF this, of k] assms(2)
  have "advance m k (ll_before_begin (l, m)) = it_new ((head l # xs) ! k)"
    by (cases k) (simp_all add: ll_before_begin_def nth_append)
  also have "(head l # xs) ! k = last (head l # take k xs)"
    using assms(2) by (cases k) (simp_all add: take_Suc_conv_app_nth last_conv_nth)
  finally show ?thesis .
qed

text \<open>Past the end: in a build without assertions the element is counted and never found.\<close>

lemma insert_at_end_loses:
  assumes rep: "ll_rep l (nxt m) xs" and p: "p \<notin> ll_nodes l xs"
    and st: "ll_insert_at True (ll_end (l, m)) p (l, m) = Inr (i, l', m')"
  shows "walk m' f (ll_begin (l', m')) (ll_end (l', m')) s = Some (fold f xs s)" and "size_of l' = Suc (length xs)"
proof -
  let ?h = "head l" and ?t = "tail l"
  have d: "distinct (?h # ?t # xs)" and sg: "seg (nxt m) (nxt m ?h) xs ?t" and tl: "nxt m ?t = last (?h # xs)"
    and sz: "size_of l = length xs" using rep by (simp_all add: ll_rep_def)
  have "last (?h # xs) \<noteq> ?t" using d last_in_set [of "?h # xs"] by auto
  then have nx: "nxt m' = (nxt m)(p := nxt m ?t, ?t := p)" and l': "l' = l\<lparr>size_of := size_of l + 1\<rparr>"
    using st tl by (auto simp: ll_insert_at_def ll_insert_after_def it_defs Let_def)
  have "seg (nxt m') (nxt m' ?h) xs ?t" using sg d p by (simp add: nx ll_nodes_def)
  then show "walk m' f (ll_begin (l', m')) (ll_end (l', m')) s = Some (fold f xs s)"
    using walk_seg [of m' "nxt m' ?h" xs ?t f s] d l' by (simp add: ll_begin_def ll_end_def)
  show "size_of l' = Suc (length xs)" using l' sz by simp
qed

section \<open>Properties\<close>

text \<open>Iterating and inserting. A walk from \<open>begin()\<close> to \<open>end()\<close> ends and sees the elements of the
  queue once each, in the order \<open>pop_front\<close> will return them; an element inserted after the position
  reached by \<open>k\<close> steps from \<open>before_begin()\<close> is the \<open>k\<close>-th element, the returned iterator points
  to it, the others keep their order and no node outside the queue is written.\<close>

theorem queue_iterators:
  assumes "ll_rep l (nxt m) xs"
  shows "walk m (\<lambda>x ys. ys @ [x]) (ll_begin (l, m)) (ll_end (l, m)) [] = Some xs \<and>
    (k \<le> length xs \<and> p \<noteq> 0 \<and> p \<notin> ll_nodes l xs \<longrightarrow>
      (\<exists>l' m'. ll_insert_at nd (advance m k (ll_before_begin (l, m))) p (l, m) = Inr (it_new p, l', m') \<and>
        ll_rep l' (nxt m') (take k xs @ p # drop k xs) \<and>
        advance m' (Suc k) (ll_before_begin (l', m')) = it_new p \<and>
        (\<forall>x. x \<notin> {p, head l, tail l} \<union> set xs \<longrightarrow> nxt m' x = nxt m x)))"
proof (intro conjI impI)
  have "fold (\<lambda>x ys. ys @ [x]) xs zs = zs @ xs" for zs :: "nat list" by (induction xs arbitrary: zs) simp_all
  then show "walk m (\<lambda>x ys. ys @ [x]) (ll_begin (l, m)) (ll_end (l, m)) [] = Some xs"
    using walk_seg [of m "nxt m (head l)" xs "tail l" "\<lambda>x ys. ys @ [x]" "[]"] assms
    by (simp add: ll_rep_def ll_begin_def ll_end_def)
next
  assume a: "k \<le> length xs \<and> p \<noteq> 0 \<and> p \<notin> ll_nodes l xs"
  let ?pos = "last (head l # take k xs)"
  have pos: "advance m k (ll_before_begin (l, m)) = it_new ?pos"
    using advance_before_begin [OF assms] a by blast
  have ne: "?pos \<noteq> tail l"
    using assms last_in_set [of "head l # take k xs"] by (auto simp: ll_rep_def dest: in_set_takeD)
  obtain l' m' where st: "ll_insert_after ?pos p (l, m) = (l', m')" by fastforce
  have r: "ll_rep l' (nxt m') (take k xs @ p # drop k xs)" "head l' = head l"
    and fr: "\<forall>x. x \<notin> insert p (ll_nodes l xs) \<longrightarrow> nxt m' x = nxt m x"
    using ll_insert_after_rep [of l m "take k xs" "drop k xs" p ?pos l' m'] assms a st by auto
  have "advance m' (Suc k) (ll_before_begin (l', m')) = it_new p"
    using advance_before_begin [OF r(1), of "Suc k"] a by simp
  moreover have "ll_insert_at nd (advance m k (ll_before_begin (l, m))) p (l, m) = Inr (it_new p, l', m')"
    unfolding pos using ne a st by (simp add: ll_insert_at_def it_new_def ll_end_def it_deref_def)
  moreover have "\<forall>x. x \<notin> {p, head l, tail l} \<union> set xs \<longrightarrow> nxt m' x = nxt m x"
    using fr by (simp add: ll_nodes_def)
  ultimately show "\<exists>l' m'. ll_insert_at nd (advance m k (ll_before_begin (l, m))) p (l, m) = Inr (it_new p, l', m') \<and>
        ll_rep l' (nxt m') (take k xs @ p # drop k xs) \<and>
        advance m' (Suc k) (ll_before_begin (l', m')) = it_new p \<and>
        (\<forall>x. x \<notin> {p, head l, tail l} \<union> set xs \<longrightarrow> nxt m' x = nxt m x)"
    using r(1) by blast
qed

end
