(* ===== verification/Type_Level.thy ===== *)
theory Type_Level
  imports Dispatch
begin

text \<open>
  What the library computes at compile time: type lists (\<open>detail/type_list.hpp\<close>), the traits of
  callables (\<open>detail/callable_trait.hpp\<close>) and the choice of a coroutine's promise type
  (\<open>detail/promise_concepts.hpp\<close>, \<open>detail/coroutine_traits.hpp\<close>). A template that has no member
  \<open>type\<close>, or is incomplete, is \<open>None\<close>.
\<close>

section \<open>Type lists\<close>

text \<open>A list of types is a list; what a template adds to it is \<open>void\<close> or \<open>unit_t\<close>.\<close>

datatype 'a listed = Listed 'a | Void_type | Unit_type

definition type_list_size :: "'a list \<Rightarrow> nat" where
  "type_list_size xs = length xs"

fun type_list_at_impl :: "nat \<Rightarrow> 'a list \<Rightarrow> 'a option" where
  "type_list_at_impl n [] = None"
| "type_list_at_impl 0 (e # es) = Some e"
| "type_list_at_impl (Suc n) (e # es) = type_list_at_impl n es"

definition type_list_at :: "'a list \<Rightarrow> nat \<Rightarrow> 'a option" where
  "type_list_at xs n = type_list_at_impl n xs"

fun tl_head :: "'a listed list \<Rightarrow> 'a listed" where
  "tl_head [] = Void_type"
| "tl_head (t # ts) = t"

fun tl_tail :: "'a listed list \<Rightarrow> 'a listed list" where
  "tl_tail [] = []"
| "tl_tail (t # ts) = ts"

text \<open>The most specialised partial specialisation that matches, in this order.\<close>

function tl_slice_impl :: "nat \<Rightarrow> nat \<Rightarrow> 'a listed \<Rightarrow> 'a listed list \<Rightarrow> 'a listed list \<Rightarrow> 'a listed list" where
  "tl_slice_impl left remaining pad xs args =
     (if left = 0 then
        (if remaining = 0 then args
         else if xs = [] then tl_slice_impl 0 (remaining - 1) pad [] (args @ [pad])
         else tl_slice_impl 0 (remaining - 1) pad (tl_tail xs) (args @ [tl_head xs]))
      else tl_slice_impl (left - 1) remaining pad (tl_tail xs) args)"
  by pat_completeness auto

termination by (relation "measure (\<lambda>(left, remaining, _). left + remaining)") auto

declare tl_slice_impl.simps [simp del]

definition tl_slice_at :: "'a listed list \<Rightarrow> nat \<Rightarrow> nat \<Rightarrow> nat \<Rightarrow> 'a listed \<Rightarrow> 'a listed list" where
  "tl_slice_at xs list_size first final pad =
     (if first = 0 \<and> final = list_size then xs else tl_slice_impl first (final - first) pad xs [])"

definition tl_slice :: "'a listed list \<Rightarrow> nat \<Rightarrow> nat \<Rightarrow> 'a listed list" where
  "tl_slice xs first final =
     tl_slice_at xs (type_list_size xs) (if first > final then final else first) final Unit_type"

lemma type_list_at_nth: "type_list_at xs n = (if n < type_list_size xs then Some (xs ! n) else None)"
proof -
  have "type_list_at_impl n xs = (if n < length xs then Some (xs ! n) else None)"
    by (induction n xs rule: type_list_at_impl.induct) auto
  then show ?thesis by (simp add: type_list_at_def type_list_size_def)
qed

lemma tl_tail_drop: "tl_tail xs = drop 1 xs"
  by (cases xs) simp_all

lemma tl_slice_impl_take:
  "tl_slice_impl left remaining pad xs args = args @ take remaining (drop left xs @ replicate remaining pad)"
proof (induction left remaining pad xs args rule: tl_slice_impl.induct)
  case (1 left remaining pad xs args)
  consider "left \<noteq> 0" | "left = 0" "remaining = 0" | r where "left = 0" "remaining = Suc r" by (cases remaining) auto
  then show ?case
  proof cases
    case 1
    then show ?thesis using "1.IH"(3) by (subst tl_slice_impl.simps) (simp add: tl_tail_drop)
  next
    case 2
    then show ?thesis by (subst tl_slice_impl.simps) simp
  next
    case (3 r)
    show ?thesis
    proof (cases xs)
      case Nil
      then show ?thesis using "1.IH"(1) 3 by (subst tl_slice_impl.simps) simp
    next
      case (Cons t ts)
      have "take (r - length ts) (replicate (Suc r) pad) = take (r - length ts) (replicate r pad)"
        unfolding take_replicate by simp
      then show ?thesis using "1.IH"(2) 3 Cons by (subst tl_slice_impl.simps) simp
    qed
  qed
qed

text \<open>A slice is the half-open range, padded on the right; cutting a list in two loses nothing.\<close>

lemma tl_slice_range:
  "tl_slice xs first final = take (final - first) (drop first xs @ replicate (final - first) Unit_type)"
  by (auto simp: tl_slice_def tl_slice_at_def tl_slice_impl_take type_list_size_def)

lemma tl_slice_partition:
  "k \<le> type_list_size xs \<Longrightarrow> tl_slice xs 0 k @ tl_slice xs k (type_list_size xs) = xs"
  by (simp add: tl_slice_range type_list_size_def)

lemma tl_slice_size: "type_list_size (tl_slice xs first final) = final - first"
  by (simp add: tl_slice_range type_list_size_def)

section \<open>Callables\<close>

record signature =
  sg_result :: result_type
  sg_args :: "cv_type list"
  sg_noexcept :: bool
  sg_variadic :: bool

record member_signature = signature +
  sg_class :: nat
  sg_const :: bool
  sg_volatile :: bool
  sg_ref :: ref_kind

text \<open>A class type has exactly one \<open>operator()\<close>, or \<open>&T::operator()\<close> does not name one.\<close>

datatype callable =
  Function_type signature | Function_pointer signature | Member_pointer member_signature
| Class_type "member_signature option"

record any_trait =
  at_class :: "nat option"
  at_result :: result_type
  at_args :: "cv_type list"

definition number_of_arguments :: "any_trait \<Rightarrow> nat" where
  "number_of_arguments t = type_list_size (at_args t)"

text \<open>The specialisations of \<open>callable_trait\<close>: those of member functions come without \<open>volatile\<close> or a
  reference, that of function types without \<open>noexcept\<close>, and none has a C ellipsis.\<close>

fun callable_trait_of :: "callable \<Rightarrow> any_trait option" where
  "callable_trait_of (Function_type s) =
     (if sg_noexcept s \<or> sg_variadic s then None
      else Some \<lparr>at_class = None, at_result = sg_result s, at_args = sg_args s\<rparr>)"
| "callable_trait_of (Function_pointer s) =
     (if sg_variadic s then None else Some \<lparr>at_class = None, at_result = sg_result s, at_args = sg_args s\<rparr>)"
| "callable_trait_of (Member_pointer s) =
     (if sg_volatile s \<or> sg_ref s \<noteq> No_ref \<or> sg_variadic s then None
      else Some \<lparr>at_class = Some (sg_class s), at_result = sg_result s, at_args = sg_args s\<rparr>)"
| "callable_trait_of (Class_type _) = None"

fun has_call_operator :: "callable \<Rightarrow> bool" where
  "has_call_operator (Class_type (Some _)) \<longleftrightarrow> True"
| "has_call_operator _ \<longleftrightarrow> False"

fun decay_callable :: "callable \<Rightarrow> callable" where
  "decay_callable (Function_type s) = Function_pointer s"
| "decay_callable c = c"

fun is_fun :: "callable \<Rightarrow> bool" where
  "is_fun (Class_type _) \<longleftrightarrow> False"
| "is_fun _ \<longleftrightarrow> True"

text \<open>Asking for \<open>type\<close> finds a trait, finds no such member, or is an error where it is asked.\<close>

datatype trait_answer = Has_trait any_trait | No_trait | Hard_error

definition answer_of :: "any_trait option \<Rightarrow> trait_answer" where
  "answer_of t = (case t of None \<Rightarrow> Hard_error | Some x \<Rightarrow> Has_trait x)"

definition get_callable_trait_helper :: "callable \<Rightarrow> bool \<Rightarrow> bool \<Rightarrow> trait_answer" where
  "get_callable_trait_helper c fun_type has_apply =
     (if \<not> fun_type \<and> has_apply
      then (case c of Class_type (Some s) \<Rightarrow> answer_of (callable_trait_of (Member_pointer s)) | _ \<Rightarrow> Hard_error)
      else if \<not> fun_type \<and> \<not> has_apply then No_trait
      else answer_of (callable_trait_of c))"

definition get_callable_trait :: "callable \<Rightarrow> trait_answer" where
  "get_callable_trait c =
     (let d = decay_callable c in get_callable_trait_helper d (is_fun d) (has_call_operator d))"

text \<open>\<open>None\<close> is a program that does not compile.\<close>

definition is_callable :: "callable \<Rightarrow> bool option" where
  "is_callable c = (case get_callable_trait (decay_callable c) of
     Has_trait _ \<Rightarrow> Some True | No_trait \<Rightarrow> Some False | Hard_error \<Rightarrow> None)"

lemmas callable_defs = get_callable_trait_def get_callable_trait_helper_def answer_of_def is_callable_def Let_def

text \<open>What a call of the callable looks like, whichever way it is written.\<close>

fun signature_of :: "callable \<Rightarrow> signature option" where
  "signature_of (Function_type s) = Some s"
| "signature_of (Function_pointer s) = Some s"
| "signature_of (Member_pointer s) = Some (signature.truncate s)"
| "signature_of (Class_type s) = map_option signature.truncate s"

lemma trait_is_signature:
  assumes "get_callable_trait c = Has_trait t"
  shows "\<exists>s. signature_of c = Some s \<and> at_result t = sg_result s \<and> at_args t = sg_args s \<and>
    number_of_arguments t = length (sg_args s)"
proof -
  have "decay_callable (decay_callable c) = decay_callable c" by (cases c) simp_all
  with assms show ?thesis
    by (cases c rule: callable_trait_of.cases)
      (auto simp: callable_defs number_of_arguments_def type_list_size_def signature.truncate_def
        split: if_splits option.splits)
qed

text \<open>\<open>is_callable\<close> says no exactly of what cannot be called through one function; a qualified or
  variadic function is no answer at all but an error.\<close>

lemma is_callable_answers:
  "is_callable c = Some False \<longleftrightarrow> signature_of c = None"
  "is_callable (Member_pointer s) = None \<longleftrightarrow> sg_volatile s \<or> sg_ref s \<noteq> No_ref \<or> sg_variadic s"
  by (cases c rule: has_call_operator.cases) (auto simp: callable_defs)

text \<open>The trait \<open>dispatch\<close> takes of an actor's method has the method's class, result and arguments.\<close>

definition method_signature :: "callable_trait \<Rightarrow> member_signature" where
  "method_signature t =
     \<lparr>sg_result = result_of t, sg_args = args_types t, sg_noexcept = is_noexcept_method t, sg_variadic = False,
      sg_class = class_type t, sg_const = is_const_method t, sg_volatile = False, sg_ref = No_ref\<rparr>"

lemma dispatch_call_trait:
  "get_callable_trait (Member_pointer (method_signature t)) =
     Has_trait \<lparr>at_class = Some (class_type t), at_result = result_of t, at_args = args_types t\<rparr>"
  by (simp add: callable_defs method_signature_def)

section \<open>The promise type of a coroutine\<close>

text \<open>The types of a coroutine's parameters, as far as the choice looks into them.\<close>

datatype param_type =
  Class_param nat bool | Pointer_param param_type | Reference_param ref_kind param_type | Other_param cv_type

fun remove_pointer :: "param_type \<Rightarrow> param_type" where
  "remove_pointer (Pointer_param t) = t"
| "remove_pointer t = t"

text \<open>What a promise type offers: the value type of the future its \<open>get_return_object\<close> returns, and
  whether the other members can be called and are \<open>noexcept\<close> where they have to be.\<close>

type_synonym value_type = "cv_type option"

record promise_members =
  pm_return_object :: "value_type option"
  pm_initial_suspend :: bool
  pm_final_suspend :: bool
  pm_unhandled_exception :: bool
  pm_allocation :: bool
  pm_return_void :: bool
  pm_return_value :: bool

text \<open>What is known of the classes of the program.\<close>

record promise_facts =
  pf_destructible :: "cpp_type \<Rightarrow> bool"
  pf_dispatch_traits :: "nat \<Rightarrow> bool"
  pf_promise_type :: "nat \<Rightarrow> (value_type \<Rightarrow> promise_members) option"

definition valid_future_value_type :: "type_facts \<Rightarrow> promise_facts \<Rightarrow> value_type \<Rightarrow> bool" where
  "valid_future_value_type tf pf v \<longleftrightarrow> (case v of None \<Rightarrow> True
     | Some t \<Rightarrow> tf_movable tf (cv_decayed t) \<and> pf_destructible pf (cv_decayed t) \<and> cv_ref t = No_ref \<and> \<not> cv_const t)"

definition valid_promise_type :: "type_facts \<Rightarrow> promise_facts \<Rightarrow> promise_members \<Rightarrow> value_type \<Rightarrow> bool" where
  "valid_promise_type tf pf p v \<longleftrightarrow> valid_future_value_type tf pf v \<and> pm_return_object p = Some v \<and>
     pm_initial_suspend p \<and> pm_final_suspend p \<and> pm_unhandled_exception p \<and> pm_allocation p \<and> pm_return_value p"

definition valid_promise_type_void :: "promise_members \<Rightarrow> bool" where
  "valid_promise_type_void p \<longleftrightarrow> pm_return_object p = Some None \<and>
     pm_initial_suspend p \<and> pm_final_suspend p \<and> pm_unhandled_exception p \<and> pm_allocation p \<and> pm_return_void p"

fun has_custom_promise_type :: "promise_facts \<Rightarrow> param_type \<Rightarrow> bool" where
  "has_custom_promise_type pf (Class_param c _) \<longleftrightarrow> pf_promise_type pf c \<noteq> None"
| "has_custom_promise_type pf _ \<longleftrightarrow> False"

fun is_actor_type :: "promise_facts \<Rightarrow> param_type \<Rightarrow> bool" where
  "is_actor_type pf (Class_param c _) \<longleftrightarrow> pf_dispatch_traits pf c"
| "is_actor_type pf _ \<longleftrightarrow> False"

datatype promise_choice = Standard_promise | Custom_promise nat | Rejected_promise

definition promise_type_for :: "promise_facts \<Rightarrow> nat \<Rightarrow> promise_choice" where
  "promise_type_for pf c =
     (if has_custom_promise_type pf (Class_param c False) then Custom_promise c else Standard_promise)"

text \<open>\<open>std::coroutine_traits<unique_future<T>, Ps...>\<close>: the library's specialisation where its
  constraint holds, else the standard's, which takes \<open>unique_future<T>::promise_type\<close>.\<close>

definition coroutine_promise ::
  "type_facts \<Rightarrow> promise_facts \<Rightarrow> value_type \<Rightarrow> param_type list \<Rightarrow> promise_choice" where
  "coroutine_promise tf pf v ps = (case ps of
     [] \<Rightarrow> Standard_promise
   | a # _ \<Rightarrow>
       if is_actor_type pf (remove_pointer a) \<and> has_custom_promise_type pf (remove_pointer a)
       then (case remove_pointer a of
           Class_param c _ \<Rightarrow>
             let p = the (pf_promise_type pf c) v in
             if (if v = None then valid_promise_type_void p else valid_promise_type tf pf p v)
             then Custom_promise c else Rejected_promise
         | _ \<Rightarrow> Standard_promise)
       else Standard_promise)"

text \<open>The language lists the object of a member function first, as a reference to it.\<close>

definition method_params :: "callable_trait \<Rightarrow> param_type list" where
  "method_params t = Reference_param Lvalue_ref (Class_param (class_type t) (is_const_method t)) #
     map Other_param (args_types t)"

text \<open>What \<open>unique_future<T>::promise_type\<close> offers; \<open>ec\<close> is \<open>std::error_code\<close>, for which two overloads of
  \<open>return_value\<close> fit equally well.\<close>

definition standard_members :: "cpp_type \<Rightarrow> value_type \<Rightarrow> promise_members" where
  "standard_members ec v =
     \<lparr>pm_return_object = Some v, pm_initial_suspend = True, pm_final_suspend = True, pm_unhandled_exception = True,
      pm_allocation = True, pm_return_void = (v = None),
      pm_return_value = (case v of None \<Rightarrow> False | Some t \<Rightarrow> cv_decayed t \<noteq> ec)\<rparr>"

lemma standard_members_valid:
  "valid_promise_type_void (standard_members ec None)"
  "valid_promise_type tf pf (standard_members ec (Some t)) (Some t) \<longleftrightarrow>
     valid_future_value_type tf pf (Some t) \<and> cv_decayed t \<noteq> ec"
  by (auto simp: valid_promise_type_void_def valid_promise_type_def standard_members_def)

text \<open>A custom promise type is used by a free coroutine that takes the actor, by value or pointer, first.\<close>

lemma free_coroutine_promise:
  assumes "pf_dispatch_traits pf c" and "pf_promise_type pf c = Some q" and "a \<in> {Class_param c k, Pointer_param (Class_param c k)}"
  shows "coroutine_promise tf pf v (a # ps) =
    (if (if v = None then valid_promise_type_void (q v) else valid_promise_type tf pf (q v) v)
     then promise_type_for pf c else Rejected_promise)"
  using assms by (auto simp: coroutine_promise_def promise_type_for_def)

text \<open>A method of the actor never uses it: a reference has no \<open>dispatch_traits\<close>. So the promise a
  method gets is the one \<open>promise_type_for\<close> names only where the actor declares none.\<close>

lemma method_promise:
  "coroutine_promise tf pf v (method_params t) = Standard_promise"
  "coroutine_promise tf pf v (method_params t) = promise_type_for pf (class_type t) \<longleftrightarrow>
     pf_promise_type pf (class_type t) = None"
  by (simp_all add: coroutine_promise_def method_params_def promise_type_for_def)

end
