(* ===== verification/Spec2Isabelle.thy ===== *)
theory Spec2Isabelle
  imports Actor_Protocol Inbox_Concurrent Settle_Protocol Result_Storage Backoff Rtt Scheduler
    Runtime Resume_Run Ref_Counted Frame_Blocks Futures Messages Coroutines Dispatch Address Teardown
    Queue_Iterators Type_Level
begin

text \<open>
  A verification library for the C++ actor runtime actor-zeta; file names are relative to
  \<open>src/header/actor-zeta/\<close>.

  The program. A sender calls \<open>send\<close> (\<open>send.hpp\<close>), which checks the method and the arguments,
  builds a message with \<open>make_message\<close> (\<open>mailbox/make_message.hpp\<close>) around an argument block
  (\<open>detail/rtt.hpp\<close>) and a shared state (\<open>detail/shared_state.hpp\<close>), hands the message to the
  actor's \<open>enqueue_impl\<close> and returns the future. \<open>cooperative_actor\<close>
  (\<open>actor/cooperative_actor.hpp\<close>) keeps one 32-bit state word and a mailbox
  (\<open>mailbox/default_mailbox.hpp\<close>: a lock-free inbox in front of two priority queues); senders,
  callers of \<open>resume\<close> and the destructor meet in that word. Whoever is told so enqueues the actor
  at the scheduler (\<open>scheduler/scheduler.hpp\<close>, \<open>worker.hpp\<close>, \<open>policy/work_sharing.hpp\<close>), whose
  workers call \<open>resume\<close>. \<open>resume\<close> pops messages and runs the behavior coroutine
  (\<open>detail/behavior_t.hpp\<close>), which passes each message to \<open>dispatch\<close> (\<open>actor/dispatch.hpp\<close>): that
  calls the method, awaits its future (\<open>detail/future_awaiters.hpp\<close>) and settles the sender's
  through a promise (\<open>detail/future.hpp\<close>).

  The theories, bottom up.
  \<^item> \<open>Prelude\<close>: outcomes (a failing assertion, an abort, termination), counting in lists of
    threads, linked segments of a heap of \<open>next\<close> pointers, the hint collections.
  \<^item> \<open>Message_Id\<close>: ids and priorities (\<open>mailbox/id.hpp\<close>). \<open>State_Word\<close>: the actor's word, flags and
    sender count. \<open>Backoff\<close>: the retry loops' attempt limit and back-off, proved to end.
  \<^item> \<open>Lifo_Inbox\<close>, \<open>Inbox_Concurrent\<close>: \<open>detail/queue/lifo_inbox.hpp\<close> alone and under interleaved
    accesses of any number of producers and one reader; every push takes effect at one access,
    ABA included, and no element is lost or doubled. \<open>Linked_List\<close>:
    \<open>detail/queue/linked_list.hpp\<close> as pointer code; the locale \<open>fifo_queue\<close> is what its clients rely
    on; \<open>Queue_Iterators\<close>: its iterators. \<open>Default_Mailbox\<close>: the mailbox on the pointer structures, refining an abstract mailbox of
    two lists and an inbox; the locale \<open>mailbox_contract\<close> is what the actor relies on, and the
    interpretation \<open>mbx\<close> discharges it for the abstract mailbox.
  \<^item> \<open>Resumable\<close>, \<open>Actor_Protocol\<close>: \<open>enqueue_impl\<close>, \<open>resume\<close> and the destructor as step functions over
    word and mailbox, one atomic access at a time, for any number of threads. \<open>handled_log\<close> records the
    messages the behavior was given, \<open>skipped_log\<close> those popped while the actor was being destroyed. Proved:
    messages are handled or, then only, skipped exactly once, none is stranded in a mailbox nobody will look at, one driver at a time,
    one outstanding job, no assertion fails, the destructor waits for everybody. \<open>Resume_Run\<close>: one call
    of \<open>resume\<close> from start to verdict, what it handles when it runs alone and a bound on its accesses
    when it does not.
  \<^item> \<open>Scheduler\<close>: submission, the workers' loop, the condition variable and the stop protocol over
    the linked list of jobs. Proved: every job is owned by exactly one place, no wake-up is lost,
    stop cannot deadlock, draining frees exactly what is queued.
  \<^item> \<open>Runtime\<close>: any number of actors with one scheduler as one transition system, in which the caller
    of \<open>send\<close> enqueues the actor it was told to enqueue and the verdict a worker acts on is the one the
    actor's own \<open>resume\<close> returned. \<open>link_ok\<close> ties each job node to one call of \<open>resume\<close>. Proved: no
    actor is run by two workers or queued twice, none with work is forgotten or stuck until its own
    destruction begins.
  \<^item> \<open>Result_Storage\<close>, \<open>Shared_State\<close>, \<open>Settle_Protocol\<close>: the shared state, sequentially and with
    producer and consumer interleaved. Proved: it is freed at most once and only when both are
    through, what is taken is what was set; and that there is an interleaving in which it leaks.
  \<^item> \<open>Futures\<close>: \<open>promise\<close> and \<open>unique_future\<close> as handles on a heap of shared states. \<open>Coroutines\<close>:
    method coroutines, awaiting, the chain of awaited states and the behavior's handle. A frame is its
    number and whether it is at its end: destroying one runs no destructors of its own, so a theorem about
    the locals of a frame, its futures and promises, composes their destructors itself.
  \<^item> \<open>Ref_Counted\<close>: \<open>intrusive_ptr\<close> and the reference count under concurrency. \<open>Rtt\<close>: the argument
    block, its layout and the lifetime of its objects. \<open>Frame_Blocks\<close>: blocks with headers for
    frames and messages and the search for the memory resource. \<open>Messages\<close>: messages, their
    result slot and their construction. \<open>Teardown\<close>: the end of a mailbox with messages in it; every
    sender is answered and all memory returned, for messages with arguments and without. \<open>Dispatch\<close>: \<open>send\<close>, method ids, the compile-time checks
    and \<open>dispatch\<close>; \<open>send_dispatch_answers\<close> joins all of these into one statement about a call.
  \<^item> \<open>Address\<close>: \<open>address_t\<close> (\<open>actor/address.hpp\<close>) and sending through it, with the static type an actor
    is named with as part of the address; the identity \<open>actor_mixin::id_t\<close> as a linear order, \<open>spawn\<close> and the ownership of actors
    (\<open>detail/memory.hpp\<close>); owning an actor as its base, as \<open>unique_actor\<close> does, is shown to be wrong.
  \<^item> \<open>Type_Level\<close>: type lists (\<open>detail/type_list.hpp\<close>), the traits of callables and the choice of a
    coroutine's promise type (\<open>detail/coroutine_traits.hpp\<close>), which ignores a custom one for methods.

  Conventions. A record models a class and its fields the members, a function models the operation
  of its name; \<open>Inl\<close> is a failing assertion, an abort, an exception or touching what is gone. Integers
  that can wrap are words of their width; addresses are numbers with 0 for null, or words where
  arithmetic is done on them. \<open>nd\<close> stands for \<open>NDEBUG\<close> where a build with assertions
  behaves differently. What an allocator returns, what user code does and what C++ knows of user
  types are parameters. Memory is sequentially consistent.

  Bounds and fuel. No theorem rests on fuel: loops are structural, have a proved measure
  (\<open>cas_loop\<close>, \<open>drain_jobs\<close>), or are \<open>partial_function\<close>s shown to return where it is claimed
  (\<open>mb_pop_front_impl\<close>, \<open>close_loop\<close>, \<open>ll_drain_loop\<close>, \<open>update_propagated_outer\<close>). The actor is verified
  for fewer than \<open>2 ^ 29\<close> simultaneous senders, the capacity of its counter, with a positive limit on the
  messages of a run, which \<open>resume\<close> asserts (\<open>resume_never_faults\<close> shows the failure), and without a call of
  \<open>resume\<close> that begins after the destructor saw the actor quiet. A call of \<open>resume\<close> makes at most
  \<open>9 * max_throughput + 30\<close> accesses besides compare-exchanges that fail, which are not bounded. The scheduler is stopped after it
  was started. The reference count is unbounded; argument blocks lie below \<open>2 ^ 64\<close> and hold fewer
  than \<open>2 ^ 59\<close> arguments; actors have fewer than \<open>2 ^ 60\<close> methods.

  Not modelled: weaker memory orders than sequential consistency; the text \<open>std::fprintf\<close> writes;
  thread creation (\<open>detail/launch_thread.hpp\<close>) and the profiling hooks, which are empty; the test
  counters of \<open>rtt\<close>; the output operator of \<open>id_t\<close>; the examples, benchmarks and tests. In
  \<open>Runtime\<close> an actor's storage is never reused: a destroyed actor stays a name.
\<close>

end
